(* ===== verification/Prelude.thy ===== *)
theory Prelude
  imports Main "HOL-Library.Word"
begin

unbundle bit_operations_syntax

text \<open>
  Shared vocabulary of the development: the machine types of the Go sources, the
  outcome of a call that can block or panic, byte segments of an array and Go's
  \<^verbatim>\<open>copy\<close>, and the lemma collections the components draw on.

  A Go \<^verbatim>\<open>string\<close> is a sequence of bytes, so keys, identifiers and addresses are
  \<open>byte list\<close>.  A Go \<^verbatim>\<open>int\<close> that indexes memory is \<open>int\<close>; the
  fixed-width integers that are stored, sent or compared with wrap-around are words.
\<close>

type_synonym byte = "8 word"
type_synonym u16 = "16 word"
type_synonym u32 = "32 word"
type_synonym u64 = "64 word"
type_synonym gostring = "byte list"

text \<open>A string literal of the sources.\<close>

definition lit :: "string \<Rightarrow> gostring" where
  "lit s = map of_char s"

named_theorems seg_simps \<open>reading and overwriting segments of a list\<close>
named_theorems le_simps \<open>little-endian encodings\<close>
named_theorems tree_simps \<open>look-ups in an ordered tree after an update\<close>

lemma unat_of_nat_small: "n < 2 ^ LENGTH('a) \<Longrightarrow> unat (of_nat n :: 'a::len word) = n"
  by (simp add: unat_of_nat take_bit_nat_eq_self)

lemma uint_eq_iff [simp]: "uint a = uint b \<longleftrightarrow> a = b"
  by (metis word_of_int_uint)

lemma sint_nonneg_uint:
  assumes "0 \<le> sint (w :: 64 word)"
  shows "sint w = uint w"
proof -
  have s: "sint w = (uint w + 2 ^ 63) mod 2 ^ 64 - 2 ^ 63"
    by (simp add: sint_uint signed_take_bit_eq_take_bit_shift take_bit_eq_mod)
  have u: "0 \<le> uint w" "uint w < 2 ^ 64" using uint_lt2p [of w] by simp_all
  show ?thesis
  proof (cases "uint w < 2 ^ 63")
    case True
    with s u show ?thesis by simp
  next
    case False
    then have "(uint w + 2 ^ 63) mod 2 ^ 64 = uint w - 2 ^ 63"
      using u mod_add_self2 [of "uint w - 2 ^ 63" "2 ^ 64"] by (simp add: add.commute)
    with s u assms show ?thesis by simp
  qed
qed

section \<open>Outcomes of a call\<close>

text \<open>
  A call blocks for ever on a lock that is never released, panics (an index out of
  range, a slice with crossed bounds), or returns.
\<close>

datatype 'a outcome = Blocked | Panic | Ret 'a

fun obind :: "'a outcome \<Rightarrow> ('a \<Rightarrow> 'b outcome) \<Rightarrow> 'b outcome" where
  "obind Blocked f = Blocked"
| "obind Panic f = Panic"
| "obind (Ret x) f = f x"

definition of_opt :: "'a option \<Rightarrow> 'a outcome" where
  "of_opt x = (case x of None \<Rightarrow> Panic | Some y \<Rightarrow> Ret y)"

lemma of_opt_simps [simp]: "of_opt None = Panic" "of_opt (Some y) = Ret y"
  by (simp_all add: of_opt_def)

lemma obind_eq_Ret: "obind m f = Ret y \<longleftrightarrow> (\<exists>x. m = Ret x \<and> f x = Ret y)"
  by (cases m) auto

lemma case_option_Ret:
  "(case x of None \<Rightarrow> a | Some y \<Rightarrow> f y) = Ret z \<longleftrightarrow> x = None \<and> a = Ret z \<or> (\<exists>y. x = Some y \<and> f y = Ret z)"
  by (cases x) auto

lemma if_Ret: "(if c then a else b) = Ret z \<longleftrightarrow> c \<and> a = Ret z \<or> \<not> c \<and> b = Ret z"
  by auto

lemma case_sum_Ret:
  "(case x of Inl a \<Rightarrow> f a | Inr b \<Rightarrow> g b) = Ret z \<longleftrightarrow> (\<exists>a. x = Inl a \<and> f a = Ret z) \<or> (\<exists>b. x = Inr b \<and> g b = Ret z)"
  by (cases x) auto

lemmas ret_simps = obind_eq_Ret case_option_Ret if_Ret

section \<open>Segments\<close>

definition segment :: "nat \<Rightarrow> nat \<Rightarrow> 'a list \<Rightarrow> 'a list" where
  "segment off n xs = take n (drop off xs)"

definition overwrite :: "nat \<Rightarrow> 'a list \<Rightarrow> 'a list \<Rightarrow> 'a list" where
  "overwrite off ys xs = take off xs @ ys @ drop (off + length ys) xs"

text \<open>
  Go's \<^verbatim>\<open>copy(dst[off:], src)\<close>: as many bytes as fit, and how many these were.
  The caller has checked \<open>off \<le> length dst\<close> (the slice expression panics otherwise).
\<close>

definition goCopy :: "'a list \<Rightarrow> nat \<Rightarrow> 'a list \<Rightarrow> 'a list \<times> nat" where
  "goCopy dst off src =
     (let n = min (length dst - off) (length src) in (overwrite off (take n src) dst, n))"

lemma length_segment [seg_simps]: "length (segment off n xs) = min n (length xs - off)"
  by (simp add: segment_def)

lemma length_overwrite [seg_simps]:
  "off + length ys \<le> length xs \<Longrightarrow> length (overwrite off ys xs) = length xs"
  by (simp add: overwrite_def)

lemma goCopy_fits [seg_simps]:
  "off + length src \<le> length dst \<Longrightarrow> goCopy dst off src = (overwrite off src dst, length src)"
  by (auto simp: goCopy_def Let_def min_def)

lemma segment_overwrite_same [seg_simps]:
  "off \<le> length xs \<Longrightarrow> segment off (length ys) (overwrite off ys xs) = ys"
  by (simp add: segment_def overwrite_def)

lemma segment_overwrite_before:
  "i + n \<le> off \<Longrightarrow> off \<le> length xs \<Longrightarrow> segment i n (overwrite off ys xs) = segment i n xs"
  by (rule nth_equalityI) (auto simp: segment_def overwrite_def nth_append)

lemma segment_overwrite_after:
  "off + length ys \<le> i \<Longrightarrow> off + length ys \<le> length xs \<Longrightarrow>
   segment i n (overwrite off ys xs) = segment i n xs"
  by (simp add: segment_def overwrite_def)

lemma segment_overwrite_disjoint [seg_simps]:
  "i + n \<le> off \<or> off + length ys \<le> i \<Longrightarrow> off + length ys \<le> length xs \<Longrightarrow>
   segment i n (overwrite off ys xs) = segment i n xs"
  using segment_overwrite_before [of i n off xs ys] segment_overwrite_after [of off ys i xs n]
  by auto

lemma overwrite_overwrite_adjacent [seg_simps]:
  "off + length ys + length zs \<le> length xs \<Longrightarrow>
   overwrite (off + length ys) zs (overwrite off ys xs) = overwrite off (ys @ zs) xs"
  by (simp add: overwrite_def add.assoc add.commute [of "length zs"])

lemma overwrite_Nil [simp]: "overwrite off [] xs = xs"
  by (simp add: overwrite_def)

lemma overwrite_0: "length ys \<le> length xs \<Longrightarrow> overwrite 0 ys xs = ys @ drop (length ys) xs"
  by (simp add: overwrite_def)

lemma overwrite_append_same:
  "length pre = k \<Longrightarrow> overwrite k ys (pre @ xs) = pre @ ys @ drop (length ys) xs"
  by (simp add: overwrite_def)

lemma segment_append_left [seg_simps]:
  "off + n \<le> length xs \<Longrightarrow> segment off n (xs @ ys) = segment off n xs"
  by (simp add: segment_def)

lemma segment_segment [seg_simps]:
  "i + k \<le> n \<Longrightarrow> segment i k (segment off n xs) = segment (off + i) k xs"
  by (simp add: segment_def drop_take min_def add.commute)

lemma segment_take [seg_simps]: "off + n \<le> m \<Longrightarrow> segment off n (take m xs) = segment off n xs"
  by (simp add: segment_def drop_take min_def)

lemma segment_split:
  "segment off (m + n) xs = segment off m xs @ segment (off + m) n xs"
  by (simp add: segment_def take_add add.commute)

lemma segment_all [simp]: "segment 0 (length xs) xs = xs"
  by (simp add: segment_def)

lemma segment_prefix [seg_simps]: "segment 0 (length xs) (xs @ ys) = xs"
  by (simp add: segment_def)

lemma overwrite_in_segment [seg_simps]:
  assumes "i + length ys \<le> n" and "off + n \<le> length xs"
  shows "segment off n (overwrite (off + i) ys xs) = overwrite i ys (segment off n xs)"
proof -
  have "drop off (overwrite (off + i) ys xs) = overwrite i ys (drop off xs)"
    using assms by (simp add: overwrite_def drop_take add.commute add.left_commute)
  moreover have "take n (overwrite i ys (drop off xs)) = overwrite i ys (take n (drop off xs))"
    using assms by (simp add: overwrite_def drop_take)
  ultimately show ?thesis by (simp add: segment_def)
qed

section \<open>Integer intervals of bytes\<close>

text \<open>The positions an allocation of \<open>n\<close> bytes at index \<open>i\<close> occupies.\<close>

abbreviation span :: "int \<Rightarrow> int \<Rightarrow> int set" where
  "span i n \<equiv> {i..<i + n}"

lemma span_disjoint_iff:
  assumes "0 < m" and "0 < n"
  shows "span i m \<inter> span j n = {} \<longleftrightarrow> i + m \<le> j \<or> j + n \<le> i"
proof
  assume *: "span i m \<inter> span j n = {}"
  have "max i j \<notin> span i m \<inter> span j n" unfolding * by simp
  then show "i + m \<le> j \<or> j + n \<le> i" using assms by auto
qed auto

lemma span_split: "0 \<le> m \<Longrightarrow> m \<le> n \<Longrightarrow> span i n = span i m \<union> span (i + m) (n - m)"
  by auto

lemma span_endpoints: "0 < n \<Longrightarrow> i \<in> span i n" "0 < n \<Longrightarrow> i + n - 1 \<in> span i n"
  by auto

section \<open>Transition systems\<close>

text \<open>What every step keeps holds in every state that is reached from one where it holds.\<close>

locale kept_invariant =
  fixes step :: "'s \<Rightarrow> 's \<Rightarrow> bool" and inv :: "'s \<Rightarrow> bool"
  assumes kept: "inv s \<Longrightarrow> step s s' \<Longrightarrow> inv s'"
begin

lemma reachable: "step\<^sup>*\<^sup>* s s' \<Longrightarrow> inv s \<Longrightarrow> inv s'"
  by (induction rule: rtranclp_induct) (auto intro: kept)

end

end
