(* ===== verification/Gods.thy ===== *)
theory Gods
  imports Prelude "HOL-Library.RBT"
begin

text \<open>
  The containers the sources import from \<^verbatim>\<open>github.com/emirpasic/gods\<close>: the ordered tree
  \<^verbatim>\<open>avltree\<close> (index of the free list, expiry tree of a shard) and \<^verbatim>\<open>hashset\<close> (the keys that
  expire at one time).  Their code is not part of the repository, so the model takes their
  methods as a record of functions and states the documented behaviour as the predicates
  \<open>avltree_laws\<close> and \<open>hashset_laws\<close>.  \<open>rbt_tree\<close> and \<open>list_set\<close> are executable
  instances for concrete runs.
\<close>

section \<open>Ordered trees\<close>

text \<open>
  \<open>tLeft\<close> is \<^verbatim>\<open>it := t.Iterator(); it.Next(); it.Key(), it.Value()\<close>: the entry with the
  least key, and nothing (two nil values) when the tree is empty.
\<close>

record ('k, 'v, 't) avltree =
  tNew :: 't
  tGet :: "'t \<Rightarrow> 'k \<Rightarrow> 'v option"
  tPut :: "'t \<Rightarrow> 'k \<Rightarrow> 'v \<Rightarrow> 't"
  tRemove :: "'t \<Rightarrow> 'k \<Rightarrow> 't"
  tSize :: "'t \<Rightarrow> nat"
  tLeft :: "'t \<Rightarrow> ('k \<times> 'v) option"
  tClear :: "'t \<Rightarrow> 't"

definition avltree_laws :: "('k::linorder, 'v, 't) avltree \<Rightarrow> bool" where
  "avltree_laws T \<longleftrightarrow>
     (\<forall>k. tGet T (tNew T) k = None) \<and>
     (\<forall>t k v k'. tGet T (tPut T t k v) k' = (if k' = k then Some v else tGet T t k')) \<and>
     (\<forall>t k k'. tGet T (tRemove T t k) k' = (if k' = k then None else tGet T t k')) \<and>
     (\<forall>t k. tGet T (tClear T t) k = None) \<and>
     (\<forall>t. finite (dom (tGet T t)) \<and> tSize T t = card (dom (tGet T t))) \<and>
     (\<forall>t. tLeft T t = None \<longrightarrow> dom (tGet T t) = {}) \<and>
     (\<forall>t k v. tLeft T t = Some (k, v) \<longrightarrow>
        tGet T t k = Some v \<and> (\<forall>k' \<in> dom (tGet T t). k \<le> k'))"

lemma tGet_updates [tree_simps]:
  assumes "avltree_laws T"
  shows "tGet T (tNew T) k = None"
    and "tGet T (tPut T t k v) k' = (if k' = k then Some v else tGet T t k')"
    and "tGet T (tRemove T t k) k' = (if k' = k then None else tGet T t k')"
    and "tGet T (tClear T t) k = None"
  using assms unfolding avltree_laws_def by blast+

lemma finite_dom_tGet: "avltree_laws T \<Longrightarrow> finite (dom (tGet T t))"
  unfolding avltree_laws_def by blast

lemma tSize_card: "avltree_laws T \<Longrightarrow> tSize T t = card (dom (tGet T t))"
  unfolding avltree_laws_def by blast

lemma tSize_zero: "avltree_laws T \<Longrightarrow> tSize T t < 1 \<longleftrightarrow> dom (tGet T t) = {}"
  by (simp add: tSize_card finite_dom_tGet)

lemma tLeft_None: "avltree_laws T \<Longrightarrow> tLeft T t = None \<longleftrightarrow> dom (tGet T t) = {}"
  unfolding avltree_laws_def by (metis domI empty_iff option.exhaust surj_pair)

lemma tLeft_Some:
  assumes "avltree_laws T" and "tLeft T t = Some (k, v)"
  shows "tGet T t k = Some v" and "tGet T t k' = Some v' \<Longrightarrow> k \<le> k'"
  using assms unfolding avltree_laws_def by blast+

lemma tLeft_least:
  assumes "avltree_laws T" and "tGet T t k = Some v" and "\<And>k'. k' \<in> dom (tGet T t) \<Longrightarrow> k \<le> k'"
  shows "tLeft T t = Some (k, v)"
proof (cases "tLeft T t")
  case None
  with assms(1,2) show ?thesis by (auto simp: tLeft_None dom_def)
next
  case (Some kv)
  obtain k' v' where kv: "kv = (k', v')" by (cases kv)
  with Some tLeft_Some [OF assms(1)] have "tGet T t k' = Some v'" "k' \<le> k"
    using assms(2) by metis+
  moreover from this(1) have "k \<le> k'" using assms(3) by auto
  ultimately show ?thesis using Some kv assms(2) by auto
qed

section \<open>Hash sets\<close>

text \<open>The order of \<open>hValues\<close> is not specified; each value occurs once.\<close>

record ('a, 'h) hashset =
  hNew :: 'h
  hAdd :: "'h \<Rightarrow> 'a \<Rightarrow> 'h"
  hRemove :: "'h \<Rightarrow> 'a \<Rightarrow> 'h"
  hIsEmpty :: "'h \<Rightarrow> bool"
  hValues :: "'h \<Rightarrow> 'a list"

abbreviation hElems :: "('a, 'h) hashset \<Rightarrow> 'h \<Rightarrow> 'a set" where
  "hElems H h \<equiv> set (hValues H h)"

definition hashset_laws :: "('a, 'h) hashset \<Rightarrow> bool" where
  "hashset_laws H \<longleftrightarrow>
     hElems H (hNew H) = {} \<and>
     (\<forall>h x. hElems H (hAdd H h x) = insert x (hElems H h)) \<and>
     (\<forall>h x. hElems H (hRemove H h x) = hElems H h - {x}) \<and>
     (\<forall>h. hIsEmpty H h \<longleftrightarrow> hElems H h = {}) \<and>
     (\<forall>h. distinct (hValues H h))"

lemma hElems_updates [tree_simps]:
  assumes "hashset_laws H"
  shows "hElems H (hNew H) = {}"
    and "hElems H (hAdd H h x) = insert x (hElems H h)"
    and "hElems H (hRemove H h x) = hElems H h - {x}"
    and "hIsEmpty H h \<longleftrightarrow> hElems H h = {}"
    and "distinct (hValues H h)"
  using assms unfolding hashset_laws_def by blast+

section \<open>Executable instances\<close>

definition rbt_tree :: "('k::linorder, 'v, ('k, 'v) RBT.rbt) avltree" where
  "rbt_tree = \<lparr> tNew = RBT.empty, tGet = RBT.lookup,
     tPut = (\<lambda>t k v. RBT.insert k v t), tRemove = (\<lambda>t k. RBT.delete k t),
     tSize = (\<lambda>t. length (RBT.entries t)),
     tLeft = (\<lambda>t. case RBT.entries t of [] \<Rightarrow> None | kv # _ \<Rightarrow> Some kv),
     tClear = (\<lambda>_. RBT.empty) \<rparr>"

definition list_set :: "('a, 'a list) hashset" where
  "list_set = \<lparr> hNew = [], hAdd = (\<lambda>h x. x # h), hRemove = (\<lambda>h x. removeAll x h),
     hIsEmpty = (\<lambda>h. h = []), hValues = remdups \<rparr>"

lemma rbt_size_entries:
  "length (RBT.entries t) = card (dom (RBT.lookup (t :: ('k::linorder, 'v) RBT.rbt)))"
proof -
  have "dom (RBT.lookup t) = set (map fst (RBT.entries t))"
    by (simp add: dom_map_of_conv_image_fst flip: RBT.map_of_entries)
  then show ?thesis by (metis RBT.distinct_entries distinct_card length_map)
qed

lemma rbt_least_entry:
  assumes "RBT.entries (t :: ('k::linorder, 'v) RBT.rbt) = (k, v) # kvs"
  shows "RBT.lookup t k = Some v" and "k' \<in> dom (RBT.lookup t) \<Longrightarrow> k \<le> k'"
proof -
  have "sorted (map fst (RBT.entries t))" by (rule RBT.sorted_entries)
  moreover have "RBT.lookup t = map_of (RBT.entries t)" by simp
  ultimately show "RBT.lookup t k = Some v" and "k' \<in> dom (RBT.lookup t) \<Longrightarrow> k \<le> k'"
    using assms by (auto simp: dom_map_of_conv_image_fst)
qed

lemma rbt_tree_laws: "avltree_laws rbt_tree"
proof -
  have "dom (RBT.lookup t) = {}" if "RBT.entries t = []" for t :: "('k::linorder, 'v) RBT.rbt"
    using that by (simp flip: RBT.map_of_entries)
  then show ?thesis
    unfolding avltree_laws_def rbt_tree_def
    by (auto simp: rbt_size_entries rbt_least_entry(1) split: list.splits
        dest: rbt_least_entry(2) [OF _ domI])
qed

lemma list_set_laws: "hashset_laws list_set"
  by (auto simp: hashset_laws_def list_set_def)

end
