(* ===== verification/Allocator.thy ===== *)
theory Allocator
  imports Prelude
begin

text \<open>
  The contract between the byte queue and its free list: what a client of an allocator of
  byte regions may rely on.  \<open>alloc n f\<close> returns the first position of a free region of
  \<open>n\<close> bytes and takes it out of the free bytes, or \<open>-1\<close>; \<open>release i n f\<close> gives a region
  back, of which the allocator may remember less than it was given.  From these two laws
  the locale derives that blocks handed out never overlap, whatever the sequence of calls.
\<close>

text \<open>A set of blocks (first position, length) that are non-empty and pairwise disjoint.\<close>

definition separate :: "(int \<times> int) set \<Rightarrow> bool" where
  "separate A \<longleftrightarrow>
     (\<forall>(i, n) \<in> A. 0 < n) \<and>
     (\<forall>(i, n) \<in> A. \<forall>(j, m) \<in> A. (i, n) \<noteq> (j, m) \<longrightarrow> span i n \<inter> span j m = {})"

definition covered :: "(int \<times> int) set \<Rightarrow> int set" where
  "covered A = (\<Union>(i, n) \<in> A. span i n)"

lemma separateD:
  assumes "separate A"
  shows "(i, n) \<in> A \<Longrightarrow> 0 < n"
    and "(i, n) \<in> A \<Longrightarrow> (j, m) \<in> A \<Longrightarrow> (i, n) \<noteq> (j, m) \<Longrightarrow> span i n \<inter> span j m = {}"
  using assms unfolding separate_def by blast+

lemma separate_empty [simp]: "separate {}" "covered {} = {}"
  by (simp_all add: separate_def covered_def)

lemma covered_insert [simp]: "covered (insert (i, n) A) = span i n \<union> covered A"
  by (simp add: covered_def)

lemma covered_member: "(i, n) \<in> A \<Longrightarrow> span i n \<subseteq> covered A"
  by (auto simp: covered_def)

lemma separate_insert:
  assumes "separate A" and "0 < n" and "span i n \<inter> covered A = {}"
  shows "separate (insert (i, n) A)"
proof -
  have "span i n \<inter> span j m = {}" if "(j, m) \<in> A" for j m
    using assms(3) covered_member [OF that] by blast
  then show ?thesis
    using assms(1,2) unfolding separate_def by (auto simp: Int_commute)
qed

lemma separate_subset: "separate A \<Longrightarrow> B \<subseteq> A \<Longrightarrow> separate B"
  unfolding separate_def by blast

lemma covered_remove:
  "separate A \<Longrightarrow> (i, n) \<in> A \<Longrightarrow> covered (A - {(i, n)}) = covered A - span i n"
  using separateD(2) [of A] unfolding covered_def by blast

lemma separate_fresh:
  "separate A \<Longrightarrow> 0 < n \<Longrightarrow> span i n \<inter> covered A = {} \<Longrightarrow> (i, m) \<notin> A"
  using separateD(1) [of A i m] covered_member [of i m A] by fastforce

locale region_allocator =
  fixes inv :: "'f \<Rightarrow> bool" and free :: "'f \<Rightarrow> int set"
    and alloc :: "int \<Rightarrow> 'f \<Rightarrow> int \<times> 'f" and release :: "int \<Rightarrow> int \<Rightarrow> 'f \<Rightarrow> 'f"
  assumes alloc_spec: "inv f \<Longrightarrow> 0 < n \<Longrightarrow> alloc n f = (i, f') \<Longrightarrow>
      i = -1 \<and> f' = f \<or> span i n \<subseteq> free f \<and> inv f' \<and> free f' = free f - span i n"
    and release_inv: "inv f \<Longrightarrow> 0 < n \<Longrightarrow> span i n \<inter> free f = {} \<Longrightarrow> inv (release i n f)"
    and release_free: "inv f \<Longrightarrow> 0 < n \<Longrightarrow> span i n \<inter> free f = {} \<Longrightarrow>
      free (release i n f) \<subseteq> free f \<union> span i n"
begin

text \<open>The client holds the blocks \<open>A\<close>; none of their bytes is free.\<close>

definition owns :: "'f \<Rightarrow> (int \<times> int) set \<Rightarrow> bool" where
  "owns f A \<longleftrightarrow> inv f \<and> separate A \<and> covered A \<inter> free f = {}"

lemma owns_alloc:
  assumes o: "owns f A" and n: "0 < n" and a: "alloc n f = (i, f')" and i: "i \<noteq> -1"
  shows "owns f' (insert (i, n) A)" and "(i, m) \<notin> A" and "span i n \<subseteq> free f" and "free f' \<subseteq> free f"
proof -
  from o have inv: "inv f" and sep: "separate A" and dis: "covered A \<inter> free f = {}"
    by (auto simp: owns_def)
  from alloc_spec [OF inv n a] i have *: "span i n \<subseteq> free f" "inv f'" "free f' = free f - span i n"
    by auto
  have new: "span i n \<inter> covered A = {}" using *(1) dis by blast
  show "owns f' (insert (i, n) A)"
    using * dis new separate_insert [OF sep n new] unfolding owns_def by auto
  show "(i, m) \<notin> A" by (rule separate_fresh [OF sep n new])
  show "span i n \<subseteq> free f" "free f' \<subseteq> free f" using * by auto
qed

lemma owns_alloc_miss:
  assumes "owns f A" and "0 < n" and "alloc n f = (-1, f')" and "-1 \<notin> free f"
  shows "f' = f"
proof -
  have "-1 \<in> span (-1) n" using assms(2) by simp
  with alloc_spec [of f n "-1" f'] assms show ?thesis unfolding owns_def by blast
qed

lemma owns_release:
  assumes o: "owns f A" and i: "(i, n) \<in> A"
  shows "owns (release i n f) (A - {(i, n)})" and "free (release i n f) \<subseteq> free f \<union> span i n"
proof -
  from o have inv: "inv f" and sep: "separate A" and dis: "covered A \<inter> free f = {}"
    by (auto simp: owns_def)
  have n: "0 < n" by (rule separateD(1) [OF sep i])
  have new: "span i n \<inter> free f = {}" using dis covered_member [OF i] by blast
  show fr: "free (release i n f) \<subseteq> free f \<union> span i n" by (rule release_free [OF inv n new])
  show "owns (release i n f) (A - {(i, n)})"
    using fr dis release_inv [OF inv n new] separate_subset [OF sep, of "A - {(i, n)}"]
    unfolding owns_def covered_remove [OF sep i] by auto
qed

lemma owns_extend:
  assumes "owns f A" and "0 < n" and "span i n \<inter> covered A = {}" and "span i n \<inter> free f = {}"
  shows "owns f (insert (i, n) A)" and "(i, m) \<notin> A"
  using assms separate_insert [of A n i] separate_fresh [of A n i m] unfolding owns_def by auto

end

end
