(* ===== verification/FreeList.thy ===== *)
theory FreeList
  imports Gods Allocator
begin

text \<open>
  The free list of the byte queue (\<^verbatim>\<open>bigcache/queue/freeList.go\<close>): which regions of the
  parent array hold deleted entries and can be handed out again.  A region is an
  \<^verbatim>\<open>itemPos\<close> object shared by pointer between eight size buckets and an ordered tree that
  maps its first and its last position to it, and one branch of \<^verbatim>\<open>findInSizeList\<close> shrinks
  the object in place.  The model therefore keeps an explicit store: a pointer is a
  position of \<open>store\<close>, allocation appends.

  Main results: \<open>fl_inv\<close> (tree, buckets and store describe the same disjoint regions) is
  kept by every operation, the free positions after \<open>add\<close> and \<open>find\<close> are known exactly,
  and \<open>find\<close> misses only when no region it indexes is large enough.
\<close>

section \<open>The data\<close>

record itemPos =
  actualSize :: int
  parentIndex :: int

record 't freeList =
  sizeList :: "nat list list"
  indexTree :: 't
  treeOps :: "(int, nat, 't) avltree"
  store :: "itemPos list"

definition newFreeList :: "(int, nat, 't) avltree \<Rightarrow> 't freeList" where
  "newFreeList T = \<lparr> sizeList = replicate 8 [], indexTree = tNew T, treeOps = T, store = [] \<rparr>"

definition item :: "'t freeList \<Rightarrow> nat \<Rightarrow> itemPos" where
  "item fl r = store fl ! r"

definition treeGet :: "'t freeList \<Rightarrow> int \<Rightarrow> nat option" where
  "treeGet fl k = tGet (treeOps fl) (indexTree fl) k"

definition treePut :: "int \<Rightarrow> nat \<Rightarrow> 't freeList \<Rightarrow> 't freeList" where
  "treePut k r fl = fl\<lparr> indexTree := tPut (treeOps fl) (indexTree fl) k r \<rparr>"

definition treeRemove :: "int \<Rightarrow> 't freeList \<Rightarrow> 't freeList" where
  "treeRemove k fl = fl\<lparr> indexTree := tRemove (treeOps fl) (indexTree fl) k \<rparr>"

section \<open>The operations\<close>

text \<open>The bucket of a size; the two \<^verbatim>\<open>switch\<close> statements leave size 4096 without a case.\<close>

definition sizeClass :: "int \<Rightarrow> nat option" where
  "sizeClass s =
     (if s < 64 then Some 0
      else if s < 128 then Some 1
      else if s < 256 then Some 2
      else if s < 512 then Some 3
      else if s < 1024 then Some 4
      else if s < 2048 then Some 5
      else if s < 4096 then Some 6
      else if s > 4096 then Some 7
      else None)"

fun listPosFrom :: "nat \<Rightarrow> nat list \<Rightarrow> nat \<Rightarrow> int" where
  "listPosFrom v [] x = -1"
| "listPosFrom v (y # ys) x = (if v = y then int x else listPosFrom v ys (Suc x))"

definition listPos :: "nat \<Rightarrow> nat list \<Rightarrow> int" where
  "listPos v arr = listPosFrom v arr 0"

text \<open>\<^verbatim>\<open>copy(a[pos:], a[(pos+1):]); a = a[:len(a)-1]\<close>\<close>

definition removeAt :: "nat \<Rightarrow> nat list \<Rightarrow> nat list" where
  "removeAt pos arr = take pos arr @ drop (Suc pos) arr"

definition removeFromSizeList :: "nat \<Rightarrow> 't freeList \<Rightarrow> 't freeList" where
  "removeFromSizeList v fl =
     (case sizeClass (actualSize (item fl v)) of
        None \<Rightarrow> fl
      | Some b \<Rightarrow>
          (let pos = listPos v (sizeList fl ! b)
           in if pos \<noteq> -1
              then fl\<lparr> sizeList := (sizeList fl)[b := removeAt (nat pos) (sizeList fl ! b)] \<rparr>
              else fl))"

definition putIntoSizeList :: "nat \<Rightarrow> 't freeList \<Rightarrow> 't freeList" where
  "putIntoSizeList v fl =
     (case sizeClass (actualSize (item fl v)) of
        None \<Rightarrow> fl
      | Some b \<Rightarrow> fl\<lparr> sizeList := (sizeList fl)[b := sizeList fl ! b @ [v]] \<rparr>)"

text \<open>
  \<^verbatim>\<open>add\<close>: merge with the neighbour that ends at \<open>index - 1\<close>, then with the one that
  starts at \<open>index + size\<close> (which overwrites the fields set by the first merge), then
  index the resulting item by its first and last position and put it into its bucket.
\<close>

definition mergeLeft :: "int \<Rightarrow> int \<Rightarrow> 't freeList \<Rightarrow> itemPos \<times> 't freeList" where
  "mergeLeft index sz fl =
     (let it = \<lparr> actualSize = sz, parentIndex = index \<rparr> in
      case treeGet fl (index - 1) of
        None \<Rightarrow> (it, fl)
      | Some r \<Rightarrow>
          (let v = item fl r;
               fl = treeRemove (index - 1) fl;
               fl = treeRemove (parentIndex v) fl;
               fl = removeFromSizeList r fl
           in (it\<lparr> parentIndex := parentIndex v, actualSize := actualSize v + sz \<rparr>, fl)))"

definition mergeRight :: "int \<Rightarrow> int \<Rightarrow> itemPos \<times> 't freeList \<Rightarrow> itemPos \<times> 't freeList" where
  "mergeRight index sz p =
     (let it = fst p; fl = snd p in
      case treeGet fl (index + sz) of
        None \<Rightarrow> (it, fl)
      | Some r \<Rightarrow>
          (let v = item fl r;
               fl = treeRemove (index + sz) fl;
               fl = treeRemove (parentIndex v + actualSize v - 1) fl;
               fl = removeFromSizeList r fl
           in (it\<lparr> parentIndex := index, actualSize := sz + actualSize v \<rparr>, fl)))"

definition attachItem :: "itemPos \<times> 't freeList \<Rightarrow> 't freeList" where
  "attachItem p =
     (let it = fst p; fl = snd p;
          r = length (store fl);
          fl = fl\<lparr> store := store fl @ [it] \<rparr>;
          fl = treePut (parentIndex it) r fl;
          fl = treePut (parentIndex it + actualSize it - 1) r fl
      in putIntoSizeList r fl)"

definition freeList_add :: "int \<Rightarrow> int \<Rightarrow> 't freeList \<Rightarrow> 't freeList" where
  "freeList_add index sz fl = attachItem (mergeRight index sz (mergeLeft index sz fl))"

text \<open>
  \<^verbatim>\<open>findInSizeList\<close>: the first item of the bucket that is large enough; \<open>Some i\<close> stands
  for \<^verbatim>\<open>(i, true)\<close> and \<open>None\<close> for \<^verbatim>\<open>(-1, false)\<close>.
\<close>

fun firstFit :: "'t freeList \<Rightarrow> int \<Rightarrow> nat list \<Rightarrow> nat \<Rightarrow> nat option" where
  "firstFit fl sz [] x = None"
| "firstFit fl sz (r # rs) x =
     (if sz \<le> actualSize (item fl r) then Some x else firstFit fl sz rs (Suc x))"

definition dropFromBucket :: "nat \<Rightarrow> nat \<Rightarrow> 't freeList \<Rightarrow> 't freeList" where
  "dropFromBucket idx x fl =
     fl\<lparr> sizeList := (sizeList fl)[idx := removeAt x (sizeList fl ! idx)] \<rparr>"

definition findInSizeList :: "nat \<Rightarrow> int \<Rightarrow> int \<Rightarrow> 't freeList \<Rightarrow> int option \<times> 't freeList" where
  "findInSizeList idx sz buckSize fl =
     (case firstFit fl sz (sizeList fl ! idx) 0 of
        None \<Rightarrow> (None, fl)
      | Some x \<Rightarrow>
          (let r = sizeList fl ! idx ! x;
               tmp = item fl r;
               fl = treeRemove (parentIndex tmp) fl
           in if sz = actualSize tmp then
                (let fl = dropFromBucket idx x fl;
                     fl = treeRemove (actualSize tmp + parentIndex tmp - 1) fl
                 in (Some (parentIndex tmp), fl))
              else if actualSize tmp - sz \<ge> buckSize then
                (let tmp' = tmp\<lparr> parentIndex := parentIndex tmp + sz,
                                  actualSize := actualSize tmp - sz \<rparr>;
                     fl = fl\<lparr> store := (store fl)[r := tmp'] \<rparr>;
                     fl = treePut (parentIndex tmp') r fl
                 in (Some (parentIndex tmp), fl))
              else
                (let fl = treeRemove (parentIndex tmp + actualSize tmp - 1) fl;
                     fl = dropFromBucket idx x fl;
                     fl = freeList_add (parentIndex tmp + sz) (actualSize tmp - sz) fl
                 in (Some (parentIndex tmp), fl))))"

definition findStart :: "int \<Rightarrow> nat \<times> int" where
  "findStart sz =
     (if sz < 64 then (0, 64)
      else if sz < 128 then (1, 128)
      else if sz < 256 then (2, 256)
      else if sz < 512 then (3, 512)
      else if sz < 1024 then (4, 1024)
      else if sz < 2048 then (5, 2048)
      else if sz < 4096 then (6, 4096)
      else if sz > 4096 then (7, 4097)
      else (0, 0))"

function findLoop :: "nat \<Rightarrow> int \<Rightarrow> int \<Rightarrow> 't freeList \<Rightarrow> int \<times> 't freeList" where
  "findLoop idx sz buckSize fl =
     (if idx < 8 then
        (case findInSizeList idx sz buckSize fl of
           (Some v, fl') \<Rightarrow> (v, fl')
         | (None, fl') \<Rightarrow>
             findLoop (Suc idx) sz (if idx < 6 then buckSize * 2 else 4097) fl')
      else (-1, fl))"
  by pat_completeness auto
termination
  by (relation "measure (\<lambda>(idx, _, _, _). 8 - idx)") auto

declare findLoop.simps [simp del]

definition freeList_find :: "int \<Rightarrow> 't freeList \<Rightarrow> int \<times> 't freeList" where
  "freeList_find sz fl = (let (index, buckSize) = findStart sz in findLoop index sz buckSize fl)"

section \<open>What the free list describes\<close>

definition live :: "'t freeList \<Rightarrow> nat set" where
  "live fl = {r. \<exists>k. treeGet fl k = Some r}"

abbreviation startOf :: "'t freeList \<Rightarrow> nat \<Rightarrow> int" where
  "startOf fl r \<equiv> parentIndex (item fl r)"

abbreviation stopOf :: "'t freeList \<Rightarrow> nat \<Rightarrow> int" where
  "stopOf fl r \<equiv> parentIndex (item fl r) + actualSize (item fl r) - 1"

abbreviation blockOf :: "'t freeList \<Rightarrow> nat \<Rightarrow> int set" where
  "blockOf fl r \<equiv> span (parentIndex (item fl r)) (actualSize (item fl r))"

definition freeBytes :: "'t freeList \<Rightarrow> int set" where
  "freeBytes fl = (\<Union>r \<in> live fl. blockOf fl r)"

definition tree_ok :: "'t freeList \<Rightarrow> bool" where
  "tree_ok fl \<longleftrightarrow>
     avltree_laws (treeOps fl) \<and>
     (\<forall>r \<in> live fl. r < length (store fl) \<and> 0 < actualSize (item fl r) \<and>
        treeGet fl (startOf fl r) = Some r \<and> treeGet fl (stopOf fl r) = Some r) \<and>
     (\<forall>k r. treeGet fl k = Some r \<longrightarrow> k = startOf fl r \<or> k = stopOf fl r) \<and>
     (\<forall>r \<in> live fl. \<forall>s \<in> live fl. r \<noteq> s \<longrightarrow> blockOf fl r \<inter> blockOf fl s = {})"

definition buckets_ok :: "'t freeList \<Rightarrow> bool" where
  "buckets_ok fl \<longleftrightarrow> length (sizeList fl) = 8 \<and>
     (\<forall>b < 8. distinct (sizeList fl ! b) \<and>
        set (sizeList fl ! b) = {r \<in> live fl. sizeClass (actualSize (item fl r)) = Some b})"

definition fl_inv :: "'t freeList \<Rightarrow> bool" where
  "fl_inv fl \<longleftrightarrow> tree_ok fl \<and> buckets_ok fl"

lemma fl_inv_newFreeList: "avltree_laws T \<Longrightarrow> fl_inv (newFreeList T) \<and> freeBytes (newFreeList T) = {}"
  by (simp add: fl_inv_def tree_ok_def buckets_ok_def newFreeList_def live_def treeGet_def
      freeBytes_def tree_simps)

named_theorems fl_fields \<open>fields of a free list after a primitive update\<close>

lemma fl_prim_fields [fl_fields]:
  "treeOps (treePut k r fl) = treeOps fl" "store (treePut k r fl) = store fl"
  "sizeList (treePut k r fl) = sizeList fl"
  "treeOps (treeRemove k fl) = treeOps fl" "store (treeRemove k fl) = store fl"
  "sizeList (treeRemove k fl) = sizeList fl"
  "treeOps (dropFromBucket b x fl) = treeOps fl" "store (dropFromBucket b x fl) = store fl"
  "indexTree (dropFromBucket b x fl) = indexTree fl"
  "treeOps (removeFromSizeList v fl) = treeOps fl" "store (removeFromSizeList v fl) = store fl"
  "indexTree (removeFromSizeList v fl) = indexTree fl"
  "treeOps (putIntoSizeList v fl) = treeOps fl" "store (putIntoSizeList v fl) = store fl"
  "indexTree (putIntoSizeList v fl) = indexTree fl"
  by (simp_all add: treePut_def treeRemove_def dropFromBucket_def removeFromSizeList_def
      putIntoSizeList_def Let_def split: option.splits)

lemma item_fields [fl_fields]:
  "item (treePut k r fl) = item fl" "item (treeRemove k fl) = item fl"
  "item (dropFromBucket b x fl) = item fl" "item (removeFromSizeList v fl) = item fl"
  "item (putIntoSizeList v fl) = item fl"
  by (simp_all add: item_def fun_eq_iff fl_fields)

lemma treeGet_prims [fl_fields]:
  assumes "avltree_laws (treeOps fl)"
  shows "treeGet (treePut k r fl) k' = (if k' = k then Some r else treeGet fl k')"
    and "treeGet (treeRemove k fl) k' = (if k' = k then None else treeGet fl k')"
  using assms by (simp_all add: treeGet_def treePut_def treeRemove_def tree_simps)

lemma treeGet_bucket_ops [fl_fields]:
  "treeGet (dropFromBucket b x fl) = treeGet fl" "treeGet (removeFromSizeList v fl) = treeGet fl"
  "treeGet (putIntoSizeList v fl) = treeGet fl"
  by (simp_all add: treeGet_def fun_eq_iff fl_fields)

lemma tree_okD:
  assumes "tree_ok fl"
  shows "avltree_laws (treeOps fl)"
    and "r \<in> live fl \<Longrightarrow> r < length (store fl)" and "r \<in> live fl \<Longrightarrow> 0 < actualSize (item fl r)"
    and "r \<in> live fl \<Longrightarrow> treeGet fl (startOf fl r) = Some r"
    and "r \<in> live fl \<Longrightarrow> treeGet fl (stopOf fl r) = Some r"
    and "treeGet fl k = Some r \<Longrightarrow> k = startOf fl r \<or> k = stopOf fl r"
    and "r \<in> live fl \<Longrightarrow> s \<in> live fl \<Longrightarrow> r \<noteq> s \<Longrightarrow> blockOf fl r \<inter> blockOf fl s = {}"
  using assms unfolding tree_ok_def by blast+

lemma tree_okI:
  assumes "avltree_laws (treeOps fl)"
    and "\<And>r. r \<in> live fl \<Longrightarrow> r < length (store fl) \<and> 0 < actualSize (item fl r)"
    and "\<And>r. r \<in> live fl \<Longrightarrow> treeGet fl (startOf fl r) = Some r"
    and "\<And>r. r \<in> live fl \<Longrightarrow> treeGet fl (stopOf fl r) = Some r"
    and "\<And>k r. treeGet fl k = Some r \<Longrightarrow> k = startOf fl r \<or> k = stopOf fl r"
    and "\<And>r s x. r \<in> live fl \<Longrightarrow> s \<in> live fl \<Longrightarrow> x \<in> blockOf fl r \<Longrightarrow> x \<in> blockOf fl s \<Longrightarrow> r = s"
  shows "tree_ok fl"
  using assms unfolding tree_ok_def by blast

lemma liveI: "treeGet fl k = Some r \<Longrightarrow> r \<in> live fl"
  by (auto simp: live_def)

lemma treeGet_in_block: "tree_ok fl \<Longrightarrow> treeGet fl k = Some r \<Longrightarrow> k \<in> blockOf fl r"
  using tree_okD(3,6) [of fl] liveI [of fl k r] by fastforce

lemma live_block_unique:
  "tree_ok fl \<Longrightarrow> r \<in> live fl \<Longrightarrow> s \<in> live fl \<Longrightarrow> x \<in> blockOf fl r \<Longrightarrow> x \<in> blockOf fl s \<Longrightarrow> s = r"
  using tree_okD(7) by blast

lemma block_free: "r \<in> live fl \<Longrightarrow> blockOf fl r \<subseteq> freeBytes fl"
  by (auto simp: freeBytes_def)

lemma treeGet_free: "tree_ok fl \<Longrightarrow> treeGet fl k = Some r \<Longrightarrow> k \<in> freeBytes fl"
  using treeGet_in_block block_free liveI by blast

lemma treeGet_outside: "tree_ok fl \<Longrightarrow> k \<notin> freeBytes fl \<Longrightarrow> treeGet fl k = None"
  using treeGet_free by (cases "treeGet fl k") auto


section \<open>Buckets\<close>

lemma listPosFrom_found:
  "v \<in> set arr \<Longrightarrow> \<exists>i < length arr. arr ! i = v \<and> listPosFrom v arr x = int (x + i)"
proof (induction arr arbitrary: x)
  case (Cons y ys)
  show ?case
  proof (cases "v = y")
    case False
    with Cons.prems obtain i where "i < length ys" "ys ! i = v" "listPosFrom v ys (Suc x) = int (Suc x + i)"
      using Cons.IH [of "Suc x"] by auto
    with False show ?thesis by (intro exI [of _ "Suc i"]) simp
  qed auto
qed simp

lemma listPosFrom_missing: "v \<notin> set arr \<Longrightarrow> listPosFrom v arr x = -1"
  by (induction arr arbitrary: x) auto

lemma removeAt_distinct:
  assumes "distinct arr" and "i < length arr"
  shows "set (removeAt i arr) = set arr - {arr ! i}" and "distinct (removeAt i arr)"
proof -
  have arr: "arr = take i arr @ arr ! i # drop (Suc i) arr"
    using assms(2) by (rule id_take_nth_drop)
  from assms(1) have d: "distinct (take i arr @ arr ! i # drop (Suc i) arr)"
    by (subst (asm) arr) 
  show "distinct (removeAt i arr)" using d by (simp add: removeAt_def)
  have "set arr = set (take i arr @ arr ! i # drop (Suc i) arr)"
    using arr by simp
  with d show "set (removeAt i arr) = set arr - {arr ! i}" by (auto simp: removeAt_def)
qed

definition bucket_minus :: "nat \<Rightarrow> 't freeList \<Rightarrow> 't freeList \<Rightarrow> bool" where
  "bucket_minus r fl fl' \<longleftrightarrow> length (sizeList fl') = 8 \<and>
     (\<forall>b < 8. distinct (sizeList fl' ! b) \<and> set (sizeList fl' ! b) = set (sizeList fl ! b) - {r})"

lemma sizeClass_less: "sizeClass s = Some b \<Longrightarrow> b < 8"
  by (auto simp: sizeClass_def split: if_splits)

lemma buckets_okD:
  assumes "buckets_ok fl"
  shows "length (sizeList fl) = 8" and "b < 8 \<Longrightarrow> distinct (sizeList fl ! b)"
    and "b < 8 \<Longrightarrow> r \<in> set (sizeList fl ! b) \<longleftrightarrow>
           r \<in> live fl \<and> sizeClass (actualSize (item fl r)) = Some b"
  using assms by (auto simp: buckets_ok_def)

lemma bucket_minus_drop:
  assumes ok: "buckets_ok fl" and b: "b < 8" and x: "x < length (sizeList fl ! b)"
    and r: "sizeList fl ! b ! x = r"
  shows "bucket_minus r fl (dropFromBucket b x fl)"
proof -
  note bk = buckets_okD [OF ok]
  have "r \<in> set (sizeList fl ! b)" using x r by auto
  then have other: "c < 8 \<Longrightarrow> c \<noteq> b \<Longrightarrow> r \<notin> set (sizeList fl ! c)" for c
    using bk(3) b by auto
  show ?thesis
    using bk(1,2) b r removeAt_distinct [OF bk(2) [OF b] x] other
    by (auto simp: bucket_minus_def dropFromBucket_def nth_list_update)
qed

lemma bucket_minus_remove:
  assumes ok: "buckets_ok fl" and r: "r \<in> live fl"
  shows "bucket_minus r fl (removeFromSizeList r fl)"
proof (cases "sizeClass (actualSize (item fl r))")
  case None
  with buckets_okD [OF ok] show ?thesis
    by (auto simp: bucket_minus_def removeFromSizeList_def)
next
  case (Some b)
  then have b: "b < 8" by (rule sizeClass_less)
  with Some r buckets_okD(3) [OF ok] have "r \<in> set (sizeList fl ! b)" by simp
  then obtain x where x: "x < length (sizeList fl ! b)" "sizeList fl ! b ! x = r"
      "listPos r (sizeList fl ! b) = int x"
    using listPosFrom_found [of r _ 0] by (auto simp: listPos_def)
  then have "removeFromSizeList r fl = dropFromBucket b x fl"
    using Some by (simp add: removeFromSizeList_def dropFromBucket_def)
  with bucket_minus_drop [OF ok b x(1,2)] show ?thesis by simp
qed

section \<open>Taking a region out, putting a region in\<close>

definition unlinked :: "nat \<Rightarrow> 't freeList \<Rightarrow> 't freeList \<Rightarrow> bool" where
  "unlinked r fl fl' \<longleftrightarrow> treeOps fl' = treeOps fl \<and> store fl' = store fl \<and> bucket_minus r fl fl' \<and>
     (\<forall>k. treeGet fl' k = (if k = startOf fl r \<or> k = stopOf fl r then None else treeGet fl k))"

lemma unlinked_live:
  assumes "tree_ok fl" and "r \<in> live fl" and "unlinked r fl fl'"
  shows "live fl' = live fl - {r}"
proof -
  have g: "treeGet fl' k = (if k = startOf fl r \<or> k = stopOf fl r then None else treeGet fl k)" for k
    using assms(3) by (simp add: unlinked_def)
  have "s \<in> live fl'" if "s \<in> live fl" "s \<noteq> r" for s
  proof -
    have "treeGet fl (startOf fl s) = Some s" using tree_okD(4) [OF assms(1) that(1)] .
    moreover have "startOf fl s \<noteq> startOf fl r" "startOf fl s \<noteq> stopOf fl r"
      using tree_okD(4,5) [OF assms(1,2)] calculation that(2) by auto
    ultimately show ?thesis using g liveI [of fl' "startOf fl s" s] by auto
  qed
  moreover have "s \<in> live fl" "s \<noteq> r" if "s \<in> live fl'" for s
  proof -
    from that g obtain k where k: "treeGet fl k = Some s" "k \<noteq> startOf fl r" "k \<noteq> stopOf fl r"
      by (auto simp: live_def split: if_splits)
    then show "s \<in> live fl" by (auto intro: liveI)
    from k tree_okD(6) [OF assms(1) k(1)] show "s \<noteq> r" by auto
  qed
  ultimately show ?thesis by auto
qed

lemma unlink:
  assumes inv: "fl_inv fl" and r: "r \<in> live fl" and u: "unlinked r fl fl'"
  shows "fl_inv fl'" and "live fl' = live fl - {r}" and "freeBytes fl' = freeBytes fl - blockOf fl r"
proof -
  from inv have t: "tree_ok fl" and b: "buckets_ok fl" by (auto simp: fl_inv_def)
  show l: "live fl' = live fl - {r}" by (rule unlinked_live [OF t r u])
  have it: "item fl' = item fl" using u by (simp add: unlinked_def item_def fun_eq_iff)
  have g: "treeGet fl' k = (if k = startOf fl r \<or> k = stopOf fl r then None else treeGet fl k)" for k
    using u by (simp add: unlinked_def)
  have keep: "treeGet fl' k = Some s" if "treeGet fl k = Some s" "s \<noteq> r" for k s
    using g that tree_okD(4,5) [OF t r] by auto
  show "freeBytes fl' = freeBytes fl - blockOf fl r"
    using live_block_unique [OF t r] r unfolding freeBytes_def l it by blast
  have "tree_ok fl'"
  proof (rule tree_okI, unfold it l)
    show "avltree_laws (treeOps fl')" using u tree_okD(1) [OF t] by (simp add: unlinked_def)
  next
    fix s assume s: "s \<in> live fl - {r}"
    then show "s < length (store fl') \<and> 0 < actualSize (item fl s)"
      using tree_okD(2,3) [OF t] u by (simp add: unlinked_def)
    from s show "treeGet fl' (startOf fl s) = Some s" using keep tree_okD(4) [OF t] by blast
    from s show "treeGet fl' (stopOf fl s) = Some s" using keep tree_okD(5) [OF t] by blast
  next
    fix k s assume "treeGet fl' k = Some s"
    then show "k = startOf fl s \<or> k = stopOf fl s"
      using g tree_okD(6) [OF t] by (auto split: if_splits)
  next
    fix s s' x assume "s \<in> live fl - {r}" "s' \<in> live fl - {r}" "x \<in> blockOf fl s" "x \<in> blockOf fl s'"
    then show "s = s'" using live_block_unique [OF t] by blast
  qed
  moreover have "buckets_ok fl'"
    unfolding buckets_ok_def it l
    using buckets_okD [OF b] u by (auto simp: unlinked_def bucket_minus_def)
  ultimately show "fl_inv fl'" by (simp add: fl_inv_def)
qed


definition itemBlock :: "itemPos \<Rightarrow> int set" where
  "itemBlock it = span (parentIndex it) (actualSize it)"

lemma putIntoSizeList_nth:
  assumes "length (sizeList fl) = 8" and "b < 8"
  shows "sizeList (putIntoSizeList r fl) ! b =
    (if sizeClass (actualSize (item fl r)) = Some b then sizeList fl ! b @ [r] else sizeList fl ! b)"
    and "length (sizeList (putIntoSizeList r fl)) = 8"
  using assms by (auto simp: putIntoSizeList_def nth_list_update split: option.splits)

lemma attachItem_parts:
  fixes it :: itemPos and fl :: "'t freeList"
  defines "r \<equiv> length (store fl)" and "fl' \<equiv> attachItem (it, fl)"
  assumes laws: "avltree_laws (treeOps fl)"
  shows "treeOps fl' = treeOps fl" and "store fl' = store fl @ [it]"
    and "treeGet fl' k =
      (if k = parentIndex it \<or> k = parentIndex it + actualSize it - 1 then Some r else treeGet fl k)"
    and "length (sizeList fl) = 8 \<Longrightarrow> length (sizeList fl') = 8"
    and "length (sizeList fl) = 8 \<Longrightarrow> b < 8 \<Longrightarrow> sizeList fl' ! b =
      (if sizeClass (actualSize it) = Some b then sizeList fl ! b @ [r] else sizeList fl ! b)"
proof -
  let ?fl1 = "fl\<lparr>store := store fl @ [it]\<rparr>"
  let ?fl2 = "treePut (parentIndex it + actualSize it - 1) r (treePut (parentIndex it) r ?fl1)"
  have fl': "fl' = putIntoSizeList r ?fl2"
    by (simp add: fl'_def attachItem_def r_def Let_def)
  have g: "treeGet ?fl1 = treeGet fl" by (simp add: treeGet_def fun_eq_iff)
  have it: "item ?fl2 r = it" by (simp add: fl_fields) (simp add: item_def r_def)
  show "treeOps fl' = treeOps fl" "store fl' = store fl @ [it]"
    by (simp_all add: fl' fl_fields)
  show "treeGet fl' k =
      (if k = parentIndex it \<or> k = parentIndex it + actualSize it - 1 then Some r else treeGet fl k)"
    using laws by (simp add: fl' fl_fields g)
  have sl: "sizeList ?fl2 = sizeList fl" by (simp add: fl_fields)
  show "length (sizeList fl) = 8 \<Longrightarrow> length (sizeList fl') = 8"
    using putIntoSizeList_nth(2) [of ?fl2 0 r] by (simp add: fl' sl)
  show "length (sizeList fl) = 8 \<Longrightarrow> b < 8 \<Longrightarrow> sizeList fl' ! b =
      (if sizeClass (actualSize it) = Some b then sizeList fl ! b @ [r] else sizeList fl ! b)"
    using putIntoSizeList_nth(1) [of ?fl2 b r] by (simp add: fl' sl it)
qed

lemma attach_live:
  fixes it :: itemPos and fl :: "'t freeList"
  defines "r \<equiv> length (store fl)" and "fl' \<equiv> attachItem (it, fl)"
  assumes t: "tree_ok fl" and pos: "0 < actualSize it" and new: "itemBlock it \<inter> freeBytes fl = {}"
  shows "r \<notin> live fl" and "item fl' r = it" and "s \<in> live fl \<Longrightarrow> item fl' s = item fl s"
    and "treeGet fl k = Some s \<Longrightarrow> treeGet fl' k = Some s" and "live fl' = insert r (live fl)"
proof -
  note at = attachItem_parts [where it = it, OF tree_okD(1) [OF t], folded r_def fl'_def]
  show "r \<notin> live fl" using tree_okD(2) [OF t, of r] by (auto simp: r_def)
  show "item fl' r = it" by (simp add: item_def at(2) r_def)
  show "s \<in> live fl \<Longrightarrow> item fl' s = item fl s"
    using tree_okD(2) [OF t] by (simp add: item_def at(2) nth_append)
  have ends: "parentIndex it \<in> itemBlock it" "parentIndex it + actualSize it - 1 \<in> itemBlock it"
    using pos by (auto simp: itemBlock_def)
  have keep: "treeGet fl' k = Some s" if "treeGet fl k = Some s" for k s
    using treeGet_free [OF t that] new ends that by (auto simp: at(3))
  then show "treeGet fl k = Some s \<Longrightarrow> treeGet fl' k = Some s" .
  show "live fl' = insert r (live fl)"
  proof
    show "live fl' \<subseteq> insert r (live fl)" by (auto simp: live_def at(3) split: if_splits)
    have "r \<in> live fl'" using at(3) [of "parentIndex it"] liveI [of fl' "parentIndex it" r] by simp
    moreover have "live fl \<subseteq> live fl'" using keep unfolding live_def by blast
    ultimately show "insert r (live fl) \<subseteq> live fl'" by simp
  qed
qed

lemma attach_tree:
  assumes t: "tree_ok fl" and pos: "0 < actualSize it" and new: "itemBlock it \<inter> freeBytes fl = {}"
  shows "tree_ok (attachItem (it, fl))"
proof -
  define r fl' where "r = length (store fl)" and "fl' = attachItem (it, fl)"
  note at = attachItem_parts [where it = it, OF tree_okD(1) [OF t], folded r_def fl'_def]
  note al = attach_live [OF t pos new, folded r_def fl'_def]
  have r_ends: "treeGet fl' (startOf fl' r) = Some r" "treeGet fl' (stopOf fl' r) = Some r"
    by (simp_all add: al(2) at(3))
  have "tree_ok fl'"
  proof (rule tree_okI, unfold al(5))
    show "avltree_laws (treeOps fl')" using tree_okD(1) [OF t] by (simp add: at)
  next
    fix s assume s: "s \<in> insert r (live fl)"
    then show "s < length (store fl') \<and> 0 < actualSize (item fl' s)"
      using tree_okD(2,3) [OF t, of s] pos al(2) by (auto simp: at(2) r_def al(3))
    show "treeGet fl' (startOf fl' s) = Some s"
      using s r_ends(1) al(4) [OF tree_okD(4) [OF t], of s] al(3) [of s] by fastforce
    show "treeGet fl' (stopOf fl' s) = Some s"
      using s r_ends(2) al(4) [OF tree_okD(5) [OF t], of s] al(3) [of s] by fastforce
  next
    fix k s assume "treeGet fl' k = Some s"
    then show "k = startOf fl' s \<or> k = stopOf fl' s"
      using tree_okD(6) [OF t] al(2,3) liveI [of fl k s] by (auto simp: at(3) split: if_splits)
  next
    fix s s' x
    assume s: "s \<in> insert r (live fl)" "s' \<in> insert r (live fl)" "x \<in> blockOf fl' s" "x \<in> blockOf fl' s'"
    have "x \<in> itemBlock it" if "blockOf fl' r = blockOf fl' q" "x \<in> blockOf fl' q" for q
      using that by (simp add: al(2) itemBlock_def)
    moreover have "x \<notin> itemBlock it" if "q \<in> live fl" "x \<in> blockOf fl' q" for q
      using that block_free [of q fl] new by (auto simp: al(3))
    ultimately show "s = s'"
      using s live_block_unique [OF t, of s s' x] al(3) [of s] al(3) [of s'] by (metis insertE)
  qed
  then show ?thesis by (simp add: fl'_def)
qed

lemma attach:
  fixes it :: itemPos and fl :: "'t freeList"
  defines "r \<equiv> length (store fl)" and "fl' \<equiv> attachItem (it, fl)"
  assumes inv: "fl_inv fl" and pos: "0 < actualSize it" and new: "itemBlock it \<inter> freeBytes fl = {}"
  shows "fl_inv fl'" and "freeBytes fl' = freeBytes fl \<union> itemBlock it" and "live fl' = insert r (live fl)"
proof -
  from inv have t: "tree_ok fl" and b: "buckets_ok fl" by (auto simp: fl_inv_def)
  note at = attachItem_parts [where it = it, OF tree_okD(1) [OF t], folded r_def fl'_def]
  note al = attach_live [OF t pos new, folded r_def fl'_def]
  show l: "live fl' = insert r (live fl)" by (rule al(5))
  show "freeBytes fl' = freeBytes fl \<union> itemBlock it" by (auto simp: freeBytes_def l al(2,3) itemBlock_def)
  have "set (sizeList fl' ! c) = {s \<in> insert r (live fl). sizeClass (actualSize (item fl' s)) = Some c}"
    if "c < 8" for c
    using buckets_okD(1,3) [OF b] that by (auto simp: at(5) al(2,3))
  then have "buckets_ok fl'"
    unfolding buckets_ok_def l using buckets_okD [OF b] al(1) by (auto simp: at(4,5))
  then show "fl_inv fl'" using attach_tree [OF t pos new] by (simp add: fl_inv_def fl'_def)
qed

section \<open>Adding a region\<close>

lemma removeFromSizeList_treeRemove:
  "removeFromSizeList r (treeRemove k fl) = treeRemove k (removeFromSizeList r fl)"
  by (simp add: removeFromSizeList_def item_fields fl_prim_fields Let_def split: option.splits)
     (simp add: treeRemove_def)

lemma dropFromBucket_treeRemove:
  "dropFromBucket b x (treeRemove k fl) = treeRemove k (dropFromBucket b x fl)"
  by (simp add: dropFromBucket_def treeRemove_def)

lemma unlinkedI:
  assumes t: "tree_ok fl" and r: "r \<in> live fl" and b: "bucket_minus r fl fl'"
    and f: "treeOps fl' = treeOps fl" "store fl' = store fl" "treeGet fl' = treeGet fl"
    and k: "{k1, k2} = {startOf fl r, stopOf fl r}"
  shows "unlinked r fl (treeRemove k2 (treeRemove k1 fl'))"
proof -
  have "avltree_laws (treeOps fl')" using tree_okD(1) [OF t] f by simp
  moreover have "k = startOf fl r \<or> k = stopOf fl r \<longleftrightarrow> k = k1 \<or> k = k2" for k using k by blast
  ultimately show ?thesis
    using b f by (auto simp: unlinked_def bucket_minus_def fl_fields)
qed

lemma neighbour_left:
  assumes t: "tree_ok fl" and n: "0 < n" and new: "span i n \<inter> freeBytes fl = {}"
    and g: "treeGet fl (i - 1) = Some r"
  shows "stopOf fl r = i - 1"
proof (rule ccontr)
  assume "stopOf fl r \<noteq> i - 1"
  with tree_okD(6) [OF t g] tree_okD(3) [OF t liveI [OF g]] have "i \<in> blockOf fl r" by auto
  moreover have "i \<in> span i n" using n by simp
  ultimately show False using block_free [OF liveI [OF g]] new by blast
qed

lemma neighbour_right:
  assumes t: "tree_ok fl" and n: "0 < n" and new: "span i n \<inter> freeBytes fl = {}"
    and g: "treeGet fl (i + n) = Some r"
  shows "startOf fl r = i + n"
proof (rule ccontr)
  assume "startOf fl r \<noteq> i + n"
  with tree_okD(6) [OF t g] tree_okD(3) [OF t liveI [OF g]] have "i + n - 1 \<in> blockOf fl r" by auto
  moreover have "i + n - 1 \<in> span i n" using n by simp
  ultimately show False using block_free [OF liveI [OF g]] new by blast
qed

lemma mergeLeft_cases [consumes 3, case_names none merged]:
  assumes inv: "fl_inv fl" and n: "0 < n" and new: "span i n \<inter> freeBytes fl = {}"
  obtains (none) "treeGet fl (i - 1) = None"
      "mergeLeft i n fl = (\<lparr>actualSize = n, parentIndex = i\<rparr>, fl)"
  | (merged) r fl' where "treeGet fl (i - 1) = Some r" "r \<in> live fl" "unlinked r fl fl'"
      "startOf fl r + actualSize (item fl r) = i"
      "mergeLeft i n fl =
        (\<lparr>actualSize = actualSize (item fl r) + n, parentIndex = startOf fl r\<rparr>, fl')"
proof (cases "treeGet fl (i - 1)")
  case None
  with none show thesis by (simp add: mergeLeft_def)
next
  case (Some r)
  from inv have t: "tree_ok fl" and b: "buckets_ok fl" by (auto simp: fl_inv_def)
  have r: "r \<in> live fl" by (rule liveI [OF Some])
  have stop: "stopOf fl r = i - 1" by (rule neighbour_left [OF t n new Some])
  let ?fl' = "treeRemove (startOf fl r) (treeRemove (i - 1) (removeFromSizeList r fl))"
  have "unlinked r fl ?fl'"
    using unlinkedI [OF t r bucket_minus_remove [OF b r]] stop by (simp add: fl_fields insert_commute)
  with merged [OF Some r this] stop Some show thesis
    by (simp add: mergeLeft_def Let_def removeFromSizeList_treeRemove)
qed

lemma mergeRight_cases [consumes 3, case_names none merged]:
  assumes inv: "fl_inv fl" and n: "0 < n" and new: "span i n \<inter> freeBytes fl = {}"
  obtains (none) "treeGet fl (i + n) = None" "mergeRight i n (it, fl) = (it, fl)"
  | (merged) r fl' where "treeGet fl (i + n) = Some r" "r \<in> live fl" "unlinked r fl fl'"
      "startOf fl r = i + n"
      "mergeRight i n (it, fl) =
        (\<lparr>actualSize = n + actualSize (item fl r), parentIndex = i\<rparr>, fl')"
proof (cases "treeGet fl (i + n)")
  case None
  with none show thesis by (simp add: mergeRight_def)
next
  case (Some r)
  from inv have t: "tree_ok fl" and b: "buckets_ok fl" by (auto simp: fl_inv_def)
  have r: "r \<in> live fl" by (rule liveI [OF Some])
  have start: "startOf fl r = i + n" by (rule neighbour_right [OF t n new Some])
  let ?fl' = "treeRemove (stopOf fl r) (treeRemove (i + n) (removeFromSizeList r fl))"
  have "unlinked r fl ?fl'"
    using unlinkedI [OF t r bucket_minus_remove [OF b r]] start by (simp add: fl_fields)
  with merged [OF Some r this] start Some show thesis
    by (cases it) (simp add: mergeRight_def Let_def removeFromSizeList_treeRemove)
qed

definition lostBytes :: "int \<Rightarrow> int \<Rightarrow> 't freeList \<Rightarrow> int set" where
  "lostBytes i n fl =
     (case (treeGet fl (i - 1), treeGet fl (i + n)) of
        (Some v, Some w) \<Rightarrow> blockOf fl v
      | _ \<Rightarrow> {})"

lemma mergeLeft_right_neighbour:
  assumes "tree_ok fl" and "0 < n" and "unlinked r fl fl'" and "r \<in> live fl"
    and "startOf fl r + actualSize (item fl r) = i"
  shows "treeGet fl' (i + n) = treeGet fl (i + n)"
  using assms tree_okD(3) [OF assms(1,4)] by (simp add: unlinked_def)

lemma add_after_left:
  assumes inv: "fl_inv fl" and n: "0 < n" and new: "span i n \<inter> freeBytes fl = {}"
    and it: "0 < actualSize it" "itemBlock it \<inter> freeBytes fl = {}"
  defines "fl' \<equiv> attachItem (mergeRight i n (it, fl))"
  shows "fl_inv fl'"
    and "freeBytes fl' = freeBytes fl \<union> (if treeGet fl (i + n) = None then itemBlock it else span i n)"
proof -
  let ?free = "freeBytes fl \<union> (if treeGet fl (i + n) = None then itemBlock it else span i n)"
  from inv n new have "fl_inv fl' \<and> freeBytes fl' = ?free"
  proof (cases rule: mergeRight_cases [where it = it])
    case none
    with attach(1,2) [OF inv it] show ?thesis by (simp add: fl'_def)
  next
    case (merged r fl1)
    note un = unlink [OF inv merged(2,3)]
    have size: "0 < actualSize (item fl r)"
      using inv merged(2) by (auto simp: fl_inv_def dest: tree_okD(3))
    let ?it = "\<lparr>actualSize = n + actualSize (item fl r), parentIndex = i\<rparr>"
    have blk: "itemBlock ?it = span i n \<union> blockOf fl r"
      using n size merged(4) by (auto simp: itemBlock_def)
    have "itemBlock ?it \<inter> freeBytes fl1 = {}"
      using blk un(3) new by auto
    from attach(1,2) [OF un(1) _ this] size n show ?thesis
      using block_free [OF merged(2)] merged(1) by (auto simp: fl'_def merged(5) blk un(3))
  qed
  then show "fl_inv fl'" and "freeBytes fl' = ?free" by auto
qed

lemma freeList_add:
  assumes inv: "fl_inv fl" and n: "0 < n" and new: "span i n \<inter> freeBytes fl = {}"
  shows "fl_inv (freeList_add i n fl)"
    and "freeBytes (freeList_add i n fl) = (freeBytes fl \<union> span i n) - lostBytes i n fl"
proof -
  from inv n new have "fl_inv (freeList_add i n fl) \<and>
    freeBytes (freeList_add i n fl) = (freeBytes fl \<union> span i n) - lostBytes i n fl"
  proof (cases rule: mergeLeft_cases)
    case none
    have "itemBlock \<lparr>actualSize = n, parentIndex = i\<rparr> = span i n" by (simp add: itemBlock_def)
    with add_after_left [OF inv n new, of "\<lparr>actualSize = n, parentIndex = i\<rparr>"] n new none
    show ?thesis by (simp add: freeList_add_def lostBytes_def split: if_splits)
  next
    case (merged r fl1)
    note un = unlink [OF inv merged(2,3)]
    from inv have t: "tree_ok fl" by (simp add: fl_inv_def)
    have size: "0 < actualSize (item fl r)" by (rule tree_okD(3) [OF t merged(2)])
    let ?it = "\<lparr>actualSize = actualSize (item fl r) + n, parentIndex = startOf fl r\<rparr>"
    have blk: "itemBlock ?it = blockOf fl r \<union> span i n"
      using n size merged(4) by (auto simp: itemBlock_def)
    have new1: "span i n \<inter> freeBytes fl1 = {}" "itemBlock ?it \<inter> freeBytes fl1 = {}"
      using blk un(3) new by auto
    have right: "treeGet fl1 (i + n) = treeGet fl (i + n)"
      by (rule mergeLeft_right_neighbour [OF t n merged(3,2,4)])
    have "span i n \<inter> blockOf fl r = {}" using new block_free [OF merged(2)] by blast
    then show ?thesis
      using add_after_left [OF un(1) n new1(1) _ new1(2)] size n right un(3) blk merged(1,5)
        block_free [OF merged(2)]
      by (auto simp: freeList_add_def lostBytes_def split: option.splits)
  qed
  then show "fl_inv (freeList_add i n fl)"
    and "freeBytes (freeList_add i n fl) = (freeBytes fl \<union> span i n) - lostBytes i n fl" by auto
qed

section \<open>Finding a region\<close>

lemma firstFit_Some:
  "firstFit fl sz rs x = Some y \<Longrightarrow>
   \<exists>i < length rs. y = x + i \<and> sz \<le> actualSize (item fl (rs ! i))"
proof (induction rs arbitrary: x)
  case (Cons r rs)
  show ?case
  proof (cases "sz \<le> actualSize (item fl r)")
    case False
    with Cons.prems Cons.IH [of "Suc x"] obtain i
      where "i < length rs" "y = Suc x + i" "sz \<le> actualSize (item fl (rs ! i))" by auto
    then show ?thesis by (intro exI [of _ "Suc i"]) simp
  qed (use Cons.prems in auto)
qed simp

lemma firstFit_None:
  "firstFit fl sz rs x = None \<longleftrightarrow> (\<forall>r \<in> set rs. actualSize (item fl r) < sz)"
  by (induction rs arbitrary: x) auto

definition shrink :: "nat \<Rightarrow> int \<Rightarrow> 't freeList \<Rightarrow> 't freeList" where
  "shrink r sz fl =
     (let tmp = item fl r;
          tmp' = tmp\<lparr> parentIndex := parentIndex tmp + sz, actualSize := actualSize tmp - sz \<rparr>;
          fl1 = treeRemove (parentIndex tmp) fl
      in treePut (parentIndex tmp') r (fl1\<lparr> store := (store fl1)[r := tmp'] \<rparr>))"

lemma shrink_parts:
  assumes t: "tree_ok fl" and r: "r \<in> live fl"
  shows "treeOps (shrink r sz fl) = treeOps fl" and "sizeList (shrink r sz fl) = sizeList fl"
    and "length (store (shrink r sz fl)) = length (store fl)"
    and "item (shrink r sz fl) s =
      (if s = r then \<lparr>actualSize = actualSize (item fl r) - sz, parentIndex = startOf fl r + sz\<rparr>
       else item fl s)"
    and "treeGet (shrink r sz fl) k =
      (if k = startOf fl r + sz then Some r else if k = startOf fl r then None else treeGet fl k)"
proof -
  have st: "treeGet (fl\<lparr>store := xs\<rparr>) = treeGet fl" for fl :: "'a freeList" and xs
    by (simp add: treeGet_def fun_eq_iff)
  show "treeOps (shrink r sz fl) = treeOps fl" "sizeList (shrink r sz fl) = sizeList fl"
    "length (store (shrink r sz fl)) = length (store fl)"
    by (simp_all add: shrink_def Let_def fl_prim_fields)
  have "store (shrink r sz fl) =
      (store fl)[r := \<lparr>actualSize = actualSize (item fl r) - sz, parentIndex = startOf fl r + sz\<rparr>]"
    by (cases "item fl r") (simp add: shrink_def Let_def fl_prim_fields)
  then show "item (shrink r sz fl) s =
      (if s = r then \<lparr>actualSize = actualSize (item fl r) - sz, parentIndex = startOf fl r + sz\<rparr>
       else item fl s)"
    using tree_okD(2) [OF t r] by (simp add: item_def)
  show "treeGet (shrink r sz fl) k =
      (if k = startOf fl r + sz then Some r else if k = startOf fl r then None else treeGet fl k)"
    using tree_okD(1) [OF t] by (simp add: shrink_def Let_def treeGet_prims fl_prim_fields st)
qed

lemma shrink_live:
  assumes t: "tree_ok fl" and r: "r \<in> live fl" and sz: "0 < sz" "sz < actualSize (item fl r)"
  shows "s \<in> live fl \<Longrightarrow> blockOf (shrink r sz fl) s = blockOf fl s - span (startOf fl r) sz"
    and "treeGet fl k = Some s \<Longrightarrow> s \<noteq> r \<Longrightarrow> treeGet (shrink r sz fl) k = Some s"
    and "treeGet (shrink r sz fl) (startOf (shrink r sz fl) r) = Some r"
    and "treeGet (shrink r sz fl) (stopOf (shrink r sz fl) r) = Some r"
    and "live (shrink r sz fl) = live fl"
proof -
  let ?fl' = "shrink r sz fl"
  note sp = shrink_parts [OF t r, of sz]
  show "blockOf ?fl' s = blockOf fl s - span (startOf fl r) sz" if "s \<in> live fl"
  proof (cases "s = r")
    case False
    then have "blockOf fl s \<inter> blockOf fl r = {}" using tree_okD(7) [OF t that r] by simp
    moreover have "span (startOf fl r) sz \<subseteq> blockOf fl r" using sz by auto
    ultimately show ?thesis using False by (auto simp: sp(4))
  qed (use sz in \<open>auto simp: sp(4)\<close>)
  have keep: "treeGet ?fl' k = Some s" if "treeGet fl k = Some s" "s \<noteq> r" for k s
  proof -
    from treeGet_in_block [OF t that(1)] have "k \<notin> blockOf fl r"
      using live_block_unique [OF t r liveI [OF that(1)]] that(2) by blast
    then show ?thesis using sz that(1) by (auto simp: sp(5))
  qed
  then show "treeGet fl k = Some s \<Longrightarrow> s \<noteq> r \<Longrightarrow> treeGet ?fl' k = Some s" .
  show e: "treeGet ?fl' (startOf ?fl' r) = Some r" and "treeGet ?fl' (stopOf ?fl' r) = Some r"
    using tree_okD(5) [OF t r] sz by (simp_all add: sp(4,5))
  show "live ?fl' = live fl"
  proof
    show "live ?fl' \<subseteq> live fl" using r by (auto simp: live_def sp(5) split: if_splits)
    show "live fl \<subseteq> live ?fl'" using keep e unfolding live_def by blast
  qed
qed

lemma shrink_block:
  assumes inv: "fl_inv fl" and r: "r \<in> live fl" and sz: "0 < sz" "sz < actualSize (item fl r)"
    and cls: "sizeClass (actualSize (item fl r) - sz) = sizeClass (actualSize (item fl r))"
  shows "fl_inv (shrink r sz fl)" and "freeBytes (shrink r sz fl) = freeBytes fl - span (startOf fl r) sz"
proof -
  let ?fl' = "shrink r sz fl"
  from inv have t: "tree_ok fl" and b: "buckets_ok fl" by (auto simp: fl_inv_def)
  note sp = shrink_parts [OF t r, of sz]
  note sl = shrink_live [OF t r sz]
  show "freeBytes ?fl' = freeBytes fl - span (startOf fl r) sz"
    unfolding freeBytes_def sl(5) using sl(1) by blast
  have "tree_ok ?fl'"
  proof (rule tree_okI, unfold sl(5))
    show "avltree_laws (treeOps ?fl')" using tree_okD(1) [OF t] by (simp add: sp)
  next
    fix s assume s: "s \<in> live fl"
    then show "s < length (store ?fl') \<and> 0 < actualSize (item ?fl' s)"
      using tree_okD(2,3) [OF t s] sz by (simp add: sp)
    show "treeGet ?fl' (startOf ?fl' s) = Some s"
      using sl(3) sl(2) [OF tree_okD(4) [OF t s]] sp(4) [of s] by fastforce
    show "treeGet ?fl' (stopOf ?fl' s) = Some s"
      using sl(4) sl(2) [OF tree_okD(5) [OF t s]] sp(4) [of s] by fastforce
  next
    fix k s assume "treeGet ?fl' k = Some s"
    then show "k = startOf ?fl' s \<or> k = stopOf ?fl' s"
      using tree_okD(6) [OF t, of k s] by (auto simp: sp(4,5) split: if_splits)
  next
    fix s s' x assume "s \<in> live fl" "s' \<in> live fl" "x \<in> blockOf ?fl' s" "x \<in> blockOf ?fl' s'"
    then show "s = s'" using sl(1) live_block_unique [OF t] by blast
  qed
  moreover have "buckets_ok ?fl'"
    unfolding buckets_ok_def sl(5) using buckets_okD [OF b] cls by (auto simp: sp)
  ultimately show "fl_inv ?fl'" by (simp add: fl_inv_def)
qed

lemma findInSizeList_None:
  "findInSizeList idx sz bk fl = (None, fl') \<longleftrightarrow>
   fl' = fl \<and> (\<forall>r \<in> set (sizeList fl ! idx). actualSize (item fl r) < sz)"
proof (cases "firstFit fl sz (sizeList fl ! idx) 0")
  case None
  then show ?thesis using firstFit_None [of fl sz "sizeList fl ! idx" 0]
    by (auto simp: findInSizeList_def)
next
  case (Some x)
  then show ?thesis using firstFit_None [of fl sz "sizeList fl ! idx" 0]
    by (auto simp: findInSizeList_def Let_def)
qed

lemma take_rest:
  assumes inv: "fl_inv fl" and r: "r \<in> live fl" and sz: "0 < sz" "sz < actualSize (item fl r)"
    and u: "unlinked r fl fl1"
  defines "fl' \<equiv> freeList_add (startOf fl r + sz) (actualSize (item fl r) - sz) fl1"
  shows "fl_inv fl'" and "freeBytes fl' = freeBytes fl - span (startOf fl r) sz"
proof -
  let ?i = "startOf fl r + sz" and ?n = "actualSize (item fl r) - sz"
  note un = unlink [OF inv r u]
  have blk: "blockOf fl r = span (startOf fl r) sz \<union> span ?i ?n"
    using sz by (subst span_split [of sz]) auto
  have new: "span ?i ?n \<inter> freeBytes fl1 = {}" using un(3) blk by blast
  have "?i - 1 \<notin> freeBytes fl1" using un(3) sz by simp
  then have "treeGet fl1 (?i - 1) = None"
    using un(1) treeGet_outside unfolding fl_inv_def by blast
  then have lost: "lostBytes ?i ?n fl1 = {}" by (simp add: lostBytes_def)
  note ad = freeList_add [OF un(1) _ new, folded fl'_def]
  show "fl_inv fl'" using ad(1) sz by simp
  have "span (startOf fl r) sz \<inter> span ?i ?n = {}" by auto
  then show "freeBytes fl' = freeBytes fl - span (startOf fl r) sz"
    using ad(2) sz lost un(3) blk block_free [OF r] by auto
qed

lemma findInSizeList_hit:
  assumes inv: "fl_inv fl" and idx: "idx < 8" and sz: "0 < sz"
    and split: "\<And>s. sizeClass s = Some idx \<Longrightarrow> sz < s \<Longrightarrow> bk \<le> s - sz \<Longrightarrow> sizeClass (s - sz) = Some idx"
    and hit: "findInSizeList idx sz bk fl = (Some i, fl')"
  shows "span i sz \<subseteq> freeBytes fl" and "fl_inv fl'" and "freeBytes fl' = freeBytes fl - span i sz"
proof -
  from inv have t: "tree_ok fl" and b: "buckets_ok fl" by (auto simp: fl_inv_def)
  from hit obtain x where "firstFit fl sz (sizeList fl ! idx) 0 = Some x"
    by (auto simp: findInSizeList_def split: option.splits)
  note ff = this firstFit_Some [OF this]
  define r where "r = sizeList fl ! idx ! x"
  let ?s = "actualSize (item fl r)" and ?p = "startOf fl r"
  from ff(2) have x: "x < length (sizeList fl ! idx)" and fit: "sz \<le> ?s" by (auto simp: r_def)
  then have "r \<in> set (sizeList fl ! idx)" by (simp add: r_def)
  then have r: "r \<in> live fl" and cls: "sizeClass ?s = Some idx"
    using buckets_okD(3) [OF b idx] by auto
  have bm: "bucket_minus r fl (dropFromBucket idx x fl)"
    by (rule bucket_minus_drop [OF b idx x r_def [symmetric]])
  have u: "unlinked r fl (treeRemove (stopOf fl r) (treeRemove ?p (dropFromBucket idx x fl)))"
    by (rule unlinkedI [OF t r bm]) (simp_all add: fl_fields)
  consider (exact) "sz = ?s" | (inplace) "sz < ?s" "bk \<le> ?s - sz" | (rest) "sz < ?s" "\<not> bk \<le> ?s - sz"
    using fit by linarith
  then have "i = ?p \<and> fl_inv fl' \<and> freeBytes fl' = freeBytes fl - span i sz"
  proof cases
    case exact
    with hit ff(1) have "i = ?p" "fl' = treeRemove (stopOf fl r) (treeRemove ?p (dropFromBucket idx x fl))"
      by (auto simp: findInSizeList_def Let_def dropFromBucket_treeRemove add.commute simp flip: r_def)
    with unlink [OF inv r u] exact show ?thesis by simp
  next
    case inplace
    with hit ff(1) have "i = ?p" "fl' = shrink r sz fl"
      by (auto simp: findInSizeList_def Let_def shrink_def simp flip: r_def)
    with shrink_block [OF inv r sz inplace(1)] split [OF cls inplace] cls show ?thesis by simp
  next
    case rest
    with hit ff(1) have "i = ?p" "fl' = freeList_add (?p + sz) (?s - sz)
        (treeRemove (stopOf fl r) (treeRemove ?p (dropFromBucket idx x fl)))"
      by (auto simp: findInSizeList_def Let_def dropFromBucket_treeRemove simp flip: r_def)
    with take_rest [OF inv r sz rest(1) u] show ?thesis by simp
  qed
  then show "span i sz \<subseteq> freeBytes fl" "fl_inv fl'" "freeBytes fl' = freeBytes fl - span i sz"
    using block_free [OF r] fit by auto
qed

text \<open>
  How the bucket size that \<^verbatim>\<open>find\<close> carries along relates to the bucket: for the first
  seven buckets no remainder ever reaches it, so only the last bucket is split in place.
\<close>

definition buckSize_ok :: "nat \<Rightarrow> int \<Rightarrow> int \<Rightarrow> bool" where
  "buckSize_ok idx sz bk \<longleftrightarrow>
     (if idx = 7 then bk = 4097 else bk = 64 * 2 ^ idx \<or> bk = 0 \<and> sz = 4096)"

lemma sizeClass_bound: "sizeClass s = Some b \<Longrightarrow> b < 7 \<Longrightarrow> s < 64 * 2 ^ b"
  by (auto simp: sizeClass_def split: if_splits)

lemma sizeClass_bound_4096: "sizeClass s = Some b \<Longrightarrow> b < 7 \<Longrightarrow> s < 4096"
  by (auto simp: sizeClass_def split: if_splits)

lemma buckSize_split:
  assumes "buckSize_ok idx sz bk" and "idx < 8" and "0 < sz"
    and s: "sizeClass s = Some idx" "sz < s" "bk \<le> s - sz"
  shows "sizeClass (s - sz) = Some idx"
proof (cases "idx = 7")
  case True
  with assms show ?thesis by (simp add: buckSize_ok_def sizeClass_def)
next
  case False
  with assms sizeClass_bound [OF s(1)] sizeClass_bound_4096 [OF s(1)] show ?thesis
    by (auto simp: buckSize_ok_def)
qed

lemma buckSize_next:
  "buckSize_ok idx sz bk \<Longrightarrow> idx < 7 \<Longrightarrow>
   buckSize_ok (Suc idx) sz (if idx < 6 then bk * 2 else 4097)"
  by (auto simp: buckSize_ok_def)

lemma findStart_ok:
  assumes "findStart sz = (idx, bk)"
  shows "idx < 8" and "buckSize_ok idx sz bk"
    and "sizeClass s = Some b \<Longrightarrow> sz \<le> s \<Longrightarrow> idx \<le> b"
  using assms by (auto simp: findStart_def buckSize_ok_def sizeClass_def split: if_splits)

lemma findLoop_cases:
  assumes "fl_inv fl" and "0 < sz" and "idx < 8 \<longrightarrow> buckSize_ok idx sz bk"
    and "findLoop idx sz bk fl = (i, fl')"
  shows "i = -1 \<and> fl' = fl \<and>
      (\<forall>b < 8. idx \<le> b \<longrightarrow> (\<forall>r \<in> set (sizeList fl ! b). actualSize (item fl r) < sz)) \<or>
    span i sz \<subseteq> freeBytes fl \<and> fl_inv fl' \<and> freeBytes fl' = freeBytes fl - span i sz"
  using assms
proof (induction idx sz bk fl rule: findLoop.induct)
  case (1 idx sz bk fl)
  show ?case
  proof (cases "idx < 8")
    case True
    obtain res fl1 where f: "findInSizeList idx sz bk fl = (res, fl1)" by fastforce
    show ?thesis
    proof (cases res)
      case None
      with f have n: "fl1 = fl" "\<forall>r \<in> set (sizeList fl ! idx). actualSize (item fl r) < sz"
        by (simp_all add: findInSizeList_None)
      let ?bk = "if idx < 6 then bk * 2 else 4097"
      have loop: "findLoop (Suc idx) sz ?bk fl1 = (i, fl')"
        using "1.prems"(4) True f None by (simp add: findLoop.simps [of idx])
      have "Suc idx < 8 \<longrightarrow> buckSize_ok (Suc idx) sz ?bk"
        using buckSize_next "1.prems"(3) True by simp
      note ih = "1.IH" [OF True f [symmetric] None _ "1.prems"(2) this loop, unfolded n(1), OF "1.prems"(1)]
      have all: "\<forall>b < 8. idx \<le> b \<longrightarrow> Q b" if "\<forall>b < 8. Suc idx \<le> b \<longrightarrow> Q b" "Q idx" for Q
        using that by (auto simp: le_less Suc_le_eq)
      from ih show ?thesis
      proof (elim disjE conjE)
        assume "i = -1" "fl' = fl"
          "\<forall>b < 8. Suc idx \<le> b \<longrightarrow> (\<forall>r \<in> set (sizeList fl ! b). actualSize (item fl r) < sz)"
        with all [of "\<lambda>b. \<forall>r \<in> set (sizeList fl ! b). actualSize (item fl r) < sz"] n(2)
        show ?thesis by (intro disjI1) simp
      qed simp
    next
      case (Some v)
      with "1.prems"(4) True f have v: "v = i" "fl1 = fl'" by (simp_all add: findLoop.simps [of idx])
      from findInSizeList_hit [OF "1.prems"(1) True "1.prems"(2)
          buckSize_split [OF "1.prems"(3) [rule_format, OF True] True "1.prems"(2)] f [unfolded Some v]]
      show ?thesis by simp
    qed
  qed (use "1.prems" in \<open>simp add: findLoop.simps [of idx]\<close>)
qed

lemma freeList_find_cases:
  assumes "fl_inv fl" and "0 < sz" and "freeList_find sz fl = (i, fl')"
  shows "i = -1 \<and> fl' = fl \<and> (\<forall>r \<in> live fl. sz \<le> actualSize (item fl r) \<longrightarrow> actualSize (item fl r) = 4096) \<or>
    span i sz \<subseteq> freeBytes fl \<and> fl_inv fl' \<and> freeBytes fl' = freeBytes fl - span i sz"
proof -
  obtain idx bk where s: "findStart sz = (idx, bk)" by fastforce
  with assms(3) have l: "findLoop idx sz bk fl = (i, fl')" by (simp add: freeList_find_def)
  from assms(1) have b: "buckets_ok fl" by (simp add: fl_inv_def)
  have "actualSize (item fl r) = 4096"
    if "\<forall>b < 8. idx \<le> b \<longrightarrow> (\<forall>r \<in> set (sizeList fl ! b). actualSize (item fl r) < sz)"
      "r \<in> live fl" "sz \<le> actualSize (item fl r)" for r
  proof (cases "sizeClass (actualSize (item fl r))")
    case None
    then show ?thesis by (simp add: sizeClass_def split: if_splits)
  next
    case (Some c)
    then have "c < 8" "idx \<le> c" using sizeClass_less findStart_ok(3) [OF s] that(3) by auto
    moreover have "r \<in> set (sizeList fl ! c)" using buckets_okD(3) [OF b] Some that(2) \<open>c < 8\<close> by simp
    ultimately show ?thesis using that by fastforce
  qed
  then show ?thesis
    using findLoop_cases [OF assms(1,2) _ l] findStart_ok(2) [OF s] by blast
qed

section \<open>The free list is an allocator\<close>

interpretation fl: region_allocator fl_inv freeBytes freeList_find freeList_add
proof
  fix f f' :: "'a freeList" and n i :: int
  assume "fl_inv f" "0 < n" "freeList_find n f = (i, f')"
  then show "i = -1 \<and> f' = f \<or> span i n \<subseteq> freeBytes f \<and> fl_inv f' \<and> freeBytes f' = freeBytes f - span i n"
    using freeList_find_cases by blast
next
  fix f :: "'a freeList" and n i :: int
  assume "fl_inv f" "0 < n" "span i n \<inter> freeBytes f = {}"
  then show "fl_inv (freeList_add i n f)" "freeBytes (freeList_add i n f) \<subseteq> freeBytes f \<union> span i n"
    using freeList_add by blast+
qed

section \<open>Properties\<close>

lemma add_new_4096:
  assumes "avltree_laws T"
  shows "b < 8 \<Longrightarrow> sizeList (freeList_add i 4096 (newFreeList T)) ! b = []"
  using assms
  by (simp add: freeList_add_def mergeLeft_def mergeRight_def attachItem_def newFreeList_def treeGet_def
      tree_simps putIntoSizeList_def item_def Let_def treePut_def sizeClass_def)

lemma findLoop_empty:
  "(\<And>b. b < 8 \<Longrightarrow> sizeList fl ! b = []) \<Longrightarrow> findLoop idx sz bk fl = (-1, fl)"
proof (induction idx sz bk fl rule: findLoop.induct)
  case (1 idx sz bk fl)
  then show ?case
    by (subst findLoop.simps) (simp add: findInSizeList_def)
qed

text \<open>
  C15.  Giving a region back keeps the free list consistent (tree, buckets and items describe
  the same disjoint regions), and what is free afterwards is exactly what was free before
  plus the region, less \<open>lostBytes\<close>: the region on the left, when both neighbours are free.
\<close>

theorem add_accounts_for_every_byte:
  assumes "fl_inv fl" and "0 < n" and "span i n \<inter> freeBytes fl = {}"
  shows "fl_inv (freeList_add i n fl) \<and>
    freeBytes (freeList_add i n fl) = (freeBytes fl \<union> span i n) - lostBytes i n fl"
  using freeList_add [OF assms] by blast

theorem add_accounts_for_every_byte_witness:
  "fl_inv (freeList_add 1 10 (newFreeList rbt_tree)) \<and>
   freeBytes (freeList_add 1 10 (newFreeList rbt_tree)) = {1..<11}"
  using add_accounts_for_every_byte [of "newFreeList rbt_tree" 10 1] fl_inv_newFreeList [OF rbt_tree_laws]
  by (simp add: lostBytes_def treeGet_def newFreeList_def tGet_updates [OF rbt_tree_laws])

text \<open>
  C4.  \<^verbatim>\<open>find\<close> is sound and complete: either it returns the first position of a free region of
  the size asked for, which is then no longer free while every other free position stays
  free; or it returns -1, changes nothing, and no free region is large enough, regions of
  exactly 4096 bytes apart.
\<close>

theorem find_sound_complete:
  assumes "fl_inv fl" and "0 < sz" and "freeList_find sz fl = (i, fl')"
  shows "i = -1 \<and> fl' = fl \<and>
      (\<forall>r \<in> live fl. sz \<le> actualSize (item fl r) \<longrightarrow> actualSize (item fl r) = 4096) \<or>
    span i sz \<subseteq> freeBytes fl \<and> fl_inv fl' \<and> freeBytes fl' = freeBytes fl - span i sz"
  by (rule freeList_find_cases [OF assms])

theorem find_sound_complete_witness:
  "\<exists>fl'. freeList_find 6 (freeList_add 1 10 (newFreeList rbt_tree)) = (1, fl') \<and>
     fl_inv fl' \<and> freeBytes fl' = freeBytes (freeList_add 1 10 (newFreeList rbt_tree)) - {1..<7}"
proof -
  let ?fl = "freeList_add 1 10 (newFreeList (rbt_tree :: (int, nat, _) avltree))"
  have inv: "fl_inv ?fl"
    using freeList_add(1) [of "newFreeList rbt_tree" 10 1] fl_inv_newFreeList [OF rbt_tree_laws] by simp
  have "fst (freeList_find 6 ?fl) = 1" by code_simp
  then obtain fl' where f: "freeList_find 6 ?fl = (1, fl')" by (metis prod.collapse)
  moreover have "span 1 6 = {1..<7 :: int}" by simp
  ultimately show ?thesis using find_sound_complete [OF inv _ f] by simp
qed

text \<open>
  Giving back the region between two free regions forgets the one on the left: none of
  its positions is free afterwards, so the list can never hand them out again.
\<close>

lemma add_between_forgets_left:
  assumes "fl_inv fl" and "0 < n" and "span i n \<inter> freeBytes fl = {}"
    and "treeGet fl (i - 1) = Some v" and "treeGet fl (i + n) = Some w"
  shows "i - 1 \<in> freeBytes fl \<and> i - 1 \<in> blockOf fl v \<and> freeBytes (freeList_add i n fl) \<inter> blockOf fl v = {}"
proof -
  have ok: "tree_ok fl" using assms(1) by (simp add: fl_inv_def)
  have "freeBytes (freeList_add i n fl) = (freeBytes fl \<union> span i n) - blockOf fl v"
    using freeList_add(2) [OF assms(1-3)] assms(4,5) by (simp add: lostBytes_def)
  then have "freeBytes (freeList_add i n fl) \<inter> blockOf fl v = {}" by blast
  then show ?thesis
    using treeGet_in_block [OF ok assms(4)] treeGet_free [OF ok assms(4)] by blast
qed



end
