(* ===== verification/LittleEndian.thy ===== *)
theory LittleEndian
  imports Prelude
begin

text \<open>
  The part of Go's \<^verbatim>\<open>encoding/binary\<close> the sources use: \<^verbatim>\<open>LittleEndian.PutUint16/32/64\<close>
  and \<^verbatim>\<open>LittleEndian.Uint16/32/64\<close>.  Writing or reading past the end of the slice panics,
  which is \<open>None\<close> here.  The locale \<open>fixed_width_codec\<close> is the contract the entry
  format, the queue header and the wire messages rely on; it is interpreted for the three
  widths.
\<close>

section \<open>Bytes of a word, least significant first\<close>

primrec le_put :: "nat \<Rightarrow> 'a::len word \<Rightarrow> byte list" where
  "le_put 0 w = []"
| "le_put (Suc n) w = ucast w # le_put n (drop_bit 8 w)"

primrec le_get :: "byte list \<Rightarrow> 'a::len word" where
  "le_get [] = 0"
| "le_get (b # bs) = ucast b OR push_bit 8 (le_get bs)"

definition PutUint16 :: "byte list \<Rightarrow> nat \<Rightarrow> u16 \<Rightarrow> byte list option" where
  "PutUint16 b off v = (if off + 2 \<le> length b then Some (overwrite off (le_put 2 v) b) else None)"

definition PutUint32 :: "byte list \<Rightarrow> nat \<Rightarrow> u32 \<Rightarrow> byte list option" where
  "PutUint32 b off v = (if off + 4 \<le> length b then Some (overwrite off (le_put 4 v) b) else None)"

definition PutUint64 :: "byte list \<Rightarrow> nat \<Rightarrow> u64 \<Rightarrow> byte list option" where
  "PutUint64 b off v = (if off + 8 \<le> length b then Some (overwrite off (le_put 8 v) b) else None)"

definition Uint16 :: "byte list \<Rightarrow> u16 option" where
  "Uint16 b = (if 2 \<le> length b then Some (le_get (take 2 b)) else None)"

definition Uint32 :: "byte list \<Rightarrow> u32 option" where
  "Uint32 b = (if 4 \<le> length b then Some (le_get (take 4 b)) else None)"

definition Uint64 :: "byte list \<Rightarrow> u64 option" where
  "Uint64 b = (if 8 \<le> length b then Some (le_get (take 8 b)) else None)"

lemma length_le_put [simp]: "length (le_put n w) = n"
  by (induction n arbitrary: w) auto

lemma le_get_le_put_take: "le_get (le_put n w) = take_bit (8 * n) (w :: 'a::len word)"
proof (induction n arbitrary: w)
  case (Suc n)
  show ?case
    by (rule bit_eqI) (auto simp: Suc bit_simps)
qed simp

lemma le_get_le_put: "LENGTH('a) \<le> 8 * n \<Longrightarrow> le_get (le_put n w) = (w :: 'a::len word)"
  by (simp add: le_get_le_put_take take_bit_word_eq_self)

lemma bit_le_get_length: "bit (le_get bs :: 'a::len word) k \<Longrightarrow> k < 8 * length bs"
proof (induction bs arbitrary: k)
  case (Cons b bs)
  from Cons.prems have "k < 8 \<or> 8 \<le> k \<and> bit (le_get bs :: 'a word) (k - 8)"
    by (auto simp: bit_simps dest: bit_imp_le_length)
  then show ?case using Cons.IH [of "k - 8"] by auto
qed simp

lemma le_put_le_get:
  "8 * length bs \<le> LENGTH('a) \<Longrightarrow> le_put (length bs) (le_get bs :: 'a::len word) = bs"
proof (induction bs)
  case (Cons b bs)
  let ?w = "le_get bs :: 'a word"
  have "ucast (ucast b OR push_bit 8 ?w) = b"
    by (rule bit_eqI) (use Cons.prems in \<open>auto simp: bit_simps\<close>)
  moreover have "drop_bit 8 (ucast b OR push_bit 8 ?w) = ?w"
    by (rule bit_eqI)
       (use Cons.prems bit_le_get_length [of bs] in \<open>fastforce simp: bit_simps dest: bit_imp_le_length\<close>)
  ultimately show ?case using Cons by (simp del: drop_bit_or)
qed simp

lemma le_put_le_get_width:
  "length bs = n \<Longrightarrow> 8 * n \<le> LENGTH('a) \<Longrightarrow> le_put n (le_get bs :: 'a::len word) = bs"
  using le_put_le_get [of bs, where 'a = 'a] by simp

section \<open>The contract of a fixed-width field\<close>

text \<open>
  What a client needs of a field of \<open>n\<close> bytes: it has that width, decoding inverts
  encoding, and every \<open>n\<close> bytes are the encoding of some value.
\<close>

locale fixed_width_codec =
  fixes enc :: "'w \<Rightarrow> byte list" and dec :: "byte list \<Rightarrow> 'w" and n :: nat
  assumes enc_length: "length (enc w) = n"
    and dec_enc: "dec (enc w) = w"
    and enc_dec: "length bs = n \<Longrightarrow> enc (dec bs) = bs"
begin

lemma dec_take_append: "dec (take n (enc w @ rest)) = w"
  by (simp add: enc_length dec_enc)

lemma dec_field: "length pre = k \<Longrightarrow> dec (take n (drop k (pre @ enc w @ rest))) = w"
  by (simp add: enc_length dec_enc)

lemma dec_overwrite:
  "off \<le> length b \<Longrightarrow> dec (segment off n (overwrite off (enc w) b)) = w"
  using segment_overwrite_same [of off b "enc w"] by (simp add: enc_length dec_enc)

lemma enc_inject: "enc v = enc w \<longleftrightarrow> v = w"
  by (metis dec_enc)

lemma field_unique: "dec (take n bs) = w \<Longrightarrow> n \<le> length bs \<Longrightarrow> bs = enc w @ drop n bs"
  by (metis append_take_drop_id enc_dec length_take min.absorb2)

end

interpretation u16: fixed_width_codec "le_put 2 :: u16 \<Rightarrow> byte list" le_get 2
  by unfold_locales (simp_all add: le_get_le_put le_put_le_get_width)

interpretation u32: fixed_width_codec "le_put 4 :: u32 \<Rightarrow> byte list" le_get 4
  by unfold_locales (simp_all add: le_get_le_put le_put_le_get_width)

interpretation u64: fixed_width_codec "le_put 8 :: u64 \<Rightarrow> byte list" le_get 8
  by unfold_locales (simp_all add: le_get_le_put le_put_le_get_width)

lemma Uint16_put [le_simps]: "Uint16 (le_put 2 v @ rest) = Some v"
  by (simp add: Uint16_def u16.dec_enc)

lemma Uint32_put [le_simps]: "Uint32 (le_put 4 v @ rest) = Some v"
  by (simp add: Uint32_def u32.dec_enc)

lemma Uint64_put [le_simps]: "Uint64 (le_put 8 v @ rest) = Some v"
  by (simp add: Uint64_def u64.dec_enc)

end
