(* ===== verification/BytesQueue.thy ===== *)
theory BytesQueue
  imports FreeList LittleEndian
begin

text \<open>
  The byte queue (\<^verbatim>\<open>bigcache/queue/bytes_queue.go\<close>): one array of bytes in which an entry is
  a four-byte little-endian length followed by the data, identified by the index of its
  header.  Entries are appended at \<open>tail\<close>, or placed in a region the free list hands out;
  the array is reallocated when neither has room.

  A slice of the array that Go returns by reference is the pair of its offset and its
  length; the bytes are read from the array by \<open>sliceBytes\<close>, so a later write is visible
  through it.  Writing to the log in verbose mode is not modelled.
\<close>

section \<open>The data\<close>

definition headerEntrySize :: int where [simp]: "headerEntrySize = 4"
definition leftMarginIndex :: int where [simp]: "leftMarginIndex = 1"
definition minimumEmptyBlobSize :: int where [simp]: "minimumEmptyBlobSize = 32 + headerEntrySize"

record 't BytesQueue =
  array :: "byte list"
  capacity :: int
  maxCapacity :: int
  head :: int
  tail :: int
  count :: int
  rightMargin :: int
  headerBuffer :: "byte list"
  initialCapacity :: int
  freelist :: "'t freeList"

datatype queueError = EmptyQueue | InvalidIndex | IndexOutOfRange | FullQueue

fun queue_Error :: "queueError \<Rightarrow> gostring" where
  "queue_Error EmptyQueue = lit ''Empty queue''"
| "queue_Error InvalidIndex = lit ''Index must be grater than zero. Invalid index.''"
| "queue_Error IndexOutOfRange = lit ''Index out of range''"
| "queue_Error FullQueue = lit ''Full queue. Maximum size limit reached.''"

type_synonym byteSlice = "nat \<times> nat"

definition sliceBytes :: "'t BytesQueue \<Rightarrow> byteSlice \<Rightarrow> byte list" where
  "sliceBytes q s = segment (fst s) (snd s) (array q)"

definition makeBytes :: "int \<Rightarrow> byte list outcome" where
  "makeBytes n = (if n < 0 then Panic else Ret (replicate (nat n) 0))"

section \<open>The operations\<close>

definition NewBytesQueue :: "(int, nat, 't) avltree \<Rightarrow> int \<Rightarrow> int \<Rightarrow> 't BytesQueue outcome" where
  "NewBytesQueue T initCap maxCap =
     obind (makeBytes initCap) (\<lambda>arr. Ret
       \<lparr> array = arr, capacity = initCap, maxCapacity = maxCap, head = leftMarginIndex,
         tail = leftMarginIndex, count = 0, rightMargin = leftMarginIndex,
         headerBuffer = replicate (nat headerEntrySize) 0, initialCapacity = initCap,
         freelist = newFreeList T \<rparr>)"

definition Reset :: "'t BytesQueue \<Rightarrow> 't BytesQueue" where
  "Reset q = q\<lparr> tail := leftMarginIndex, head := leftMarginIndex, rightMargin := leftMarginIndex, count := 0 \<rparr>"

text \<open>\<^verbatim>\<open>q.tail += copy(q.array[q.tail:], data[:len])\<close>\<close>

definition queue_copy :: "byte list \<Rightarrow> int \<Rightarrow> 't BytesQueue \<Rightarrow> 't BytesQueue outcome" where
  "queue_copy data len q =
     (if tail q < 0 \<or> int (length (array q)) < tail q \<or> len < 0 \<or> int (length data) < len then Panic
      else let (arr, n) = goCopy (array q) (nat (tail q)) (take (nat len) data)
           in Ret (q\<lparr> array := arr, tail := tail q + int n \<rparr>))"

text \<open>\<^verbatim>\<open>binary.LittleEndian.PutUint32(q.headerBuffer, uint32(len))\<close>\<close>

definition writeHeader :: "int \<Rightarrow> 't BytesQueue \<Rightarrow> 't BytesQueue outcome" where
  "writeHeader len q =
     obind (of_opt (PutUint32 (headerBuffer q) 0 (word_of_int len)))
       (\<lambda>hb. Ret (q\<lparr> headerBuffer := hb \<rparr>))"

definition queue_push :: "byte list \<Rightarrow> int \<Rightarrow> 't BytesQueue \<Rightarrow> 't BytesQueue outcome" where
  "queue_push data len q =
     obind (writeHeader len q) (\<lambda>q.
     obind (queue_copy (headerBuffer q) headerEntrySize q) (\<lambda>q.
     obind (queue_copy data len q) (\<lambda>q.
       let q = (if tail q > head q then q\<lparr> rightMargin := tail q \<rparr> else q)
       in Ret (q\<lparr> count := count q + 1 \<rparr>))))"

definition availableSpaceAfterTail :: "'t BytesQueue \<Rightarrow> int" where
  "availableSpaceAfterTail q =
     (if tail q \<ge> head q then capacity q - tail q
      else head q - tail q - minimumEmptyBlobSize)"

definition availableSpaceBeforeHead :: "'t BytesQueue \<Rightarrow> int" where
  "availableSpaceBeforeHead q =
     (if tail q \<ge> head q then head q - leftMarginIndex - minimumEmptyBlobSize
      else head q - tail q - minimumEmptyBlobSize)"

definition grownCapacity :: "int \<Rightarrow> 't BytesQueue \<Rightarrow> int" where
  "grownCapacity minimum q =
     (let cap = (if capacity q < minimum then capacity q + minimum else capacity q);
          cap = cap * 2
      in if cap > maxCapacity q \<and> maxCapacity q > 0 then maxCapacity q else cap)"

definition allocateAdditionalMemory :: "int \<Rightarrow> 't BytesQueue \<Rightarrow> 't BytesQueue outcome" where
  "allocateAdditionalMemory minimum q =
     (let oldArray = array q; q = q\<lparr> capacity := grownCapacity minimum q \<rparr> in
      obind (makeBytes (capacity q)) (\<lambda>arr.
        let q = q\<lparr> array := arr \<rparr> in
        if leftMarginIndex \<noteq> rightMargin q then
          if rightMargin q < 0 \<or> int (length oldArray) < rightMargin q then Panic
          else
            let q = q\<lparr> array := fst (goCopy (array q) 0 (take (nat (rightMargin q)) oldArray)) \<rparr> in
            if tail q < head q then
              let emptyBlobLen = head q - tail q - headerEntrySize in
              obind (makeBytes emptyBlobLen) (\<lambda>blob.
              obind (queue_push blob emptyBlobLen q) (\<lambda>q.
                Ret (q\<lparr> head := leftMarginIndex, tail := rightMargin q \<rparr>)))
            else Ret q
        else Ret q))"

text \<open>The entry written into a region of the free list; \<open>tail\<close> is borrowed and restored.\<close>

definition pushAt :: "int \<Rightarrow> byte list \<Rightarrow> 't BytesQueue \<Rightarrow> 't BytesQueue outcome" where
  "pushAt idx data q =
     (let tmpTail = tail q; q = q\<lparr> tail := idx \<rparr> in
      obind (writeHeader (int (length data)) q) (\<lambda>q.
      obind (queue_copy (headerBuffer q) headerEntrySize q) (\<lambda>q.
      obind (queue_copy data (int (length data)) q) (\<lambda>q.
        Ret (q\<lparr> count := count q + 1, tail := tmpTail \<rparr>)))))"

text \<open>Where the next entry goes when the free list has no region for it.\<close>

definition makeRoom :: "int \<Rightarrow> 't BytesQueue \<Rightarrow> (queueError + 't BytesQueue) outcome" where
  "makeRoom dataLen q =
     (if availableSpaceAfterTail q < dataLen + headerEntrySize then
        if availableSpaceBeforeHead q \<ge> dataLen + headerEntrySize
          then Ret (Inr (q\<lparr> tail := leftMarginIndex \<rparr>))
        else if capacity q + headerEntrySize + dataLen \<ge> maxCapacity q \<and> maxCapacity q > 0
          then Ret (Inl FullQueue)
        else obind (allocateAdditionalMemory (dataLen + headerEntrySize) q) (\<lambda>q. Ret (Inr q))
      else Ret (Inr q))"

definition Push :: "byte list \<Rightarrow> 't BytesQueue \<Rightarrow> ((queueError + int) \<times> 't BytesQueue) outcome" where
  "Push data q =
     (let dataLen = int (length data);
          (idx, fl) = freeList_find (dataLen + headerEntrySize) (freelist q);
          q = q\<lparr> freelist := fl \<rparr>
      in if idx \<noteq> -1 then obind (pushAt idx data q) (\<lambda>q. Ret (Inr idx, q))
         else obind (makeRoom dataLen q) (\<lambda>r.
           case r of
             Inl e \<Rightarrow> Ret (Inl e, q)
           | Inr q \<Rightarrow> obind (queue_push data dataLen q) (\<lambda>q'. Ret (Inr (tail q), q'))))"

definition peek :: "int \<Rightarrow> 't BytesQueue \<Rightarrow> (queueError + byteSlice) outcome" where
  "peek index q =
     (if count q = 0 then Ret (Inl EmptyQueue)
      else if index \<le> 0 then Ret (Inl InvalidIndex)
      else if index + headerEntrySize \<ge> int (length (array q)) then Ret (Inl IndexOutOfRange)
      else obind (of_opt (Uint32 (segment (nat index) (nat headerEntrySize) (array q)))) (\<lambda>w.
        let blockSize = unat w; from = nat (index + headerEntrySize) in
        if from + blockSize \<le> length (array q) then Ret (Inr (from, blockSize)) else Panic))"

definition Get :: "int \<Rightarrow> 't BytesQueue \<Rightarrow> (queueError + byteSlice) outcome" where
  "Get index q = peek index q"

definition Peek :: "'t BytesQueue \<Rightarrow> (queueError + byteSlice) outcome" where
  "Peek q = peek (head q) q"

definition Pop :: "'t BytesQueue \<Rightarrow> ((queueError + byteSlice) \<times> 't BytesQueue) outcome" where
  "Pop q =
     obind (peek (head q) q) (\<lambda>r.
       case r of
         Inl e \<Rightarrow> Ret (Inl e, q)
       | Inr (off, n) \<Rightarrow>
           let q = q\<lparr> head := head q + headerEntrySize + int n, count := count q - 1 \<rparr>;
               q = (if head q = rightMargin q then
                      let q = q\<lparr> head := leftMarginIndex \<rparr>;
                          q = (if tail q = rightMargin q then q\<lparr> tail := leftMarginIndex \<rparr> else q)
                      in q\<lparr> rightMargin := tail q \<rparr>
                    else q)
           in Ret (Inr (off, n), q))"

definition Delete :: "int \<Rightarrow> 't BytesQueue \<Rightarrow> (queueError option \<times> 't BytesQueue) outcome" where
  "Delete index q =
     obind (peek index q) (\<lambda>r.
       case r of
         Inl e \<Rightarrow> Ret (Some e, q)
       | Inr (off, n) \<Rightarrow>
           Ret (None, q\<lparr> freelist := freeList_add index (int n + headerEntrySize) (freelist q),
                         count := count q - 1 \<rparr>))"

definition Capacity :: "'t BytesQueue \<Rightarrow> int" where
  "Capacity q = capacity q"

definition Len :: "'t BytesQueue \<Rightarrow> int" where
  "Len q = count q"

section \<open>Writing an entry\<close>

definition frame :: "byte list \<Rightarrow> byte list" where
  "frame d = le_put 4 (of_nat (length d) :: u32) @ d"

lemma length_frame [simp]: "length (frame d) = 4 + length d"
  by (simp add: frame_def)

definition written :: "byte list \<Rightarrow> 't BytesQueue \<Rightarrow> 't BytesQueue" where
  "written d q = q\<lparr> array := overwrite (nat (tail q)) (frame d) (array q), tail := tail q + 4 + int (length d),
     headerBuffer := le_put 4 (of_nat (length d) :: u32) \<rparr>"

lemma write_entry:
  assumes hb: "length (headerBuffer q) = 4" and "0 \<le> tail q"
    and room: "tail q + 4 + int (length d) \<le> int (length (array q))"
  shows "obind (writeHeader (int (length d)) q) (\<lambda>q.
     obind (queue_copy (headerBuffer q) headerEntrySize q) (\<lambda>q.
     obind (queue_copy d (int (length d)) q) k)) = k (written d q)"
proof -
  let ?h = "le_put 4 (of_nat (length d) :: u32)"
  let ?q1 = "q\<lparr> headerBuffer := ?h \<rparr>"
  let ?q2 = "?q1\<lparr> array := overwrite (nat (tail q)) ?h (array q), tail := tail q + 4 \<rparr>"
  have 1: "writeHeader (int (length d)) q = Ret ?q1"
    using hb by (simp add: writeHeader_def PutUint32_def overwrite_def)
  have 2: "queue_copy (headerBuffer ?q1) headerEntrySize ?q1 = Ret ?q2"
    using assms by (simp add: queue_copy_def goCopy_fits)
  have len: "length (overwrite (nat (tail q)) ?h (array q)) = length (array q)"
    using assms by (simp add: length_overwrite)
  have "overwrite (nat (tail q + 4)) d (overwrite (nat (tail q)) ?h (array q)) =
      overwrite (nat (tail q)) (frame d) (array q)"
    using assms overwrite_overwrite_adjacent [of "nat (tail q)" ?h d "array q"]
    by (simp add: frame_def nat_add_distrib)
  then have 3: "queue_copy d (int (length d)) ?q2 = Ret (written d q)"
    using assms len by (simp add: queue_copy_def goCopy_fits written_def)
  show ?thesis unfolding 1 obind.simps 2 3 ..
qed

lemma queue_push_fits:
  assumes "length (headerBuffer q) = 4" and "0 \<le> tail q"
    and "tail q + 4 + int (length d) \<le> int (length (array q))" and "head q \<le> tail q"
  shows "queue_push d (int (length d)) q =
    Ret ((written d q)\<lparr> rightMargin := tail q + 4 + int (length d), count := count q + 1 \<rparr>)"
  using assms(4) unfolding queue_push_def write_entry [OF assms(1-3)]
  by (simp add: written_def)

lemma pushAt_fits:
  assumes "length (headerBuffer q) = 4" and "0 \<le> idx"
    and "idx + 4 + int (length d) \<le> int (length (array q))"
  shows "pushAt idx d q =
    Ret ((written d (q\<lparr> tail := idx \<rparr>))\<lparr> tail := tail q, count := count q + 1 \<rparr>)"
proof -
  have "length (headerBuffer (q\<lparr> tail := idx \<rparr>)) = 4" "0 \<le> tail (q\<lparr> tail := idx \<rparr>)"
    "tail (q\<lparr> tail := idx \<rparr>) + 4 + int (length d) \<le> int (length (array (q\<lparr> tail := idx \<rparr>)))"
    using assms by simp_all
  then show ?thesis
    unfolding pushAt_def Let_def by (subst write_entry) (simp_all add: written_def)
qed


section \<open>The queue as a store of entries\<close>

text \<open>
  \<open>L\<close> maps the index of every live entry to its data.  In the way the cache uses the
  queue (push, get, delete) the head stays at the left margin.
\<close>

definition blocks :: "(int \<rightharpoonup> byte list) \<Rightarrow> (int \<times> int) set" where
  "blocks L = {(i, 4 + int (length d)) | i d. L i = Some d}"

definition entry_at :: "byte list \<Rightarrow> int \<Rightarrow> byte list \<Rightarrow> bool" where
  "entry_at arr i d \<longleftrightarrow> d \<noteq> [] \<and> length d < 2 ^ 32 \<and> segment (nat i) (4 + length d) arr = frame d"

definition q_rep :: "'t BytesQueue \<Rightarrow> (int \<rightharpoonup> byte list) \<Rightarrow> bool" where
  "q_rep q L \<longleftrightarrow>
     finite (dom L) \<and> count q = int (card (dom L)) \<and>
     head q = 1 \<and> rightMargin q = tail q \<and> 1 \<le> tail q \<and> tail q \<le> capacity q \<and>
     capacity q = int (length (array q)) \<and> length (headerBuffer q) = 4 \<and>
     fl.owns (freelist q) (blocks L) \<and>
     freeBytes (freelist q) \<subseteq> {1..<tail q} \<and> covered (blocks L) \<subseteq> {1..<tail q} \<and>
     (\<forall>i d. L i = Some d \<longrightarrow> entry_at (array q) i d)"

lemma blocks_upd: "L i = None \<Longrightarrow> blocks (L(i \<mapsto> d)) = insert (i, 4 + int (length d)) (blocks L)"
  by (auto simp: blocks_def split: if_splits)

lemma blocks_del: "L i = Some d \<Longrightarrow> blocks (L(i := None)) = blocks L - {(i, 4 + int (length d))}"
  by (auto simp: blocks_def split: if_splits) (metis option.inject)

lemma blocks_patch: "L i = Some d \<Longrightarrow> length d' = length d \<Longrightarrow> blocks (L(i \<mapsto> d')) = blocks L"
  by (auto simp: blocks_def split: if_splits)

lemma blocks_empty [simp]: "blocks Map.empty = {}"
  by (simp add: blocks_def)

lemma blocksI: "L i = Some d \<Longrightarrow> (i, 4 + int (length d)) \<in> blocks L"
  by (auto simp: blocks_def)

lemma q_repD:
  assumes "q_rep q L"
  shows "finite (dom L)" "count q = int (card (dom L))" "head q = 1" "rightMargin q = tail q"
    "1 \<le> tail q" "tail q \<le> capacity q" "capacity q = int (length (array q))"
    "length (headerBuffer q) = 4" "fl.owns (freelist q) (blocks L)"
    "freeBytes (freelist q) \<subseteq> {1..<tail q}" "covered (blocks L) \<subseteq> {1..<tail q}"
    "L i = Some d \<Longrightarrow> entry_at (array q) i d"
  using assms unfolding q_rep_def by blast+

lemma q_rep_bounds:
  assumes "q_rep q L" and "L i = Some d"
  shows "1 \<le> i" and "i + 4 + int (length d) \<le> tail q"
proof -
  have "span i (4 + int (length d)) \<subseteq> {1..<tail q}"
    using covered_member [OF blocksI [of L, OF assms(2)]] q_repD(11) [OF assms(1)] by blast
  then show "1 \<le> i" and "i + 4 + int (length d) \<le> tail q" by auto
qed

lemma entry_at_overwrite:
  assumes "entry_at arr i d" and "0 \<le> i" and "0 \<le> j"
    and "span i (4 + int (length d)) \<inter> span j (int (length bs)) = {}" and "bs \<noteq> []"
    and "j + int (length bs) \<le> int (length arr)"
  shows "entry_at (overwrite (nat j) bs arr) i d"
proof -
  have "0 < 4 + int (length d)" "0 < int (length bs)" using assms(5) by auto
  from span_disjoint_iff [OF this] assms(4)
  have "i + (4 + int (length d)) \<le> j \<or> j + int (length bs) \<le> i" by blast
  then have "segment (nat i) (4 + length d) (overwrite (nat j) bs arr) = segment (nat i) (4 + length d) arr"
    using assms(2,3,6) by (intro segment_overwrite_disjoint) auto
  with assms(1) show ?thesis by (simp add: entry_at_def)
qed

lemma entry_at_new:
  assumes "d \<noteq> []" and "length d < 2 ^ 32" and "0 \<le> i" and "i + 4 + int (length d) \<le> int (length arr)"
  shows "entry_at (overwrite (nat i) (frame d) arr) i d"
  using assms segment_overwrite_same [of "nat i" arr "frame d"] by (simp add: entry_at_def)

lemma frame_not_Nil [simp]: "frame d \<noteq> []"
  by (metis add_is_0 length_0_conv length_frame zero_neq_numeral)

lemma q_rep_new:
  assumes "avltree_laws T" and "1 \<le> initCap"
  shows "\<exists>q. NewBytesQueue T initCap maxCap = Ret q \<and> q_rep q Map.empty"
  using assms fl_inv_newFreeList [OF assms(1)]
  by (auto simp: NewBytesQueue_def makeBytes_def q_rep_def fl.owns_def)

lemma peek_entry:
  assumes "q_rep q L" and "L i = Some d"
  shows "peek i q = Ret (Inr (nat (i + 4), length d))" and "segment (nat (i + 4)) (length d) (array q) = d"
proof -
  note bd = q_rep_bounds [OF assms]
  have e: "d \<noteq> []" "length d < 2 ^ 32" "segment (nat i) (4 + length d) (array q) = frame d"
    using q_repD(12) [OF assms] by (auto simp: entry_at_def)
  have at4: "nat (i + 4) = nat i + 4" using bd(1) by simp
  from e(3) have parts: "segment (nat i) 4 (array q) @ segment (nat i + 4) (length d) (array q) = frame d"
    by (simp add: segment_split)
  moreover have "length (segment (nat i) 4 (array q)) = 4"
    using bd q_repD(6,7) [OF assms(1)] by (simp add: length_segment)
  ultimately have seg: "segment (nat i) 4 (array q) = le_put 4 (of_nat (length d) :: u32)"
    "segment (nat i + 4) (length d) (array q) = d"
    unfolding frame_def by (simp_all add: append_eq_append_conv)
  then show "segment (nat (i + 4)) (length d) (array q) = d" by (simp add: at4)
  have "count q \<noteq> 0"
    using q_repD(1,2) [OF assms(1)] assms(2) by (auto simp: card_eq_0_iff)
  moreover have "Uint32 (segment (nat i) 4 (array q)) = Some (of_nat (length d))"
    using seg(1) Uint32_put [of "of_nat (length d)" "[]"] by simp
  moreover have "unat (of_nat (length d) :: u32) = length d"
    using e(2) by (simp add: unat_of_nat_small)
  moreover have "0 < length d" using e(1) by simp
  then have "i + 4 < int (length (array q))"
    using bd q_repD(6,7) [OF assms(1)] by linarith
  moreover have "nat i + 4 + length d \<le> length (array q)"
    using bd q_repD(6,7) [OF assms(1)] by linarith
  ultimately show "peek i q = Ret (Inr (nat (i + 4), length d))"
    using bd(1) at4 by (simp add: peek_def Let_def)
qed

lemma Get_entry:
  assumes "q_rep q L" and "L i = Some d"
  shows "\<exists>s. Get i q = Ret (Inr s) \<and> sliceBytes q s = d \<and> s = (nat (i + 4), length d)"
  using peek_entry [OF assms] by (simp add: Get_def sliceBytes_def)

lemma card_dom_del: "finite (dom L) \<Longrightarrow> L i = Some d \<Longrightarrow> int (card (dom (L(i := None)))) = int (card (dom L)) - 1"
  by (subst dom_fun_upd) (simp, metis card_Suc_Diff1 domI add_diff_cancel_left' of_nat_Suc plus_1_eq_Suc)

lemma Delete_entry:
  assumes "q_rep q L" and "L i = Some d"
  shows "\<exists>q'. Delete i q = Ret (None, q') \<and> q_rep q' (L(i := None)) \<and>
    q' = q\<lparr> freelist := freelist q', count := count q' \<rparr>"
proof -
  let ?n = "4 + int (length d)"
  let ?q' = "q\<lparr> freelist := freeList_add i ?n (freelist q), count := count q - 1 \<rparr>"
  have del: "Delete i q = Ret (None, ?q')"
    using peek_entry(1) [OF assms] by (simp add: Delete_def add.commute)
  note r = q_repD [OF assms(1)] and b = q_rep_bounds [OF assms]
  note rel = fl.owns_release [OF r(9) blocksI [of L, OF assms(2)]]
  have "span i ?n \<subseteq> {1..<tail q}" using b by auto
  then have "q_rep ?q' (L(i := None))"
    unfolding q_rep_def blocks_del [of L, OF assms(2)]
    using r rel card_dom_del [OF r(1) assms(2)] covered_member [OF blocksI [of L, OF assms(2)]]
    by (auto simp: covered_def split: if_splits)
  with del show ?thesis by auto
qed

definition patch :: "nat \<Rightarrow> byte list \<Rightarrow> 't BytesQueue \<Rightarrow> 't BytesQueue" where
  "patch off bs q = q\<lparr> array := overwrite off bs (array q) \<rparr>"

lemma patch_entry:
  assumes rep: "q_rep q L" and Li: "L i = Some d" and fits: "k + length bs \<le> length d"
  shows "q_rep (patch (nat (i + 4) + k) bs q) (L(i \<mapsto> overwrite k bs d))"
proof (cases "bs = []")
  case True
  with rep Li show ?thesis by (simp add: patch_def fun_upd_idem)
next
  case False
  note r = q_repD [OF rep] and b = q_rep_bounds [OF rep Li]
  let ?d' = "overwrite k bs d" and ?j = "i + 4 + int k"
  have j: "nat (i + 4) + k = nat ?j" using b by simp
  have len: "length ?d' = length d" using fits by (simp add: length_overwrite)
  have alen: "length (overwrite (nat ?j) bs (array q)) = length (array q)"
    using fits b r(6,7) by (intro length_overwrite) linarith
  have other: "entry_at (overwrite (nat ?j) bs (array q)) i' e" if L: "L i' = Some e" "i' \<noteq> i" for i' e
  proof (rule entry_at_overwrite [OF r(12) [OF L(1)]])
    have "span i' (4 + int (length e)) \<inter> span i (4 + int (length d)) = {}"
      using separateD(2) [of "blocks L", OF _ blocksI [of L, OF L(1)] blocksI [of L, OF Li]] r(9) L(2)
      by (auto simp: fl.owns_def)
    moreover have "span ?j (int (length bs)) \<subseteq> span i (4 + int (length d))" using fits by auto
    ultimately show "span i' (4 + int (length e)) \<inter> span ?j (int (length bs)) = {}" by blast
  qed (use b r fits False q_rep_bounds(1) [OF rep L(1)] in auto)
  have own: "entry_at (overwrite (nat ?j) bs (array q)) i ?d'"
  proof -
    have e: "segment (nat i) (4 + length d) (array q) = frame d" "d \<noteq> []" "length d < 2 ^ 32"
      using r(12) [OF Li] by (auto simp: entry_at_def)
    have "segment (nat i) (4 + length d) (overwrite (nat i + (4 + k)) bs (array q)) =
        overwrite (4 + k) bs (frame d)"
      using fits b r(6,7) by (subst overwrite_in_segment) (auto simp: e(1) nat_le_iff)
    moreover have "overwrite (4 + k) bs (frame d) = frame ?d'"
      using fits by (simp add: overwrite_def frame_def)
    moreover have "nat i + (4 + k) = nat ?j" using b by simp
    ultimately show ?thesis using e(2,3) len fits False
      by (auto simp: entry_at_def)
  qed
  have "dom (L(i \<mapsto> ?d')) = dom L" using Li by auto
  with r own other alen j show ?thesis
    unfolding q_rep_def blocks_patch [of L, OF Li len]
    by (auto simp: patch_def)
qed

section \<open>Pushing an entry\<close>

text \<open>The common part of the three ways to place an entry of data \<open>d\<close> at index \<open>i\<close>.\<close>

lemma q_rep_place:
  assumes rep: "q_rep q L" and d: "d \<noteq> []" "length d < 2 ^ 32" and fresh: "L i = None"
    and own: "fl.owns f (insert (i, 4 + int (length d)) (blocks L))"
    and free: "freeBytes f \<subseteq> {1..<t}" and i: "1 \<le> i" "i + 4 + int (length d) \<le> t"
    and t: "tail q \<le> t" "t \<le> int (length (array q))" and hb: "length (headerBuffer q') = 4"
    and q': "array q' = overwrite (nat i) (frame d) (array q)" "freelist q' = f"
      "count q' = count q + 1" "tail q' = t" "rightMargin q' = t" "head q' = head q"
      "capacity q' = capacity q"
  shows "q_rep q' (L(i \<mapsto> d))"
proof -
  note r = q_repD [OF rep]
  let ?n = "4 + int (length d)"
  have len: "length (overwrite (nat i) (frame d) (array q)) = length (array q)"
    using i t by (intro length_overwrite) simp
  have card: "int (card (dom (L(i \<mapsto> d)))) = int (card (dom L)) + 1"
    using fresh r(1) by (simp add: domIff)
  have "span i ?n \<subseteq> {1..<t}" "covered (blocks L) \<subseteq> {1..<t}"
    using i t r(11) by auto
  then have cov: "covered (insert (i, ?n) (blocks L)) \<subseteq> {1..<t}" by auto
  have old: "entry_at (overwrite (nat i) (frame d) (array q)) j e" if L: "L j = Some e" for j e
  proof (rule entry_at_overwrite [OF r(12) [OF L]])
    have "(j, 4 + int (length e)) \<noteq> (i, ?n)" using fresh L by auto
    then show "span j (4 + int (length e)) \<inter> span i (int (length (frame d))) = {}"
      using own separateD(2) [of "insert (i, ?n) (blocks L)" j "4 + int (length e)" i ?n]
        blocksI [of L, OF L] by (simp add: fl.owns_def)
  qed (use i t q_rep_bounds(1) [OF rep L] in auto)
  have new: "entry_at (overwrite (nat i) (frame d) (array q)) i d"
    by (rule entry_at_new [OF d]) (use i t in auto)
  show ?thesis
    unfolding q_rep_def blocks_upd [of L, OF fresh] q'
    using r i t len card cov old new own free hb by auto
qed

lemma q_rep_tail_fresh:
  assumes rep: "q_rep q L" and "0 < n"
  shows "fl.owns (freelist q) (insert (tail q, n) (blocks L))" and "L (tail q) = None"
proof -
  note r = q_repD [OF rep]
  have "span (tail q) n \<inter> covered (blocks L) = {}" "span (tail q) n \<inter> freeBytes (freelist q) = {}"
    using r(10,11) by auto
  from fl.owns_extend [OF r(9) assms(2) this]
  show "fl.owns (freelist q) (insert (tail q, n) (blocks L))" and "L (tail q) = None"
    using blocksI [of L "tail q"] by (auto, metis not_Some_eq)
qed

lemma push_at_tail:
  assumes rep: "q_rep q L" and d: "d \<noteq> []" "length d < 2 ^ 32"
    and room: "tail q + 4 + int (length d) \<le> capacity q"
  shows "\<exists>q'. queue_push d (int (length d)) q = Ret q' \<and> q_rep q' (L(tail q \<mapsto> d)) \<and>
    capacity q' = capacity q \<and> maxCapacity q' = maxCapacity q"
proof -
  note r = q_repD [OF rep]
  let ?t = "tail q + 4 + int (length d)"
  have push: "queue_push d (int (length d)) q =
      Ret ((written d q)\<lparr> rightMargin := ?t, count := count q + 1 \<rparr>)"
    using r room by (intro queue_push_fits) auto
  have "q_rep ((written d q)\<lparr> rightMargin := ?t, count := count q + 1 \<rparr>) (L(tail q \<mapsto> d))"
    using r room q_rep_tail_fresh [OF rep, of "4 + int (length d)"]
    by (intro q_rep_place [OF rep d, where t = ?t]) (auto simp: written_def intro: order_trans)
  with push show ?thesis by (simp add: written_def)
qed

lemma grownCapacity_enough:
  assumes "0 \<le> capacity q" and "0 < m"
    and "\<not> (maxCapacity q \<le> capacity q + m \<and> 0 < maxCapacity q)"
  shows "capacity q + m \<le> grownCapacity m q"
  using assms by (auto simp: grownCapacity_def Let_def)

lemma allocate_rep:
  assumes rep: "q_rep q L" and m: "0 < m"
    and nmax: "\<not> (maxCapacity q \<le> capacity q + m \<and> 0 < maxCapacity q)"
  shows "\<exists>q'. allocateAdditionalMemory m q = Ret q' \<and> q_rep q' L \<and> tail q' = tail q \<and>
    capacity q' = grownCapacity m q \<and> maxCapacity q' = maxCapacity q"
proof -
  note r = q_repD [OF rep]
  let ?cap = "grownCapacity m q"
  have cap: "capacity q + m \<le> ?cap" using r(5,6) m nmax by (intro grownCapacity_enough) auto
  define arr where "arr = (if rightMargin q = 1 then replicate (nat ?cap) 0
    else overwrite 0 (take (nat (tail q)) (array q)) (replicate (nat ?cap) 0))"
  let ?q' = "q\<lparr> capacity := ?cap, array := arr \<rparr>"
  have len: "int (length arr) = ?cap"
    using cap m r(5,6,7) by (auto simp: arr_def length_overwrite)
  have run: "allocateAdditionalMemory m q = Ret ?q'"
    using cap m r by (auto simp: allocateAdditionalMemory_def Let_def makeBytes_def arr_def goCopy_fits)
  have "entry_at arr i d" if L: "L i = Some d" for i d
  proof -
    note b = q_rep_bounds [OF rep L]
    then have "rightMargin q \<noteq> 1" using r(4) by auto
    then have "take (nat (tail q)) arr = take (nat (tail q)) (array q)"
      using r(5-7) by (simp add: arr_def overwrite_def)
    moreover have "nat i + (4 + length d) \<le> nat (tail q)" using b by linarith
    ultimately have "segment (nat i) (4 + length d) arr = segment (nat i) (4 + length d) (array q)"
      by (metis segment_take)
    with r(12) [OF L] show ?thesis by (simp add: entry_at_def)
  qed
  then have "q_rep ?q' L" using r len cap m unfolding q_rep_def by auto
  with run show ?thesis by auto
qed

text \<open>A freed region is used again.\<close>

lemma Push_reuse:
  assumes rep: "q_rep q L" and d: "d \<noteq> []" "length d < 2 ^ 32"
    and find: "freeList_find (4 + int (length d)) (freelist q) = (idx, f)" and idx: "idx \<noteq> -1"
  shows "\<exists>q'. Push d q = Ret (Inr idx, q') \<and> L idx = None \<and> q_rep q' (L(idx \<mapsto> d)) \<and>
    maxCapacity q' = maxCapacity q \<and> capacity q' = capacity q"
proof -
  note r = q_repD [OF rep]
  have find': "freeList_find (int (length d) + 4) (freelist q) = (idx, f)" using find by (simp add: add.commute)
  have n: "0 < 4 + int (length d)" by simp
  note al = fl.owns_alloc [OF r(9) n find idx]
  have "span idx (4 + int (length d)) \<subseteq> {1..<tail q}" using al(3) r(10) by blast
  then have b: "1 \<le> idx" "idx + 4 + int (length d) \<le> tail q" by auto
  have fresh: "L idx = None" using al(2) blocksI [of L idx] by (metis not_Some_eq)
  let ?q = "q\<lparr> freelist := f \<rparr>"
  have "Push d q = Ret (Inr idx, (written d (?q\<lparr> tail := idx \<rparr>))\<lparr> tail := tail q, count := count q + 1 \<rparr>)"
    using idx b r pushAt_fits [of ?q idx d] by (simp add: Push_def Let_def find')
  moreover have "q_rep ((written d (?q\<lparr> tail := idx \<rparr>))\<lparr> tail := tail q, count := count q + 1 \<rparr>) (L(idx \<mapsto> d))"
    using b r al by (intro q_rep_place [OF rep d fresh al(1), where t = "tail q"]) (auto simp: written_def)
  ultimately show ?thesis using fresh by (auto simp: written_def)
qed

text \<open>Otherwise there is room after the tail, or the queue grows, or it is full.\<close>

lemma makeRoom_rep:
  assumes rep: "q_rep q L"
  shows "(\<exists>q1. makeRoom (int m) q = Ret (Inr q1) \<and> q_rep q1 L \<and> tail q1 = tail q \<and> tail q1 + 4 + int m \<le> capacity q1 \<and>
      maxCapacity q1 = maxCapacity q \<and> capacity q \<le> capacity q1 \<and>
      (0 < maxCapacity q \<longrightarrow> capacity q1 \<le> max (capacity q) (maxCapacity q))) \<or>
    (makeRoom (int m) q = Ret (Inl FullQueue) \<and> 0 < maxCapacity q \<and> maxCapacity q \<le> capacity q + 4 + int m)"
proof -
  note r = q_repD [OF rep]
  let ?n = "4 + int m"
  consider (room) "tail q + ?n \<le> capacity q"
    | (full) "capacity q < tail q + ?n" "maxCapacity q \<le> capacity q + ?n" "0 < maxCapacity q"
    | (grow) "capacity q < tail q + ?n" "\<not> (maxCapacity q \<le> capacity q + ?n \<and> 0 < maxCapacity q)"
    by linarith
  then show ?thesis
  proof cases
    case room
    then have "makeRoom (int m) q = Ret (Inr q)"
      using r(3,5) by (simp add: makeRoom_def availableSpaceAfterTail_def)
    then show ?thesis using rep room by auto
  next
    case full
    then show ?thesis
      using r(3,5) by (simp add: makeRoom_def availableSpaceAfterTail_def availableSpaceBeforeHead_def)
  next
    case grow
    from allocate_rep [OF rep _ grow(2)] obtain q1 where q1:
      "allocateAdditionalMemory ?n q = Ret q1" "q_rep q1 L" "tail q1 = tail q"
      "capacity q1 = grownCapacity ?n q" "maxCapacity q1 = maxCapacity q" by auto
    have "makeRoom (int m) q = Ret (Inr q1)"
      using grow r(3,5) q1(1)
      by (auto simp: makeRoom_def availableSpaceAfterTail_def availableSpaceBeforeHead_def add.commute)
    moreover have "capacity q + ?n \<le> capacity q1"
      using grownCapacity_enough [of q ?n] r(5,6) grow(2) q1(4) by auto
    moreover have "0 < maxCapacity q \<longrightarrow> capacity q1 \<le> max (capacity q) (maxCapacity q)"
      using q1(4) by (auto simp: grownCapacity_def Let_def)
    ultimately show ?thesis using q1(2,3,5) r(6) by auto
  qed
qed

lemma Push_rep:
  assumes rep: "q_rep q L" and d: "d \<noteq> []" "length d < 2 ^ 32"
  shows "(\<exists>i q'. Push d q = Ret (Inr i, q') \<and> L i = None \<and> q_rep q' (L(i \<mapsto> d)) \<and>
        maxCapacity q' = maxCapacity q \<and> capacity q \<le> capacity q' \<and>
        (0 < maxCapacity q \<longrightarrow> capacity q' \<le> max (capacity q) (maxCapacity q))) \<or>
    (Push d q = Ret (Inl FullQueue, q) \<and> 0 < maxCapacity q \<and>
        maxCapacity q \<le> capacity q + 4 + int (length d))"
proof -
  note r = q_repD [OF rep]
  have n: "0 < 4 + int (length d)" by simp
  obtain idx f where find: "freeList_find (4 + int (length d)) (freelist q) = (idx, f)" by fastforce
  show ?thesis
  proof (cases "idx = -1")
    case False
    with Push_reuse [OF rep d find] show ?thesis by (intro disjI1) auto
  next
    case True
    have "-1 \<notin> freeBytes (freelist q)" using r(10) by auto
    with True have "f = freelist q" using fl.owns_alloc_miss [OF r(9) n] find by blast
    then have push: "Push d q = obind (makeRoom (int (length d)) q) (\<lambda>r. case r of
         Inl e \<Rightarrow> Ret (Inl e, q)
       | Inr q1 \<Rightarrow> obind (queue_push d (int (length d)) q1) (\<lambda>q'. Ret (Inr (tail q1), q')))"
      using True find by (simp add: Push_def Let_def add.commute)
    from makeRoom_rep [OF rep, of "length d"] show ?thesis
    proof (elim disjE exE conjE)
      fix q1
      assume q1: "makeRoom (int (length d)) q = Ret (Inr q1)" "q_rep q1 L" "tail q1 = tail q"
        "tail q1 + 4 + int (length d) \<le> capacity q1" "maxCapacity q1 = maxCapacity q" "capacity q \<le> capacity q1"
        "0 < maxCapacity q \<longrightarrow> capacity q1 \<le> max (capacity q) (maxCapacity q)"
      from push_at_tail [OF q1(2) d q1(4)] obtain q' where
        "queue_push d (int (length d)) q1 = Ret q'" "q_rep q' (L(tail q1 \<mapsto> d))"
        "capacity q' = capacity q1" "maxCapacity q' = maxCapacity q1" by blast
      then show ?thesis unfolding push using q1 q_rep_tail_fresh(2) [OF rep n] by (intro disjI1) auto
    qed (simp add: push)
  qed
qed

section \<open>The contract of an entry store\<close>

text \<open>
  What a shard relies on: \<open>rep q L\<close> says that the store \<open>q\<close> holds exactly the entries
  \<open>L\<close>.  A slice returned by \<open>get\<close> reads the entry's bytes, and writing through it
  changes that entry only.
\<close>

locale entry_store =
  fixes rep :: "'q \<Rightarrow> (int \<rightharpoonup> byte list) \<Rightarrow> bool"
    and push :: "byte list \<Rightarrow> 'q \<Rightarrow> ((queueError + int) \<times> 'q) outcome"
    and get :: "int \<Rightarrow> 'q \<Rightarrow> (queueError + byteSlice) outcome"
    and del :: "int \<Rightarrow> 'q \<Rightarrow> (queueError option \<times> 'q) outcome"
    and bytes :: "'q \<Rightarrow> byteSlice \<Rightarrow> byte list"
    and poke :: "nat \<Rightarrow> byte list \<Rightarrow> 'q \<Rightarrow> 'q"
    and limit :: "'q \<Rightarrow> int"
  assumes push_entry: "rep q L \<Longrightarrow> d \<noteq> [] \<Longrightarrow> length d < 2 ^ 32 \<Longrightarrow>
      (\<exists>i q'. push d q = Ret (Inr i, q') \<and> L i = None \<and> rep q' (L(i \<mapsto> d))) \<or>
      push d q = Ret (Inl FullQueue, q)"
    and get_entry: "rep q L \<Longrightarrow> L i = Some d \<Longrightarrow>
      \<exists>s. get i q = Ret (Inr s) \<and> bytes q s = d \<and> snd s = length d"
    and del_entry: "rep q L \<Longrightarrow> L i = Some d \<Longrightarrow>
      \<exists>q'. del i q = Ret (None, q') \<and> rep q' (L(i := None))"
    and poke_entry: "rep q L \<Longrightarrow> L i = Some d \<Longrightarrow> get i q = Ret (Inr s) \<Longrightarrow>
      k + length bs \<le> length d \<Longrightarrow> rep (poke (fst s + k) bs q) (L(i \<mapsto> overwrite k bs d))"
    and index_limit: "rep q L \<Longrightarrow> L i = Some d \<Longrightarrow> 1 \<le> i \<and> i < limit q"
begin

lemma get_same: "rep q L \<Longrightarrow> L i = Some d \<Longrightarrow> get i q = Ret (Inr s) \<Longrightarrow> bytes q s = d \<and> snd s = length d"
  using get_entry by fastforce

text \<open>Overwriting some bytes of an entry and then deleting it removes the entry.\<close>

lemma retire_entry:
  assumes "rep q L" and "L i = Some d" and "get i q = Ret (Inr s)" and "k + length bs \<le> length d"
  shows "\<exists>q'. del i (poke (fst s + k) bs q) = Ret (None, q') \<and> rep q' (L(i := None))"
  using del_entry [OF poke_entry [OF assms]] by fastforce

lemma push_get:
  assumes "rep q L" and "d \<noteq> []" and "length d < 2 ^ 32" and "push d q = Ret (Inr i, q')"
  shows "rep q' (L(i \<mapsto> d))" and "L i = None" and "\<exists>s. get i q' = Ret (Inr s) \<and> bytes q' s = d"
    and "L j = Some e \<Longrightarrow> \<exists>s. get j q' = Ret (Inr s) \<and> bytes q' s = e"
proof -
  from push_entry [OF assms(1-3)] assms(4)
  have *: "rep q' (L(i \<mapsto> d))" "L i = None" by auto
  then show "rep q' (L(i \<mapsto> d))" "L i = None" by auto
  show "\<exists>s. get i q' = Ret (Inr s) \<and> bytes q' s = d"
    using get_entry [OF *(1), of i d] by auto
  show "L j = Some e \<Longrightarrow> \<exists>s. get j q' = Ret (Inr s) \<and> bytes q' s = e"
    using get_entry [OF *(1), of j e] *(2) by (cases "j = i") auto
qed

end

interpretation qs: entry_store q_rep Push Get Delete sliceBytes patch capacity
proof
  fix q :: "'a BytesQueue" and L and d :: "byte list"
  assume "q_rep q L" "d \<noteq> []" "length d < 2 ^ 32"
  then show "(\<exists>i q'. Push d q = Ret (Inr i, q') \<and> L i = None \<and> q_rep q' (L(i \<mapsto> d))) \<or>
      Push d q = Ret (Inl FullQueue, q)"
    using Push_rep by blast
next
  fix q :: "'a BytesQueue" and L i and d :: "byte list"
  assume *: "q_rep q L" "L i = Some d"
  show "\<exists>s. Get i q = Ret (Inr s) \<and> sliceBytes q s = d \<and> snd s = length d"
    using Get_entry [OF *] by auto
  show "\<exists>q'. Delete i q = Ret (None, q') \<and> q_rep q' (L(i := None))"
    using Delete_entry [OF *] by blast
  show "1 \<le> i \<and> i < capacity q"
    using q_rep_bounds [OF *] q_repD(6) [OF *(1)] by simp
  fix s k and bs :: "byte list"
  assume "Get i q = Ret (Inr s)" "k + length bs \<le> length d"
  then show "q_rep (patch (fst s + k) bs q) (L(i \<mapsto> overwrite k bs d))"
    using patch_entry [OF *] Get_entry [OF *] by auto
qed

section \<open>Histories\<close>

text \<open>
  The queue states a client can reach from a new queue by pushing non-empty data and
  deleting entries it has pushed, together with the entries that are then alive.
\<close>

inductive queue_run :: "(int, nat, 't) avltree \<Rightarrow> int \<Rightarrow> int \<Rightarrow> 't BytesQueue \<Rightarrow> (int \<rightharpoonup> byte list) \<Rightarrow> bool"
  for T initCap maxCap where
  run_new: "NewBytesQueue T initCap maxCap = Ret q \<Longrightarrow> queue_run T initCap maxCap q Map.empty"
| run_push: "queue_run T initCap maxCap q L \<Longrightarrow> d \<noteq> [] \<Longrightarrow> length d < 2 ^ 32 \<Longrightarrow>
    Push d q = Ret (Inr i, q') \<Longrightarrow> queue_run T initCap maxCap q' (L(i \<mapsto> d))"
| run_full: "queue_run T initCap maxCap q L \<Longrightarrow> d \<noteq> [] \<Longrightarrow> length d < 2 ^ 32 \<Longrightarrow>
    Push d q = Ret (Inl e, q') \<Longrightarrow> queue_run T initCap maxCap q' L"
| run_delete: "queue_run T initCap maxCap q L \<Longrightarrow> L i = Some d \<Longrightarrow> Delete i q = Ret (e, q') \<Longrightarrow>
    queue_run T initCap maxCap q' (L(i := None))"

lemma queue_run_rep:
  assumes "queue_run T initCap maxCap q L" and "avltree_laws T" and "1 \<le> initCap"
  shows "q_rep q L"
  using assms(1)
proof induction
  case (run_new q)
  then show ?case using q_rep_new [OF assms(2,3), of maxCap] by auto
next
  case (run_push q L d i q')
  then show ?case using qs.push_get(1) by blast
next
  case (run_full q L d e q')
  then show ?case using qs.push_entry [of q L d] by auto
next
  case (run_delete q L i d e q')
  then show ?case using qs.del_entry [of q L i d] by (auto simp: fun_upd_def)
qed

section \<open>Properties\<close>

text \<open>
  C5.  Pushing an entry on a consistent queue never panics.  It either stores the entry under
  an index no live entry has, keeps every other entry, and grows the array at most to the
  configured maximum; or it fails with the full-queue error and changes nothing, which
  happens only when a maximum is set and the array could not be extended below it.
\<close>

theorem push_stores_or_full:
  assumes "q_rep q L" and "d \<noteq> []" and "length d < 2 ^ 32"
  shows "(\<exists>i q'. Push d q = Ret (Inr i, q') \<and> L i = None \<and> q_rep q' (L(i \<mapsto> d)) \<and>
        maxCapacity q' = maxCapacity q \<and> capacity q \<le> capacity q' \<and>
        (0 < maxCapacity q \<longrightarrow> capacity q' \<le> max (capacity q) (maxCapacity q))) \<or>
    (Push d q = Ret (Inl FullQueue, q) \<and> 0 < maxCapacity q \<and>
        maxCapacity q \<le> capacity q + 4 + int (length d))"
  by (rule Push_rep [OF assms])

theorem push_stores_or_full_witness:
  "\<exists>q q'. NewBytesQueue rbt_tree 16 0 = Ret q \<and> Push [1, 2, 3] q = Ret (Inr 1, q') \<and>
     q_rep q' [1 \<mapsto> [1, 2, 3]]"
proof -
  obtain q where q: "NewBytesQueue rbt_tree 16 0 = Ret q" "q_rep q Map.empty"
    using q_rep_new [OF rbt_tree_laws, of 16 0] by auto
  have i: "obind (NewBytesQueue rbt_tree 16 0) (\<lambda>q. obind (Push [1, 2, 3] q) (\<lambda>r. Ret (fst r))) = Ret (Inr 1)"
    by code_simp
  with q(1) obtain q' where "Push [1, 2, 3] q = Ret (Inr 1, q')"
    by (auto simp: obind_eq_Ret)
  with push_stores_or_full [OF q(2), of "[1, 2, 3]"] q(1) show ?thesis by auto
qed

text \<open>
  C3.  Whatever was pushed and deleted before, every entry that is still alive is read back
  by \<^verbatim>\<open>Get\<close> with exactly the bytes that were pushed, and \<^verbatim>\<open>Len\<close> counts the live entries.
\<close>

theorem live_entries_readable:
  assumes "queue_run T initCap maxCap q L" and "avltree_laws T" and "1 \<le> initCap"
  shows "(\<forall>i d. L i = Some d \<longrightarrow> (\<exists>s. Get i q = Ret (Inr s) \<and> sliceBytes q s = d)) \<and>
    Len q = int (card (dom L))"
  using qs.get_entry [OF queue_run_rep [OF assms]] q_repD(2) [OF queue_run_rep [OF assms]]
  by (fastforce simp: Len_def)

theorem live_entries_readable_witness:
  "\<exists>q s. queue_run rbt_tree 16 0 q [1 \<mapsto> [7, 8, 9]] \<and> Get 1 q = Ret (Inr s) \<and> sliceBytes q s = [7, 8, 9]"
proof -
  obtain q where q: "NewBytesQueue rbt_tree 16 0 = Ret q"
    using q_rep_new [OF rbt_tree_laws, of 16 0] by auto
  have "obind (NewBytesQueue rbt_tree 16 0) (\<lambda>q. obind (Push [7, 8, 9] q) (\<lambda>r. Ret (fst r))) = Ret (Inr 1)"
    by code_simp
  with q obtain q' where "Push [7, 8, 9] q = Ret (Inr 1, q')" by (auto simp: obind_eq_Ret)
  then have run: "queue_run rbt_tree 16 0 q' [1 \<mapsto> [7, 8, 9]]"
    using run_push [OF run_new [OF q], of "[7, 8, 9]" 1 q'] by simp
  with live_entries_readable [OF run rbt_tree_laws] show ?thesis by auto
qed

text \<open>
  Deleting a live entry succeeds, removes that entry and no other, and leaves the
  array, the margins and the capacity as they were.
\<close>

lemma delete_removes_one:
  assumes "q_rep q L" and "L i = Some d"
  shows "\<exists>q'. Delete i q = Ret (None, q') \<and> q_rep q' (L(i := None)) \<and>
    q' = q\<lparr> freelist := freelist q', count := count q' \<rparr>"
  by (rule Delete_entry [OF assms])

text \<open>
  \<^verbatim>\<open>Reset\<close> empties the queue but leaves the free list as it was, so a region that was
  free before is handed out again although the tail has moved back over it: after one
  push, its deletion and a reset, two further pushes are given the same index.
\<close>

lemma reset_hands_out_twice:
  "obind (NewBytesQueue rbt_tree 128 0) (\<lambda>q.
   obind (Push [1, 2, 3] q) (\<lambda>(r, q).
   obind (Delete 1 q) (\<lambda>(e, q).
   obind (Push [4, 5, 6] (Reset q)) (\<lambda>(r1, q).
   obind (Push [7, 8, 9] q) (\<lambda>(r2, q).
     Ret (r, e, r1, r2, Len q)))))) = Ret (Inr 1, None, Inr 1, Inr 1, 2)"
  by code_simp

end
