(* ===== verification/EntryEncoding.thy ===== *)
theory EntryEncoding
  imports LittleEndian
begin

text \<open>
  The layout of a cache entry (\<^verbatim>\<open>bigcache/encoding.go\<close>): eight bytes of expiry timestamp,
  eight of key hash, two of key length, the key, the value.  The key length is stored in
  sixteen bits and the readers add the header size to it in sixteen bits as well, so the
  format has two limits: 65535 for what can be stored, 65517 for what can be read back.

  A slice of Go keeps its backing array up to its capacity: \<open>Slice b n\<close> is the first \<open>n\<close>
  bytes of \<open>b\<close>, and a slice expression may reach beyond \<open>n\<close> but not beyond \<open>b\<close>.
\<close>

section \<open>Writing and reading an entry\<close>

definition timestampSizeInBytes :: nat where [simp]: "timestampSizeInBytes = 8"
definition hashSizeInBytes :: nat where [simp]: "hashSizeInBytes = 8"
definition keySizeInBytes :: nat where [simp]: "keySizeInBytes = 2"
definition headersSizeInBytes :: nat where
  [simp]: "headersSizeInBytes = timestampSizeInBytes + hashSizeInBytes + keySizeInBytes"

definition wrapEntry ::
    "u64 \<Rightarrow> u64 \<Rightarrow> gostring \<Rightarrow> byte list \<Rightarrow> byte list \<Rightarrow> (byte list \<times> byte list) outcome" where
  "wrapEntry timestamp hash key entry buffer =
     (let keyLength = length key;
          blobLength = length entry + headersSizeInBytes + keyLength;
          buffer = (if blobLength > length buffer then replicate blobLength 0 else buffer)
      in obind (of_opt (PutUint64 buffer 0 timestamp)) (\<lambda>blob.
         obind (of_opt (PutUint64 blob timestampSizeInBytes hash)) (\<lambda>blob.
         obind (of_opt (PutUint16 blob (timestampSizeInBytes + hashSizeInBytes) (of_nat keyLength))) (\<lambda>blob.
           let blob = fst (goCopy blob headersSizeInBytes key);
               blob = fst (goCopy blob (headersSizeInBytes + keyLength) entry)
           in Ret (take blobLength blob, blob)))))"

datatype goSlice = Slice (backing: "byte list") (slen: nat)

fun goBytes :: "goSlice \<Rightarrow> byte list" where
  "goBytes (Slice b n) = take n b"

text \<open>\<^verbatim>\<open>data[off:]\<close>, which panics when \<open>off\<close> is past the end.\<close>

definition dropFrom :: "nat \<Rightarrow> byte list \<Rightarrow> byte list outcome" where
  "dropFrom off data = (if off \<le> length data then Ret (drop off data) else Panic)"

definition keyLengthOf :: "goSlice \<Rightarrow> u16 outcome" where
  "keyLengthOf data =
     obind (dropFrom (timestampSizeInBytes + hashSizeInBytes) (goBytes data)) (\<lambda>b. of_opt (Uint16 b))"

definition readEntry :: "goSlice \<Rightarrow> byte list outcome" where
  "readEntry data =
     obind (keyLengthOf data) (\<lambda>len.
       let off = unat (of_nat headersSizeInBytes + len) in
       if length (goBytes data) < off then Panic else Ret (drop off (goBytes data)))"

definition readTimestampFromEntry :: "goSlice \<Rightarrow> u64 outcome" where
  "readTimestampFromEntry data = of_opt (Uint64 (goBytes data))"

definition readKeyFromEntry :: "goSlice \<Rightarrow> gostring outcome" where
  "readKeyFromEntry data =
     obind (keyLengthOf data) (\<lambda>len.
       let hi = unat (of_nat headersSizeInBytes + len) in
       if hi < headersSizeInBytes \<or> length (backing data) < hi then Panic
       else Ret (segment headersSizeInBytes (hi - headersSizeInBytes) (backing data)))"

definition readHashFromEntry :: "goSlice \<Rightarrow> u64 outcome" where
  "readHashFromEntry data =
     obind (dropFrom timestampSizeInBytes (goBytes data)) (\<lambda>b. of_opt (Uint64 b))"

text \<open>\<^verbatim>\<open>resetKeyFromEntry\<close> zeroes the hash field; the result is the new content of the slice.\<close>

definition resetKeyFromEntry :: "goSlice \<Rightarrow> byte list outcome" where
  "resetKeyFromEntry data =
     (if timestampSizeInBytes \<le> length (goBytes data)
      then of_opt (PutUint64 (goBytes data) timestampSizeInBytes 0) else Panic)"

section \<open>The layout\<close>

definition encoded :: "u64 \<Rightarrow> u64 \<Rightarrow> gostring \<Rightarrow> byte list \<Rightarrow> byte list" where
  "encoded ts h key entry =
     le_put 8 ts @ le_put 8 h @ le_put 2 (of_nat (length key) :: u16) @ key @ entry"

lemma length_encoded [simp]: "length (encoded ts h key entry) = 18 + length key + length entry"
  by (simp add: encoded_def)

lemma wrapEntry_encoded:
  "\<exists>buf'. wrapEntry ts h key entry buf = Ret (encoded ts h key entry, buf') \<and>
     length buf \<le> length buf'"
proof -
  let ?n = "length entry + 18 + length key"
  define b where "b = (if ?n > length buf then replicate ?n 0 else buf)"
  have len: "?n \<le> length b" "length buf \<le> length b" by (auto simp: b_def)
  define r where "r = drop 18 b"
  have r: "length r = length b - 18" "length key + length entry \<le> length r"
    using len by (auto simp: r_def)
  let ?h = "le_put 8 ts @ le_put 8 h @ le_put 2 (of_nat (length key) :: u16)"
  have p1: "PutUint64 b 0 ts = Some (le_put 8 ts @ drop 8 b)"
    using len by (simp add: PutUint64_def overwrite_0)
  have p2: "PutUint64 (le_put 8 ts @ drop 8 b) 8 h = Some (le_put 8 ts @ le_put 8 h @ drop 16 b)"
    using len by (simp add: PutUint64_def overwrite_append_same)
  have p3: "PutUint16 (le_put 8 ts @ le_put 8 h @ drop 16 b) 16 (of_nat (length key)) = Some (?h @ r)"
    using len overwrite_append_same [of "le_put 8 ts @ le_put 8 h" 16]
    by (simp add: PutUint16_def r_def)
  have p4: "goCopy (?h @ r) 18 key = (?h @ key @ drop (length key) r, length key)"
    using r overwrite_append_same [of ?h 18 key r] by (simp add: goCopy_fits)
  have p5: "goCopy (?h @ key @ drop (length key) r) (18 + length key) entry =
      (?h @ key @ entry @ drop (length key + length entry) r, length entry)"
    using r overwrite_append_same [of "?h @ key" "18 + length key" entry "drop (length key) r"]
    by (simp add: goCopy_fits add.commute)
  have w: "wrapEntry ts h key entry buf =
      obind (of_opt (PutUint64 b 0 ts)) (\<lambda>blob.
      obind (of_opt (PutUint64 blob 8 h)) (\<lambda>blob.
      obind (of_opt (PutUint16 blob 16 (of_nat (length key)))) (\<lambda>blob.
        let blob = fst (goCopy (fst (goCopy blob 18 key)) (18 + length key) entry)
        in Ret (take ?n blob, blob))))"
    by (simp add: wrapEntry_def Let_def b_def)
  show ?thesis
    unfolding w p1 of_opt_simps obind.simps p2 p3 p4 fst_conv p5 Let_def
    using r len by (simp add: encoded_def)
qed

lemma drop_encoded_16:
  "drop 16 (encoded ts h key entry) = le_put 2 (of_nat (length key) :: u16) @ key @ entry"
  by (simp add: encoded_def)

lemma keyLengthOf_encoded:
  "keyLengthOf (Slice (encoded ts h key entry @ rest) (18 + length key + length entry)) =
   Ret (of_nat (length key))"
  by (simp add: keyLengthOf_def dropFrom_def drop_encoded_16 Uint16_put)

lemma unat_header_offset: "unat ((18 :: u16) + of_nat n) = (18 + n) mod 65536"
  by (simp add: unat_word_ariths unat_of_nat mod_simps)

section \<open>Reading back what was written\<close>

text \<open>The slice over one entry, with whatever follows it in the array.\<close>

abbreviation entrySlice :: "byte list \<Rightarrow> byte list \<Rightarrow> goSlice" where
  "entrySlice d rest \<equiv> Slice (d @ rest) (length d)"

lemma readTimestamp_encoded [simp]:
  "readTimestampFromEntry (entrySlice (encoded ts h key entry) rest) = Ret ts"
  by (simp add: readTimestampFromEntry_def) (simp add: encoded_def Uint64_put)

lemma readHash_encoded [simp]:
  "readHashFromEntry (entrySlice (encoded ts h key entry) rest) = Ret h"
  by (simp add: readHashFromEntry_def dropFrom_def) (simp add: encoded_def Uint64_put)

lemma readKey_encoded:
  "length key \<le> 65517 \<Longrightarrow> readKeyFromEntry (entrySlice (encoded ts h key entry) rest) = Ret key"
  by (simp add: readKeyFromEntry_def keyLengthOf_encoded unat_header_offset Let_def)
     (simp add: encoded_def segment_def)

lemma readEntry_encoded:
  "length key \<le> 65517 \<Longrightarrow> readEntry (entrySlice (encoded ts h key entry) rest) = Ret entry"
  by (simp add: readEntry_def keyLengthOf_encoded unat_header_offset Let_def)
     (simp add: encoded_def)

lemma readKey_wrapped:
  "65518 \<le> length key \<Longrightarrow> length key < 65536 \<Longrightarrow>
   readKeyFromEntry (entrySlice (encoded ts h key entry) rest) = Panic"
  by (auto simp: readKeyFromEntry_def keyLengthOf_encoded unat_header_offset Let_def mod_if)

lemma readKey_truncated:
  assumes "65536 \<le> length key" and "length key mod 65536 \<le> 65517"
  shows "readKeyFromEntry (entrySlice (encoded ts h key entry) rest) = Ret (take (length key mod 65536) key)"
proof -
  have "(18 + length key) mod 65536 = (18 + length key mod 65536) mod 65536" by (simp add: mod_simps)
  then have "(18 + length key) mod 65536 = 18 + length key mod 65536" using assms(2) by simp
  then show ?thesis using assms
    by (simp add: readKeyFromEntry_def keyLengthOf_encoded unat_header_offset Let_def)
       (simp add: encoded_def segment_def)
qed

lemma resetKey_slice:
  "16 \<le> length d \<Longrightarrow> resetKeyFromEntry (entrySlice d rest) = Ret (overwrite 8 (le_put 8 (0 :: u64)) d)"
  by (simp add: resetKeyFromEntry_def PutUint64_def)

lemma encoded_inject_hash: "encoded ts h k v = encoded ts' h' k' v' \<Longrightarrow> ts = ts' \<and> h = h'"
  by (simp add: encoded_def append_eq_append_conv u64.enc_inject)

lemma resetKey_encoded:
  "resetKeyFromEntry (entrySlice (encoded ts h key entry) rest) = Ret (encoded ts 0 key entry)"
proof -
  have "overwrite 8 (le_put 8 (0 :: u64)) (encoded ts h key entry) = encoded ts 0 key entry"
    unfolding encoded_def using overwrite_append_same [of "le_put 8 ts" 8 "le_put 8 (0 :: u64)"]
    by simp
  then show ?thesis using resetKey_slice [of "encoded ts h key entry" rest] by simp
qed

section \<open>Properties\<close>

text \<open>
  C18.  An entry whose key has at most 65517 bytes is read back field by field from the bytes
  \<^verbatim>\<open>wrapEntry\<close> produces, whatever the shared buffer held and whatever follows the entry in
  the queue's array; \<^verbatim>\<open>wrapEntry\<close> itself never panics and never shrinks the buffer.
\<close>

theorem entry_round_trip:
  assumes "length key \<le> 65517"
  shows "\<exists>blob buffer'. wrapEntry ts h key entry buffer = Ret (blob, buffer') \<and>
    length buffer \<le> length buffer' \<and>
    readTimestampFromEntry (entrySlice blob rest) = Ret ts \<and>
    readHashFromEntry (entrySlice blob rest) = Ret h \<and>
    readKeyFromEntry (entrySlice blob rest) = Ret key \<and>
    readEntry (entrySlice blob rest) = Ret entry"
  using wrapEntry_encoded [of ts h key entry buffer]
    readKey_encoded [OF assms, of ts h entry rest] readEntry_encoded [OF assms, of ts h entry rest]
    readTimestamp_encoded [of ts h key entry rest] readHash_encoded [of ts h key entry rest]
  by auto

theorem entry_round_trip_witness:
  "\<exists>blob buffer'. wrapEntry 7 42 [107, 49] [1, 2, 3] [] = Ret (blob, buffer') \<and>
    readKeyFromEntry (entrySlice blob [9, 9]) = Ret [107, 49] \<and>
    readEntry (entrySlice blob [9, 9]) = Ret [1, 2, 3]"
  using entry_round_trip [of "[107, 49]" 7 42 "[1, 2, 3]" "[]" "[9, 9]"] by auto

text \<open>
  C21.  A key of 65518 to 65535 bytes is stored with its true length, but the readers add the
  header size to that length in sixteen bits: reading the key of such an entry panics.
\<close>

theorem long_key_panics:
  assumes "65518 \<le> length key" and "length key < 65536"
    and "wrapEntry ts h key entry buffer = Ret (blob, buffer')"
  shows "readKeyFromEntry (entrySlice blob rest) = Panic"
proof -
  have "blob = encoded ts h key entry" using assms(3) wrapEntry_encoded [of ts h key entry buffer] by auto
  then show ?thesis using readKey_wrapped [OF assms(1,2)] by simp
qed

theorem long_key_panics_witness:
  "\<exists>blob buffer'. wrapEntry 7 42 (replicate 65518 0) [1] [] = Ret (blob, buffer') \<and>
    readKeyFromEntry (entrySlice blob []) = Panic"
proof -
  obtain blob b where w: "wrapEntry 7 42 (replicate 65518 0) [1] [] = Ret (blob, b)"
    using wrapEntry_encoded by blast
  with long_key_panics [OF _ _ w, of "[]"] show ?thesis by auto
qed

text \<open>
  \<^verbatim>\<open>resetKeyFromEntry\<close> sets the hash of an entry to zero and leaves the timestamp, the
  key and the value as they were.
\<close>

lemma reset_key_clears_hash:
  assumes "length key \<le> 65517"
  shows "\<exists>blob. resetKeyFromEntry (entrySlice (encoded ts h key entry) rest) = Ret blob \<and>
    length blob = length (encoded ts h key entry) \<and>
    readHashFromEntry (entrySlice blob rest) = Ret 0 \<and>
    readTimestampFromEntry (entrySlice blob rest) = Ret ts \<and>
    readKeyFromEntry (entrySlice blob rest) = Ret key \<and>
    readEntry (entrySlice blob rest) = Ret entry"
  using resetKey_encoded [of ts h key entry rest] readKey_encoded [OF assms, of ts 0 entry rest]
    readEntry_encoded [OF assms, of ts 0 entry rest]
    readTimestamp_encoded [of ts 0 key entry rest] readHash_encoded [of ts 0 key entry rest]
  by auto

end
