(* ===== verification/GoTime.thy ===== *)
theory GoTime
  imports Prelude "HOL-Library.Log_Nat"
begin

text \<open>
  The part of Go's \<^verbatim>\<open>time\<close> package the sources use: durations in nanoseconds (a signed
  64-bit integer), their conversion \<^verbatim>\<open>uint64(d.Seconds())\<close>, and one-shot timers with their
  channel of capacity one.

  \<^verbatim>\<open>Seconds\<close> computes \<^verbatim>\<open>float64(d / Second) + float64(d % Second) / 1e9\<close>.  Both integers are
  exact in a float64, so the value depends on two roundings to 53 bits, which are written
  out over the integers: a fraction close to one second can round a long duration up.
\<close>

type_synonym duration = u64

definition NO_DURATION :: duration where [simp]: "NO_DURATION = 0"

section \<open>Seconds of a duration\<close>

text \<open>Rounding of \<open>a / b\<close> to the nearest integer, ties to even.\<close>

definition rne :: "int \<Rightarrow> int \<Rightarrow> int" where
  "rne a b =
     (let q = a div b; r = a mod b
      in if 2 * r < b then q else if b < 2 * r then q + 1 else if even q then q else q + 1)"

text \<open>
  The integral part of \<^verbatim>\<open>float64(s) + float64(ns) / 1e9\<close> for \<open>0 \<le> s\<close> and
  \<open>0 \<le> ns < 10 ^ 9\<close>.  The quotient is rounded with \<open>j\<close> leading zero bits after the
  point, the sum with the bits that the integer part leaves.
\<close>

definition floatSeconds :: "int \<Rightarrow> int \<Rightarrow> int" where
  "floatSeconds s ns =
     (if ns = 0 \<or> s = 0 then s
      else let j = nat (29 - (bitlen ns - 1));
               j = (if ns * 2 ^ j < 10 ^ 9 then j + 1 else j);
               frac = rne (ns * 2 ^ (52 + j)) (10 ^ 9);
               k = nat (52 - (bitlen s - 1))
           in rne ((s * 2 ^ (52 + j) + frac) * 2 ^ k) (2 ^ (52 + j)) div 2 ^ k)"

definition durationSeconds :: "duration \<Rightarrow> u64" where
  "durationSeconds d =
     (if 0 \<le> sint d then word_of_int (floatSeconds (sint d div 10 ^ 9) (sint d mod 10 ^ 9))
      else - word_of_int (floatSeconds (- sint d div 10 ^ 9) (- sint d mod 10 ^ 9)))"

lemma durationSeconds_whole:
  assumes "0 \<le> n" and "n < 2 ^ 33"
  shows "durationSeconds (word_of_int (n * 10 ^ 9)) = word_of_int n"
proof -
  have "sint (word_of_int (n * 10 ^ 9) :: u64) = n * 10 ^ 9"
    unfolding sint_sbintrunc' using assms by (intro signed_take_bit_int_eq_self) simp_all
  then show ?thesis using assms by (simp add: durationSeconds_def floatSeconds_def)
qed

section \<open>Timers\<close>

text \<open>
  \<open>armed\<close> is the time in Unix seconds at which the timer was set and the duration it was
  given; \<open>tick\<close> says that it has fired and the channel holds the value.
\<close>

record timer =
  armed :: "(u64 \<times> duration) option"
  tick :: bool

definition NewTimer :: "u64 \<Rightarrow> duration \<Rightarrow> timer" where
  "NewTimer now d = \<lparr> armed = Some (now, d), tick = False \<rparr>"

text \<open>\<^verbatim>\<open>Stop\<close> reports whether it stopped a running timer.\<close>

definition timer_Stop :: "timer \<Rightarrow> bool \<times> timer" where
  "timer_Stop t = (armed t \<noteq> None, t\<lparr> armed := None \<rparr>)"

definition timer_Reset :: "u64 \<Rightarrow> duration \<Rightarrow> timer \<Rightarrow> timer" where
  "timer_Reset now d t = t\<lparr> armed := Some (now, d) \<rparr>"

text \<open>\<^verbatim>\<open>select { case <-t.C: default: }\<close>\<close>

definition timer_drain :: "timer \<Rightarrow> timer" where
  "timer_drain t = t\<lparr> tick := False \<rparr>"

definition timer_fire :: "timer \<Rightarrow> timer" where
  "timer_fire t = \<lparr> armed = None, tick = True \<rparr>"

definition seconds :: "u64 \<Rightarrow> duration" where
  "seconds n = 1000000000 * n"

section \<open>How far the seconds of a duration are off\<close>

lemma rne_ge:
  assumes "0 < b" "q * b \<le> a"
  shows "q \<le> rne a b"
  using zdiv_mono1 [OF assms(2,1)] assms(1) by (auto simp: rne_def Let_def)

lemma rne_le:
  assumes "0 < b" "a \<le> q * b"
  shows "rne a b \<le> q"
proof (cases "a = q * b")
  case False
  have "a div b * b \<le> a" using div_mult_mod_eq [of a b] pos_mod_sign [OF assms(1), of a] by linarith
  also have "\<dots> < q * b" using False assms(2) by simp
  finally have "a div b < q" using assms(1) by (simp add: mult_less_cancel_right)
  then show ?thesis by (auto simp: rne_def Let_def)
qed (use assms in \<open>simp add: rne_def\<close>)

lemma floatSeconds_bounds:
  assumes "0 \<le> s" "0 \<le> ns" "ns < 10 ^ 9"
  shows "s \<le> floatSeconds s ns" "floatSeconds s ns \<le> s + 1" "ns = 0 \<Longrightarrow> floatSeconds s ns = s"
proof -
  have *: "s \<le> rne ((s * 2 ^ m + rne (ns * 2 ^ m) (10 ^ 9)) * 2 ^ k) (2 ^ m) div 2 ^ k \<and>
      rne ((s * 2 ^ m + rne (ns * 2 ^ m) (10 ^ 9)) * 2 ^ k) (2 ^ m) div 2 ^ k \<le> s + 1" for m k :: nat
  proof -
    let ?f = "rne (ns * 2 ^ m) (10 ^ 9)"
    have f: "0 \<le> ?f" "?f \<le> 2 ^ m"
      using rne_ge [of "10 ^ 9" 0 "ns * 2 ^ m"] rne_le [of "10 ^ 9" "ns * 2 ^ m" "2 ^ m"] assms by simp_all
    let ?r = "rne ((s * 2 ^ m + ?f) * 2 ^ k) (2 ^ m)"
    have "s * 2 ^ k \<le> ?r" by (rule rne_ge) (use f in \<open>simp_all add: algebra_simps\<close>)
    moreover have "?r \<le> (s + 1) * 2 ^ k" by (rule rne_le) (use f in \<open>simp_all add: algebra_simps\<close>)
    ultimately show ?thesis
      using zdiv_mono1 [of "s * 2 ^ k" ?r "2 ^ k"] zdiv_mono1 [of ?r "(s + 1) * 2 ^ k" "2 ^ k"] by simp
  qed
  show "s \<le> floatSeconds s ns" "floatSeconds s ns \<le> s + 1" "ns = 0 \<Longrightarrow> floatSeconds s ns = s"
    using * by (auto simp: floatSeconds_def Let_def)
qed


lemma sint_word_of_int: "- (2 ^ 63) \<le> i \<Longrightarrow> i < 2 ^ 63 \<Longrightarrow> sint (word_of_int i :: u64) = i"
  unfolding sint_sbintrunc' by (intro signed_take_bit_int_eq_self) simp_all

text \<open>The seconds a duration is rounded to, away from zero by less than one.\<close>

lemma durationSeconds_near:
  assumes "\<bar>i\<bar> < 2 ^ 63"
  obtains n where "durationSeconds (word_of_int i) = word_of_int n" "\<bar>n\<bar> = \<bar>i\<bar> div 10 ^ 9 \<or> \<bar>n\<bar> = \<bar>i\<bar> div 10 ^ 9 + 1"
    "0 \<le> n * i" "\<bar>i\<bar> mod 10 ^ 9 = 0 \<Longrightarrow> n * 10 ^ 9 = i"
proof -
  have s: "sint (word_of_int i :: u64) = i" using assms by (intro sint_word_of_int) auto
  define f where "f = floatSeconds (\<bar>i\<bar> div 10 ^ 9) (\<bar>i\<bar> mod 10 ^ 9)"
  note b = floatSeconds_bounds [of "\<bar>i\<bar> div 10 ^ 9" "\<bar>i\<bar> mod 10 ^ 9", folded f_def]
  have f: "0 \<le> f" "f = \<bar>i\<bar> div 10 ^ 9 \<or> f = \<bar>i\<bar> div 10 ^ 9 + 1" "\<bar>i\<bar> mod 10 ^ 9 = 0 \<Longrightarrow> f * 10 ^ 9 = \<bar>i\<bar>"
    using b(1,2) b(3) by (auto simp: pos_imp_zdiv_nonneg_iff)
  show ?thesis
  proof (cases "0 \<le> i")
    case True
    have "durationSeconds (word_of_int i) = word_of_int f" using True by (simp add: durationSeconds_def s f_def)
    then show ?thesis using that [of f] f True by simp
  next
    case False
    have "durationSeconds (word_of_int i) = word_of_int (- f)" using False by (simp add: durationSeconds_def s f_def)
    then show ?thesis using that [of "- f"] f False by (simp add: mult_nonneg_nonpos)
  qed
qed

end
