(* ===== verification/TTL.thy ===== *)
theory TTL
  imports Gods GoTime
begin

text \<open>
  The expiry table of a shard (\<^verbatim>\<open>bigcache/ttl.go\<close>): an ordered tree from expiry time (Unix
  seconds) to the set of keys that expire then, and one timer that is kept set for the
  least time in the tree.  A hash set is held in the tree by pointer; adding to it or
  removing from it in place is storing the changed set under the same time.  The clock
  reading of \<^verbatim>\<open>resetTimer\<close> is an argument.  The eviction goroutine, which removes entries
  from the shard, is modelled with the shard.

  Main results: the table refines a map from times to key sets, and every operation leaves
  the timer set for the least time.
\<close>

section \<open>The data\<close>

record ('u, 'h) ttlManager =
  timeTree :: 'u
  timeOps :: "(u64, 'h, 'u) avltree"
  setOps :: "(gostring, 'h) hashset"
  ttlTimer :: timer
  ShardHasher :: "gostring \<Rightarrow> u64"

definition newTtlManager ::
    "(u64, 'h, 'u) avltree \<Rightarrow> (gostring, 'h) hashset \<Rightarrow> (gostring \<Rightarrow> u64) \<Rightarrow> u64 \<Rightarrow> ('u, 'h) ttlManager" where
  "newTtlManager T H hasher now =
     \<lparr> timeTree = tNew T, timeOps = T, setOps = H,
       ttlTimer = NewTimer now (seconds (60 * 60 * 10)), ShardHasher = hasher \<rparr>"

definition timeGet :: "('u, 'h) ttlManager \<Rightarrow> u64 \<Rightarrow> 'h option" where
  "timeGet m ts = tGet (timeOps m) (timeTree m) ts"

definition timePut :: "u64 \<Rightarrow> 'h \<Rightarrow> ('u, 'h) ttlManager \<Rightarrow> ('u, 'h) ttlManager" where
  "timePut ts h m = m\<lparr> timeTree := tPut (timeOps m) (timeTree m) ts h \<rparr>"

definition timeRemove :: "u64 \<Rightarrow> ('u, 'h) ttlManager \<Rightarrow> ('u, 'h) ttlManager" where
  "timeRemove ts m = m\<lparr> timeTree := tRemove (timeOps m) (timeTree m) ts \<rparr>"

section \<open>The operations\<close>

definition ttl_peek :: "('u, 'h) ttlManager \<Rightarrow> (u64 \<times> 'h) option" where
  "ttl_peek m = tLeft (timeOps m) (timeTree m)"

definition stopTimer :: "('u, 'h) ttlManager \<Rightarrow> ('u, 'h) ttlManager" where
  "stopTimer m =
     (let (stopped, t) = timer_Stop (ttlTimer m)
      in m\<lparr> ttlTimer := (if \<not> stopped then timer_drain t else t) \<rparr>)"

definition resetTimer :: "u64 \<Rightarrow> u64 \<Rightarrow> ('u, 'h) ttlManager \<Rightarrow> ('u, 'h) ttlManager" where
  "resetTimer now timeStamp m =
     (let interval = timeStamp - now;
          (stopped, t) = timer_Stop (ttlTimer m);
          t = (if \<not> stopped then timer_drain t else t)
      in m\<lparr> ttlTimer := timer_Reset now (seconds interval) t \<rparr>)"

definition ttl_put :: "u64 \<Rightarrow> u64 \<Rightarrow> gostring \<Rightarrow> ('u, 'h) ttlManager \<Rightarrow> ('u, 'h) ttlManager" where
  "ttl_put now timestamp cacheKey m =
     (case timeGet m timestamp of
        Some data \<Rightarrow> timePut timestamp (hAdd (setOps m) data cacheKey) m
      | None \<Rightarrow>
          (let m = timePut timestamp (hAdd (setOps m) (hNew (setOps m)) cacheKey) m in
           if tSize (timeOps m) (timeTree m) = 1 then resetTimer now timestamp m
           else if map_option fst (ttl_peek m) = Some timestamp then resetTimer now timestamp m
           else m))"

definition ttl_remove :: "u64 \<Rightarrow> u64 \<Rightarrow> gostring \<Rightarrow> ('u, 'h) ttlManager \<Rightarrow> ('u, 'h) ttlManager" where
  "ttl_remove now timestamp key m =
     (case timeGet m timestamp of
        None \<Rightarrow> m
      | Some data \<Rightarrow>
          (let set' = hRemove (setOps m) data key; m = timePut timestamp set' m in
           if hIsEmpty (setOps m) set' then
             if map_option fst (ttl_peek m) = Some timestamp then
               (let m = timeRemove timestamp m in
                case ttl_peek m of
                  Some (k, _) \<Rightarrow> resetTimer now k m
                | None \<Rightarrow> m)
             else timeRemove timestamp m
           else m))"

definition ttl_reset :: "('u, 'h) ttlManager \<Rightarrow> ('u, 'h) ttlManager" where
  "ttl_reset m = stopTimer (m\<lparr> timeTree := tClear (timeOps m) (timeTree m) \<rparr>)"

section \<open>The table as a map from times to sets of keys\<close>

definition ttl_laws :: "('u, 'h) ttlManager \<Rightarrow> bool" where
  "ttl_laws m \<longleftrightarrow> avltree_laws (timeOps m) \<and> hashset_laws (setOps m)"

definition ttl_rep :: "('u, 'h) ttlManager \<Rightarrow> (u64 \<Rightarrow> gostring set) \<Rightarrow> bool" where
  "ttl_rep m P \<longleftrightarrow> ttl_laws m \<and>
     (\<forall>ts. case timeGet m ts of
        None \<Rightarrow> P ts = {}
      | Some h \<Rightarrow> hElems (setOps m) h = P ts \<and> P ts \<noteq> {})"

text \<open>The timer is set for the least time of the table, or has just fired.\<close>

definition setFor :: "u64 \<Rightarrow> timer \<Rightarrow> bool" where
  "setFor k t \<longleftrightarrow> \<not> tick t \<and> (\<exists>t0. armed t = Some (t0, seconds (k - t0)))"

definition timer_inv :: "('u, 'h) ttlManager \<Rightarrow> bool" where
  "timer_inv m \<longleftrightarrow>
     (armed (ttlTimer m) \<noteq> None \<longrightarrow> \<not> tick (ttlTimer m)) \<and>
     (\<forall>k v. ttl_peek m = Some (k, v) \<longrightarrow> tick (ttlTimer m) \<or> setFor k (ttlTimer m))"

named_theorems ttl_fields \<open>fields of an expiry table after a primitive update\<close>

lemma ttl_prim_fields [ttl_fields]:
  "timeOps (timePut ts h m) = timeOps m" "setOps (timePut ts h m) = setOps m"
  "ttlTimer (timePut ts h m) = ttlTimer m" "ShardHasher (timePut ts h m) = ShardHasher m"
  "timeOps (timeRemove ts m) = timeOps m" "setOps (timeRemove ts m) = setOps m"
  "ttlTimer (timeRemove ts m) = ttlTimer m" "ShardHasher (timeRemove ts m) = ShardHasher m"
  "timeOps (resetTimer now ts m) = timeOps m" "setOps (resetTimer now ts m) = setOps m"
  "timeTree (resetTimer now ts m) = timeTree m" "ShardHasher (resetTimer now ts m) = ShardHasher m"
  "timeOps (stopTimer m) = timeOps m" "setOps (stopTimer m) = setOps m"
  "timeTree (stopTimer m) = timeTree m" "ShardHasher (stopTimer m) = ShardHasher m"
  by (simp_all add: timePut_def timeRemove_def resetTimer_def stopTimer_def Let_def split: prod.splits)

lemma timeGet_updates [ttl_fields]:
  assumes "ttl_laws m"
  shows "timeGet (timePut ts h m) ts' = (if ts' = ts then Some h else timeGet m ts')"
    and "timeGet (timeRemove ts m) ts' = (if ts' = ts then None else timeGet m ts')"
  using assms by (simp_all add: timeGet_def timePut_def timeRemove_def ttl_laws_def tree_simps)

lemma timeGet_timer [ttl_fields]:
  "timeGet (resetTimer now ts m) = timeGet m" "timeGet (stopTimer m) = timeGet m"
  "ttl_peek (resetTimer now ts m) = ttl_peek m"
  by (simp_all add: timeGet_def ttl_peek_def fun_eq_iff ttl_prim_fields)

lemma ttl_laws_ops [ttl_fields]:
  "ttl_laws (timePut ts h m) = ttl_laws m" "ttl_laws (timeRemove ts m) = ttl_laws m"
  "ttl_laws (resetTimer now ts m) = ttl_laws m" "ttl_laws (stopTimer m) = ttl_laws m"
  by (simp_all add: ttl_laws_def ttl_prim_fields)

lemma ttl_repD:
  assumes "ttl_rep m P"
  shows "ttl_laws m" and "timeGet m ts = Some h \<Longrightarrow> hElems (setOps m) h = P ts \<and> P ts \<noteq> {}"
    and "timeGet m ts = None \<longleftrightarrow> P ts = {}"
  using assms unfolding ttl_rep_def by (auto split: option.splits dest: spec [of _ ts])

lemma ttl_repI:
  assumes "ttl_laws m" and "\<And>ts h. timeGet m ts = Some h \<Longrightarrow> hElems (setOps m) h = P ts \<and> P ts \<noteq> {}"
    and "\<And>ts. timeGet m ts = None \<Longrightarrow> P ts = {}"
  shows "ttl_rep m P"
  using assms unfolding ttl_rep_def by (auto split: option.splits)

lemma ttl_peek_min:
  assumes "ttl_laws m"
  shows "ttl_peek m = None \<longleftrightarrow> (\<forall>ts. timeGet m ts = None)"
    and "ttl_peek m = Some (k, h) \<Longrightarrow> timeGet m k = Some h"
    and "ttl_peek m = Some (k, h) \<Longrightarrow> timeGet m ts = Some h' \<Longrightarrow> k \<le> ts"
  using assms tLeft_None [of "timeOps m" "timeTree m"] tLeft_Some [of "timeOps m" "timeTree m"]
  by (auto simp: ttl_laws_def ttl_peek_def timeGet_def dom_def)

lemma resetTimer_sets:
  "armed (ttlTimer m) \<noteq> None \<longrightarrow> \<not> tick (ttlTimer m) \<Longrightarrow> setFor ts (ttlTimer (resetTimer now ts m))"
  by (auto simp: setFor_def resetTimer_def Let_def timer_Stop_def timer_Reset_def timer_drain_def)

section \<open>Refinement\<close>

lemma ttl_rep_new:
  "avltree_laws T \<Longrightarrow> hashset_laws H \<Longrightarrow> ttl_rep (newTtlManager T H hasher now) (\<lambda>_. {})"
  by (rule ttl_repI) (auto simp: ttl_laws_def newTtlManager_def timeGet_def tree_simps)

lemma ttl_rep_timePut:
  assumes "ttl_rep m P" and "hElems (setOps m) h = A" and "A \<noteq> {}"
  shows "ttl_rep (timePut ts h m) (P(ts := A))"
  using assms ttl_repD [OF assms(1)] by (intro ttl_repI) (auto simp: ttl_fields split: if_splits)

lemma ttl_rep_timeRemove:
  assumes "ttl_laws m" and "\<And>ts'. ts' \<noteq> ts \<Longrightarrow> timeGet m ts' = timeGet m0 ts'" and "ttl_rep m0 P"
    and "setOps m = setOps m0"
  shows "ttl_rep (timeRemove ts m) (P(ts := {}))"
  using assms ttl_repD [OF assms(3)] by (intro ttl_repI) (auto simp: ttl_fields split: if_splits)

lemma ttl_rep_resetTimer: "ttl_rep (resetTimer now ts m) P = ttl_rep m P"
  by (simp add: ttl_rep_def ttl_fields cong: option.case_cong)

lemma ttl_put_rep:
  assumes "ttl_rep m P"
  shows "ttl_rep (ttl_put now ts key m) (P(ts := insert key (P ts)))"
proof (cases "timeGet m ts")
  case None
  have "P ts = {}" using ttl_repD(3) [OF assms] None by blast
  moreover have "hashset_laws (setOps m)" using ttl_repD(1) [OF assms] by (simp add: ttl_laws_def)
  ultimately have "ttl_rep (timePut ts (hAdd (setOps m) (hNew (setOps m)) key) m) (P(ts := insert key (P ts)))"
    by (intro ttl_rep_timePut [OF assms]) (auto simp: tree_simps)
  with None show ?thesis by (simp add: ttl_put_def Let_def ttl_rep_resetTimer)
next
  case (Some h)
  have "hElems (setOps m) h = P ts" using ttl_repD(2) [OF assms Some] by simp
  moreover have "hashset_laws (setOps m)" using ttl_repD(1) [OF assms] by (simp add: ttl_laws_def)
  ultimately have "ttl_rep (timePut ts (hAdd (setOps m) h key) m) (P(ts := insert key (P ts)))"
    by (intro ttl_rep_timePut [OF assms]) (auto simp: tree_simps)
  with Some show ?thesis by (simp add: ttl_put_def)
qed

lemma ttl_remove_rep:
  assumes "ttl_rep m P"
  shows "ttl_rep (ttl_remove now ts key m) (P(ts := P ts - {key}))"
proof (cases "timeGet m ts")
  case None
  then have "P(ts := P ts - {key}) = P" using ttl_repD(3) [OF assms, of ts] by (simp add: fun_eq_iff)
  with None assms show ?thesis by (simp add: ttl_remove_def)
next
  case (Some h)
  have P: "hElems (setOps m) h = P ts" using ttl_repD(2) [OF assms Some] by simp
  have laws: "ttl_laws m" and H: "hashset_laws (setOps m)"
    using ttl_repD(1) [OF assms] by (simp_all add: ttl_laws_def)
  let ?h = "hRemove (setOps m) h key" and ?m = "timePut ts (hRemove (setOps m) h key) m"
  show ?thesis
  proof (cases "P ts - {key} = {}")
    case True
    then have "ttl_rep (timeRemove ts ?m) (P(ts := P ts - {key}))"
      using ttl_rep_timeRemove [of ?m ts m P] laws assms unfolding True by (simp add: ttl_fields)
    moreover have "hIsEmpty (setOps m) ?h" using True H P by (simp add: tree_simps)
    ultimately show ?thesis
      using Some by (auto simp: ttl_remove_def Let_def ttl_fields ttl_rep_resetTimer split: option.splits)
  next
    case False
    then have "ttl_rep ?m (P(ts := P ts - {key}))"
      using H P by (intro ttl_rep_timePut [OF assms]) (auto simp: tree_simps)
    moreover have "\<not> hIsEmpty (setOps m) ?h" using False H P by (simp add: tree_simps)
    ultimately show ?thesis using Some by (simp add: ttl_remove_def Let_def ttl_fields)
  qed
qed

lemma ttl_reset_rep:
  assumes "ttl_rep m P"
  shows "ttl_rep (ttl_reset m) (\<lambda>_. {})"
proof -
  have "avltree_laws (timeOps m)" "ttl_laws m" using ttl_repD(1) [OF assms] by (auto simp: ttl_laws_def)
  then show ?thesis
    by (intro ttl_repI) (auto simp: ttl_reset_def ttl_fields timeGet_def tree_simps ttl_laws_def)
qed

section \<open>The timer follows the least time\<close>

lemma timer_inv_new: "avltree_laws T \<Longrightarrow> timer_inv (newTtlManager T H hasher now)"
  using tLeft_None [of T "tNew T"]
  by (auto simp: timer_inv_def newTtlManager_def NewTimer_def ttl_peek_def tree_simps dom_def)

lemma timer_inv_set:
  "timer_inv m \<Longrightarrow> timer_inv m' \<or> ttlTimer m' = ttlTimer m \<Longrightarrow> map_option fst (ttl_peek m') = Some k \<Longrightarrow>
   timer_inv (resetTimer now k m')"
  using resetTimer_sets [of m' k now]
  by (auto simp: timer_inv_def ttl_fields setFor_def)

lemma timer_inv_same:
  assumes "timer_inv m" and "ttlTimer m' = ttlTimer m"
    and "\<And>k. map_option fst (ttl_peek m') = Some k \<Longrightarrow> map_option fst (ttl_peek m) = Some k"
  shows "timer_inv m'"
  using assms by (fastforce simp: timer_inv_def)

text \<open>The least key of the tree after storing under one time.\<close>

lemma ttl_peek_timePut:
  assumes laws: "ttl_laws m" and k: "map_option fst (ttl_peek (timePut ts h m)) = Some k" "k \<noteq> ts"
  shows "map_option fst (ttl_peek m) = Some k"
proof -
  let ?m = "timePut ts h m"
  from k(1) obtain v where pk: "ttl_peek ?m = Some (k, v)" by auto
  note mn = ttl_peek_min(2,3) [of ?m, unfolded ttl_laws_ops, OF laws pk]
  have get: "timeGet m k = Some v" using mn(1) k(2) laws by (simp add: ttl_fields)
  then obtain k' v' where pk': "ttl_peek m = Some (k', v')"
    using ttl_peek_min(1) [OF laws] by (cases "ttl_peek m") auto
  have "k' \<le> k" using ttl_peek_min(3) [OF laws pk' get] .
  moreover have "k \<le> k'"
  proof (cases "k' = ts")
    case True
    then show ?thesis using mn(2) [of ts h] laws by (simp add: ttl_fields)
  next
    case False
    then show ?thesis using mn(2) [of k' v'] ttl_peek_min(2) [OF laws pk'] laws by (simp add: ttl_fields)
  qed
  ultimately show ?thesis using pk' by simp
qed

lemma ttl_peek_timePut_same:
  assumes laws: "ttl_laws m" and old: "timeGet m ts = Some h0"
  shows "map_option fst (ttl_peek (timePut ts h m)) = map_option fst (ttl_peek m)"
proof -
  obtain k v where pk: "ttl_peek m = Some (k, v)"
    using ttl_peek_min(1) [OF laws] old by (cases "ttl_peek m") auto
  let ?m = "timePut ts h m"
  have "timeGet ?m k = Some (if k = ts then h else v)"
    using ttl_peek_min(2) [OF laws pk] laws by (simp add: ttl_fields)
  moreover have "k \<le> ts'" if "timeGet ?m ts' = Some v'" for ts' v'
    using that ttl_peek_min(3) [OF laws pk] old laws by (cases "ts' = ts") (auto simp: ttl_fields)
  ultimately have "tLeft (timeOps ?m) (timeTree ?m) = Some (k, if k = ts then h else v)"
    using laws by (intro tLeft_least) (auto simp: timeGet_def ttl_laws_def ttl_prim_fields)
  then show ?thesis using pk by (simp add: ttl_peek_def)
qed

lemma ttl_peek_timeRemove_other:
  assumes laws: "ttl_laws m" and pk: "ttl_peek m = Some (k, v)" and ne: "k \<noteq> ts"
  shows "ttl_peek (timeRemove ts m) = Some (k, v)"
proof -
  have "tLeft (timeOps (timeRemove ts m)) (timeTree (timeRemove ts m)) = Some (k, v)"
  proof (rule tLeft_least)
    show "tGet (timeOps (timeRemove ts m)) (timeTree (timeRemove ts m)) k = Some v"
      using ttl_peek_min(2) [OF laws pk] laws ne timeGet_updates(2) [OF laws, of ts k] by (simp add: timeGet_def)
    fix k' assume "k' \<in> dom (tGet (timeOps (timeRemove ts m)) (timeTree (timeRemove ts m)))"
    then obtain v' where "timeGet (timeRemove ts m) k' = Some v'" by (auto simp: timeGet_def)
    then show "k \<le> k'" using ttl_peek_min(3) [OF laws pk] laws by (auto simp: ttl_fields split: if_splits)
  qed (use laws in \<open>simp add: ttl_laws_def ttl_prim_fields\<close>)
  then show ?thesis by (simp add: ttl_peek_def)
qed

lemma ttl_put_timer:
  assumes laws: "ttl_laws m" and inv: "timer_inv m"
  shows "timer_inv (ttl_put now ts key m)"
proof (cases "timeGet m ts")
  case (Some h)
  then show ?thesis
    using timer_inv_same [OF inv, of "timePut ts (hAdd (setOps m) h key) m"] ttl_peek_timePut_same [OF laws Some]
    by (simp add: ttl_put_def ttl_fields)
next
  case None
  let ?m = "timePut ts (hAdd (setOps m) (hNew (setOps m)) key) m"
  obtain k v where pk: "ttl_peek ?m = Some (k, v)"
    using ttl_peek_min(1) [of ?m] laws
    by (cases "ttl_peek ?m") (auto simp: ttl_fields split: if_splits dest: spec [of _ ts])
  show ?thesis
  proof (cases "k = ts")
    case True
    with pk have "map_option fst (ttl_peek ?m) = Some ts" by simp
    with None timer_inv_set [OF inv, of ?m] show ?thesis
      by (simp add: ttl_put_def Let_def ttl_fields)
  next
    case False
    have "tSize (timeOps ?m) (timeTree ?m) \<noteq> 1"
    proof
      assume "tSize (timeOps ?m) (timeTree ?m) = 1"
      then have "card (dom (timeGet ?m)) = 1"
        using laws tSize_card [of "timeOps ?m" "timeTree ?m"]
        by (simp add: ttl_laws_def ttl_prim_fields timeGet_def [abs_def])
      moreover have "{ts, k} \<subseteq> dom (timeGet ?m)"
        using laws ttl_peek_min(2) [of ?m, OF _ pk] by (auto simp: ttl_fields)
      moreover have "finite (dom (timeGet ?m))"
        using laws finite_dom_tGet [of "timeOps ?m" "timeTree ?m"]
        by (simp add: ttl_laws_def ttl_prim_fields timeGet_def [abs_def])
      ultimately show False using False card_mono [of "dom (timeGet ?m)" "{ts, k}"] by simp
    qed
    moreover have "timer_inv ?m"
    proof (rule timer_inv_same [OF inv])
      show "map_option fst (ttl_peek m) = Some k'" if "map_option fst (ttl_peek ?m) = Some k'" for k'
        using ttl_peek_timePut [OF laws that] that pk False by simp
    qed (simp add: ttl_fields)
    ultimately show ?thesis using None pk False by (simp add: ttl_put_def Let_def)
  qed
qed

lemma ttl_remove_timer:
  assumes laws: "ttl_laws m" and inv: "timer_inv m"
  shows "timer_inv (ttl_remove now ts key m)"
proof (cases "timeGet m ts")
  case None
  then show ?thesis using inv by (simp add: ttl_remove_def)
next
  case (Some h)
  let ?m = "timePut ts (hRemove (setOps m) h key) m"
  have peek: "map_option fst (ttl_peek ?m) = map_option fst (ttl_peek m)"
    by (rule ttl_peek_timePut_same [OF laws Some])
  have inv': "timer_inv ?m" by (rule timer_inv_same [OF inv]) (simp_all add: peek ttl_fields)
  have laws': "ttl_laws ?m" using laws by (simp add: ttl_fields)
  obtain k v where pk: "ttl_peek ?m = Some (k, v)"
    using ttl_peek_min(1) [OF laws'] laws
    by (cases "ttl_peek ?m") (auto simp: ttl_fields split: if_splits dest: spec [of _ ts])
  have rest: "timer_inv (timeRemove ts ?m)" if "k \<noteq> ts"
    by (rule timer_inv_same [OF inv']) (simp_all add: ttl_peek_timeRemove_other [OF laws' pk that] pk ttl_fields)
  have "timer_inv (resetTimer now k' (timeRemove ts ?m))" if "ttl_peek (timeRemove ts ?m) = Some (k', v')" for k' v'
    by (rule timer_inv_set [OF inv']) (simp_all add: that ttl_fields)
  moreover have "timer_inv (timeRemove ts ?m)" if "ttl_peek (timeRemove ts ?m) = None"
    by (rule timer_inv_same [OF inv']) (simp_all add: that ttl_fields)
  ultimately show ?thesis
    using Some pk rest inv'
    by (auto simp: ttl_remove_def Let_def ttl_fields split: option.split)
qed

lemma ttl_reset_timer: "ttl_laws m \<Longrightarrow> timer_inv m \<Longrightarrow> timer_inv (ttl_reset m)"
  using tLeft_None [of "timeOps m" "tClear (timeOps m) (timeTree m)"]
  by (auto simp: timer_inv_def ttl_reset_def ttl_peek_def ttl_fields ttl_laws_def tree_simps dom_def
      stopTimer_def timer_Stop_def timer_drain_def split: prod.splits)

lemma ttl_reset_stops:
  "armed (ttlTimer (ttl_reset m)) = None"
  by (simp add: ttl_reset_def stopTimer_def timer_Stop_def timer_drain_def)

section \<open>Histories\<close>

text \<open>
  The calls a shard makes on its table, each with the clock reading it takes, and the
  timer firing while it is armed (\<open>TTick\<close>).
\<close>

datatype ttlCall =
    TPut u64 u64 gostring
  | TRemove u64 u64 gostring
  | TReset
  | TTick

fun ttl_call :: "ttlCall \<Rightarrow> ('u, 'h) ttlManager \<Rightarrow> ('u, 'h) ttlManager" where
  "ttl_call (TPut now ts key) m = ttl_put now ts key m"
| "ttl_call (TRemove now ts key) m = ttl_remove now ts key m"
| "ttl_call TReset m = ttl_reset m"
| "ttl_call TTick m = (if armed (ttlTimer m) = None then m else m\<lparr> ttlTimer := timer_fire (ttlTimer m) \<rparr>)"

fun ttl_spec :: "ttlCall \<Rightarrow> (u64 \<Rightarrow> gostring set) \<Rightarrow> (u64 \<Rightarrow> gostring set)" where
  "ttl_spec (TPut now ts key) P = P(ts := insert key (P ts))"
| "ttl_spec (TRemove now ts key) P = P(ts := P ts - {key})"
| "ttl_spec TReset P = (\<lambda>_. {})"
| "ttl_spec TTick P = P"

lemma ttl_rep_timer [simp]: "ttl_rep (m\<lparr> ttlTimer := t \<rparr>) P = ttl_rep m P"
  by (simp add: ttl_rep_def ttl_laws_def timeGet_def cong: option.case_cong)

lemma timer_inv_fire [simp]: "timer_inv (m\<lparr> ttlTimer := timer_fire t \<rparr>)"
  by (simp add: timer_inv_def timer_fire_def)

lemma ttl_call_rep: "ttl_rep m P \<Longrightarrow> ttl_rep (ttl_call c m) (ttl_spec c P)"
  by (cases c) (simp_all add: ttl_put_rep ttl_remove_rep ttl_reset_rep)

lemma ttl_call_timer: "ttl_laws m \<Longrightarrow> timer_inv m \<Longrightarrow> timer_inv (ttl_call c m)"
  by (cases c) (simp_all add: ttl_put_timer ttl_remove_timer ttl_reset_timer)

lemma ttl_calls_rep:
  "ttl_rep m P \<Longrightarrow> timer_inv m \<Longrightarrow>
   ttl_rep (fold ttl_call cs m) (fold ttl_spec cs P) \<and> timer_inv (fold ttl_call cs m)"
proof (induction cs arbitrary: m P)
  case (Cons c cs)
  show ?case
    using Cons.IH [OF ttl_call_rep [OF Cons.prems(1)] ttl_call_timer [OF ttl_repD(1) [OF Cons.prems(1)] Cons.prems(2)]]
    by simp
qed simp

lemma ttl_peek_rep:
  assumes "ttl_rep m P" and "ttl_peek m = Some (k, h)"
  shows "P k \<noteq> {}" and "P ts \<noteq> {} \<Longrightarrow> k \<le> ts"
proof -
  note laws = ttl_repD(1) [OF assms(1)]
  show "P k \<noteq> {}" using ttl_repD(2) [OF assms(1)] ttl_peek_min(2) [OF laws assms(2)] by blast
  show "k \<le> ts" if "P ts \<noteq> {}"
    using that ttl_repD(3) [OF assms(1), of ts] ttl_peek_min(3) [OF laws assms(2)] by auto
qed

section \<open>Properties\<close>

text \<open>
  C16.  After any sequence of put, remove and reset calls and timer ticks on a new table, the tree holds
  exactly the keys that were put and not removed, under their times, with no empty set
  left behind.
\<close>

theorem table_refines_time_sets:
  assumes "avltree_laws T" and "hashset_laws H"
  shows "ttl_rep (fold ttl_call cs (newTtlManager T H hasher now)) (fold ttl_spec cs (\<lambda>_. {}))"
  using ttl_calls_rep [OF ttl_rep_new [OF assms] timer_inv_new [OF assms(1)]] by blast

theorem table_refines_time_sets_witness:
  "ttl_rep (fold ttl_call [TPut 10 20 [1], TPut 10 20 [2], TRemove 11 20 [1]]
      (newTtlManager rbt_tree list_set (\<lambda>_. 0) 10)) ((\<lambda>_. {})(20 := {[2]}))"
proof -
  have "fold ttl_spec [TPut 10 20 [1], TPut 10 20 [2], TRemove 11 20 [1]] (\<lambda>_. {}) = (\<lambda>_. {})(20 := {[2]})"
    by (auto simp: fun_eq_iff)
  then show ?thesis
    using table_refines_time_sets [OF rbt_tree_laws list_set_laws,
        of "[TPut 10 20 [1], TPut 10 20 [2], TRemove 11 20 [1]]" "\<lambda>_. 0" 10] by simp
qed



section \<open>The contract of an expiry table\<close>

text \<open>
  What a shard relies on.  A slot map \<open>S\<close> gives, for the hash of a stored key, the
  expiry time, the key and the value; time zero means the entry never expires.  The table
  tracks \<open>S\<close> when every slot is the one its key hashes to and every key that expires is
  waiting under its time.  Keys that are waiting without being stored do no harm.
\<close>

type_synonym slots = "u64 \<rightharpoonup> (u64 \<times> gostring \<times> byte list)"

locale expiry_table =
  fixes rep :: "'m \<Rightarrow> (u64 \<Rightarrow> gostring set) \<Rightarrow> bool"
    and put :: "u64 \<Rightarrow> u64 \<Rightarrow> gostring \<Rightarrow> 'm \<Rightarrow> 'm"
    and remove :: "u64 \<Rightarrow> u64 \<Rightarrow> gostring \<Rightarrow> 'm \<Rightarrow> 'm"
    and clear :: "'m \<Rightarrow> 'm"
    and least :: "'m \<Rightarrow> (u64 \<times> gostring list) option"
    and pop :: "u64 \<Rightarrow> 'm \<Rightarrow> 'm"
  assumes put_rep: "rep m P \<Longrightarrow> rep (put now ts key m) (P(ts := insert key (P ts)))"
    and remove_rep: "rep m P \<Longrightarrow> rep (remove now ts key m) (P(ts := P ts - {key}))"
    and clear_rep: "rep m P \<Longrightarrow> rep (clear m) (\<lambda>_. {})"
    and least_rep: "rep m P \<Longrightarrow> least m = Some (ts, ks) \<Longrightarrow> set ks = P ts \<and> P ts \<noteq> {}"
    and least_min: "rep m P \<Longrightarrow> least m = Some (ts, ks) \<Longrightarrow> P ts' \<noteq> {} \<Longrightarrow> ts \<le> ts'"
    and least_none: "rep m P \<Longrightarrow> least m = None \<longleftrightarrow> (\<forall>ts. P ts = {})"
    and pop_rep: "rep m P \<Longrightarrow> rep (pop ts m) (P(ts := {}))"
begin

definition tracks :: "(gostring \<Rightarrow> u64) \<Rightarrow> 'm \<Rightarrow> slots \<Rightarrow> bool" where
  "tracks hasher m S \<longleftrightarrow> (\<exists>P. rep m P \<and>
     (\<forall>h ts k v. S h = Some (ts, k, v) \<longrightarrow> hasher k = h \<and> (ts \<noteq> 0 \<longrightarrow> k \<in> P ts)))"

lemma tracksI:
  assumes "rep m P" and "\<And>h ts k v. S h = Some (ts, k, v) \<Longrightarrow> hasher k = h"
    and "\<And>h ts k v. S h = Some (ts, k, v) \<Longrightarrow> ts \<noteq> 0 \<Longrightarrow> k \<in> P ts"
  shows "tracks hasher m S"
  unfolding tracks_def using assms by (intro exI [of _ P]) simp

lemma tracksE:
  assumes "tracks hasher m S"
  obtains P where "rep m P" and "\<And>h ts k v. S h = Some (ts, k, v) \<Longrightarrow> hasher k = h"
    and "\<And>h ts k v. S h = Some (ts, k, v) \<Longrightarrow> ts \<noteq> 0 \<Longrightarrow> k \<in> P ts"
proof -
  from assms obtain P where P: "rep m P"
    and S: "\<forall>h ts k v. S h = Some (ts, k, v) \<longrightarrow> hasher k = h \<and> (ts \<noteq> 0 \<longrightarrow> k \<in> P ts)"
    unfolding tracks_def by (elim exE conjE)
  show thesis by (rule that [OF P]) (use S in blast)+
qed

lemma tracksD: "tracks hasher m S \<Longrightarrow> S h = Some (ts, k, v) \<Longrightarrow> hasher k = h"
  by (erule tracksE) simp

lemma tracks_remove:
  assumes "tracks hasher m S" and "hasher key = h"
  shows "tracks hasher (remove now ts key m) (S(h := None))"
  using assms(1)
proof (rule tracksE)
  fix P
  assume P: "rep m P" "\<And>h ts k v. S h = Some (ts, k, v) \<Longrightarrow> hasher k = h"
    "\<And>h ts k v. S h = Some (ts, k, v) \<Longrightarrow> ts \<noteq> 0 \<Longrightarrow> k \<in> P ts"
  show ?thesis
    by (rule tracksI [OF remove_rep [OF P(1)]]) (use assms(2) in \<open>auto split: if_splits dest: P(2,3)\<close>)
qed

lemma tracks_put:
  assumes "tracks hasher m S" and "hasher key = h"
  shows "tracks hasher (put now ts key m) (S(h \<mapsto> (ts, key, v)))"
  using assms(1)
proof (rule tracksE)
  fix P
  assume P: "rep m P" "\<And>h ts k v. S h = Some (ts, k, v) \<Longrightarrow> hasher k = h"
    "\<And>h ts k v. S h = Some (ts, k, v) \<Longrightarrow> ts \<noteq> 0 \<Longrightarrow> k \<in> P ts"
  show ?thesis
    by (rule tracksI [OF put_rep [OF P(1)]]) (use assms(2) in \<open>auto split: if_splits dest: P(2,3)\<close>)
qed

lemma tracks_forever:
  assumes "tracks hasher m S" and "hasher key = h"
  shows "tracks hasher m (S(h \<mapsto> (0, key, v)))"
  using assms(1)
proof (rule tracksE)
  fix P
  assume P: "rep m P" "\<And>h ts k v. S h = Some (ts, k, v) \<Longrightarrow> hasher k = h"
    "\<And>h ts k v. S h = Some (ts, k, v) \<Longrightarrow> ts \<noteq> 0 \<Longrightarrow> k \<in> P ts"
  show ?thesis
    by (rule tracksI [OF P(1)]) (use assms(2) in \<open>auto split: if_splits dest: P(2,3)\<close>)
qed

lemma tracks_clear: "tracks hasher m S \<Longrightarrow> tracks hasher (clear m) Map.empty"
  by (erule tracksE) (rule tracksI [OF clear_rep], simp_all)

text \<open>The least time and its keys: every entry that expires at that time is among them.\<close>

lemma tracks_least:
  assumes "tracks hasher m S" and "least m = Some (ts, ks)"
  shows "S h = Some (ts, k, v) \<Longrightarrow> ts \<noteq> 0 \<Longrightarrow> k \<in> set ks"
    and "S h = Some (ts', k, v) \<Longrightarrow> ts' \<noteq> 0 \<Longrightarrow> ts \<le> ts'"
proof -
  from assms(1) obtain P where P: "rep m P"
    "\<And>h ts k v. S h = Some (ts, k, v) \<Longrightarrow> ts \<noteq> 0 \<Longrightarrow> k \<in> P ts" by (rule tracksE) blast
  note l = least_rep [OF P(1) assms(2)] least_min [OF P(1) assms(2), of ts']
  show "S h = Some (ts, k, v) \<Longrightarrow> ts \<noteq> 0 \<Longrightarrow> k \<in> set ks" using P(2) [of h ts k v] l by simp
  show "S h = Some (ts', k, v) \<Longrightarrow> ts' \<noteq> 0 \<Longrightarrow> ts \<le> ts'" using P(2) [of h ts' k v] l by auto
qed

lemma tracks_pop:
  assumes "tracks hasher m S" and sub: "S' \<subseteq>\<^sub>m S"
    and gone: "\<And>h k v. S' h = Some (ts, k, v) \<Longrightarrow> ts = 0"
  shows "tracks hasher (pop ts m) S'"
  using assms(1)
proof (rule tracksE)
  fix P
  assume P: "rep m P" "\<And>h ts k v. S h = Some (ts, k, v) \<Longrightarrow> hasher k = h"
    "\<And>h ts k v. S h = Some (ts, k, v) \<Longrightarrow> ts \<noteq> 0 \<Longrightarrow> k \<in> P ts"
  have S': "S h = Some e" if "S' h = Some e" for h e
  proof -
    have "h \<in> dom S'" using that by (rule domI)
    with sub that show ?thesis by (simp add: map_le_def)
  qed
  show ?thesis
  proof (rule tracksI [OF pop_rep [OF P(1)]])
    fix h t k v
    assume e: "S' h = Some (t, k, v)"
    show "hasher k = h" by (rule P(2) [OF S' [OF e]])
    assume t: "t \<noteq> 0"
    with e gone [of h k v] have "t \<noteq> ts" by blast
    then show "k \<in> (P(ts := {})) t" using P(3) [OF S' [OF e] t] by simp
  qed
qed

end

definition ttl_least :: "('u, 'h) ttlManager \<Rightarrow> (u64 \<times> gostring list) option" where
  "ttl_least m = map_option (\<lambda>(k, h). (k, hValues (setOps m) h)) (ttl_peek m)"

interpretation et: expiry_table ttl_rep ttl_put ttl_remove ttl_reset ttl_least timeRemove
proof
  fix m :: "('u, 'h) ttlManager" and P now ts key
  assume rep: "ttl_rep m P"
  note laws = ttl_repD(1) [OF rep]
  show "ttl_rep (ttl_put now ts key m) (P(ts := insert key (P ts)))" by (rule ttl_put_rep [OF rep])
  show "ttl_rep (ttl_remove now ts key m) (P(ts := P ts - {key}))" by (rule ttl_remove_rep [OF rep])
  show "ttl_rep (ttl_reset m) (\<lambda>_. {})" by (rule ttl_reset_rep [OF rep])
  show "ttl_rep (timeRemove ts m) (P(ts := {}))" by (rule ttl_rep_timeRemove [OF laws _ rep]) simp_all
  show "ttl_least m = None \<longleftrightarrow> (\<forall>ts. P ts = {})"
    using ttl_peek_min(1) [OF laws] ttl_repD(3) [OF rep] by (simp add: ttl_least_def)
  fix ks
  assume "ttl_least m = Some (ts, ks)"
  then obtain h where h: "ttl_peek m = Some (ts, h)" "ks = hValues (setOps m) h"
    by (auto simp: ttl_least_def)
  show "set ks = P ts \<and> P ts \<noteq> {}"
    using ttl_repD(2) [OF rep ttl_peek_min(2) [OF laws h(1)]] h(2) by simp
  show "P ts' \<noteq> {} \<Longrightarrow> ts \<le> ts'" for ts' by (rule ttl_peek_rep(2) [OF rep h(1)])
qed

section \<open>Facts for the shard\<close>

lemma ttl_ops_fields [simp]:
  "ShardHasher (ttl_put now ts key m) = ShardHasher m" "setOps (ttl_put now ts key m) = setOps m"
  "ShardHasher (ttl_remove now ts key m) = ShardHasher m" "setOps (ttl_remove now ts key m) = setOps m"
  "ShardHasher (ttl_reset m) = ShardHasher m" "setOps (ttl_reset m) = setOps m"
  by (auto simp: ttl_put_def ttl_remove_def ttl_reset_def ttl_fields Let_def split: option.splits)

lemma tracks_laws: "et.tracks f m S \<Longrightarrow> ttl_laws m"
  by (erule et.tracksE) (rule ttl_repD(1))

lemma tSize_timeRemove:
  assumes "ttl_laws m" and "timeGet m ts = Some h"
  shows "Suc (tSize (timeOps (timeRemove ts m)) (timeTree (timeRemove ts m))) = tSize (timeOps m) (timeTree m)"
proof -
  have laws: "avltree_laws (timeOps m)" using assms(1) by (simp add: ttl_laws_def)
  have "dom (tGet (timeOps m) (tRemove (timeOps m) (timeTree m) ts)) = dom (tGet (timeOps m) (timeTree m)) - {ts}"
    using laws by (auto simp: tree_simps split: if_splits)
  moreover have "ts \<in> dom (tGet (timeOps m) (timeTree m))" using assms(2) by (auto simp: timeGet_def)
  ultimately show ?thesis
    using card_Suc_Diff1 [OF finite_dom_tGet [OF laws]]
    by (simp add: timeRemove_def tSize_card [OF laws])
qed

lemma tSize_peek:
  assumes "ttl_laws m"
  shows "tSize (timeOps m) (timeTree m) < 1 \<longleftrightarrow> ttl_peek m = None"
proof -
  have laws: "avltree_laws (timeOps m)" using assms by (simp add: ttl_laws_def)
  show ?thesis unfolding tSize_zero [OF laws] ttl_peek_def tLeft_None [OF laws] ..
qed

lemma timer_inv_quiet: "\<not> tick (ttlTimer m) \<Longrightarrow> ttl_peek m = None \<Longrightarrow> timer_inv m"
  by (simp add: timer_inv_def)

lemma tracks_resetTimer: "et.tracks f (resetTimer now ts m) S \<longleftrightarrow> et.tracks f m S"
  by (simp add: et.tracks_def ttl_rep_resetTimer)

lemma tracks_timer: "et.tracks f (m\<lparr> ttlTimer := t \<rparr>) S \<longleftrightarrow> et.tracks f m S"
  by (simp add: et.tracks_def)

lemma timer_inv_resetTimer:
  assumes "armed (ttlTimer m) \<noteq> None \<longrightarrow> \<not> tick (ttlTimer m)" and "ttl_peek m = Some (ts, h)"
  shows "timer_inv (resetTimer now ts m)" and "\<not> tick (ttlTimer (resetTimer now ts m))"
  using resetTimer_sets [OF assms(1), of ts now] assms(2)
  by (auto simp: timer_inv_def ttl_fields setFor_def)

end
