(* ===== verification/Fnv.thy ===== *)
theory Fnv
  imports Prelude
begin

text \<open>
  The default hasher (\<^verbatim>\<open>bigcache/fnv.go\<close>): 64-bit FNV-1a over the bytes of a key.  The hash
  decides both the shard and the slot of a key, and two keys with the same hash share one
  slot.  Each round is a bijection of the hash state, so two keys of equal length that
  differ in one byte only never share a slot.
\<close>

section \<open>The hash\<close>

definition offset64 :: u64 where "offset64 = 14695981039346656037"
definition prime64 :: u64 where "prime64 = 1099511628211"

definition fnvRound :: "u64 \<Rightarrow> byte \<Rightarrow> u64" where
  "fnvRound hash b = (hash XOR ucast b) * prime64"

definition Sum64 :: "gostring \<Rightarrow> u64" where
  "Sum64 key = foldl fnvRound offset64 key"

definition newDefaultHasher :: "gostring \<Rightarrow> u64" where
  "newDefaultHasher = Sum64"

section \<open>Rounds are bijections\<close>

lemma prime64_invertible: "prime64 * 14886173955864302971 = 1"
  by (simp add: prime64_def)

lemma times_prime64_inject: "a * prime64 = b * prime64 \<longleftrightarrow> a = b"
proof
  assume "a * prime64 = b * prime64"
  then have "a * (prime64 * 14886173955864302971) = b * (prime64 * 14886173955864302971)"
    by (simp only: mult.assoc [symmetric])
  then show "a = b" by (simp only: prime64_invertible mult_1_right)
qed simp

lemma xor_cancel: "(h :: u64) XOR a = h XOR b \<longleftrightarrow> a = b"
proof
  assume "h XOR a = h XOR b"
  then have "h XOR (h XOR a) = h XOR (h XOR b)" by simp
  then show "a = b" by (simp only: xor.assoc [symmetric] xor_self_eq xor.left_neutral)
qed simp

lemma fnvRound_inject_state: "fnvRound h b = fnvRound h' b \<longleftrightarrow> h = h'"
  unfolding fnvRound_def times_prime64_inject
  using xor_cancel [of "ucast b" h h'] by (simp add: xor.commute)

lemma ucast_byte_inject: "(ucast (a :: byte) :: u64) = ucast b \<longleftrightarrow> a = b"
proof
  assume "(ucast a :: u64) = ucast b"
  then have "uint (ucast a :: u64) = uint (ucast b :: u64)" by simp
  then have "uint a = uint b" by (simp add: uint_up_ucast is_up)
  then show "a = b" by (metis word_of_int_uint)
qed simp

lemma fnvRound_inject_byte: "fnvRound h a = fnvRound h b \<longleftrightarrow> a = b"
  unfolding fnvRound_def times_prime64_inject xor_cancel by (rule ucast_byte_inject)

lemma foldl_fnv_inject: "foldl fnvRound h s = foldl fnvRound h' s \<longleftrightarrow> h = h'"
  by (induction s arbitrary: h h') (simp_all add: fnvRound_inject_state)

section \<open>Properties\<close>

text \<open>
  Two keys that differ in exactly one byte have different hashes, so they never
  collide.
\<close>

lemma one_byte_never_collides:
  "Sum64 (pre @ a # post) = Sum64 (pre @ b # post) \<longleftrightarrow> a = b"
  by (simp add: Sum64_def foldl_fnv_inject fnvRound_inject_byte)

end
