(* ===== verification/CacheConfig.thy ===== *)
theory CacheConfig
  imports GoTime Fnv "HOL-Library.Signed_Division"
begin

text \<open>
  The configuration of a cache (\<^verbatim>\<open>bigcache/config.go\<close>) and the integer helpers it uses
  (\<^verbatim>\<open>bigcache/utils.go\<close>).  Go's \<^verbatim>\<open>int\<close> is a signed 64-bit integer; division by zero panics
  and truncates towards zero.  The \<^verbatim>\<open>Logger\<close> field has no model; of \<^verbatim>\<open>OnRemove\<close> the model
  keeps whether a callback is given.
\<close>

section \<open>Integers\<close>

type_synonym goint = "64 word"

definition goQuot :: "goint \<Rightarrow> goint \<Rightarrow> goint outcome" where
  "goQuot a b = (if b = 0 then Panic else Ret (word_of_int (sint a sdiv sint b)))"

definition goMax :: "goint \<Rightarrow> goint \<Rightarrow> goint" where
  "goMax a b = (if sint b < sint a then a else b)"

definition convertMBToBytes :: "goint \<Rightarrow> goint" where
  "convertMBToBytes v = v * 1024 * 1024"

definition isPowerOfTwo :: "goint \<Rightarrow> bool" where
  "isPowerOfTwo number \<longleftrightarrow> number AND (number - 1) = 0"

section \<open>The configuration\<close>

record Config =
  Shards :: goint
  LifeWindow :: duration
  CleanWindow :: duration
  MaxEntriesInWindow :: goint
  MaxEntrySize :: goint
  Verbose :: bool
  Hasher :: "(gostring \<Rightarrow> u64) option"
  HardMaxCacheSize :: goint
  OnRemove :: bool

definition minimumEntriesInShard :: goint where "minimumEntriesInShard = 10"

definition DefaultConfig :: Config where
  "DefaultConfig =
     \<lparr> Shards = 16, LifeWindow = seconds (60 * 60 * 72), CleanWindow = 0,
       MaxEntriesInWindow = 1000 * 10 * 60, MaxEntrySize = 500, Verbose = True,
       Hasher = Some newDefaultHasher, HardMaxCacheSize = 0, OnRemove = False \<rparr>"

definition initialShardSize :: "Config \<Rightarrow> goint outcome" where
  "initialShardSize c =
     obind (goQuot (MaxEntriesInWindow c) (Shards c)) (\<lambda>n. Ret (goMax n minimumEntriesInShard))"

definition maximumShardSize :: "Config \<Rightarrow> goint outcome" where
  "maximumShardSize c =
     (if 0 < sint (HardMaxCacheSize c) then goQuot (convertMBToBytes (HardMaxCacheSize c)) (Shards c)
      else Ret 0)"

definition SetShard :: "goint \<Rightarrow> Config \<Rightarrow> Config" where
  "SetShard num c = c\<lparr> Shards := num \<rparr>"

section \<open>Powers of two\<close>

lemma and_pred_even: "0 < m \<Longrightarrow> (2 * m) AND (2 * m - 1) = 2 * (m AND (m - 1))" for m :: nat
proof -
  assume "0 < m"
  then have "(2 * m - 1) div 2 = m - 1" by (cases m) simp_all
  then show ?thesis by (subst and_nat_rec) simp
qed

lemma and_pred_nat:
  "0 < n \<Longrightarrow> n AND (n - 1) = 0 \<longleftrightarrow> (\<exists>k. n = 2 ^ k)" for n :: nat
proof (induction n rule: less_induct)
  case (less n)
  show ?case
  proof (cases "even n")
    case True
    then obtain m where m: "n = 2 * m" by blast
    have "n AND (n - 1) = 0 \<longleftrightarrow> m AND (m - 1) = 0" using less.prems m and_pred_even [of m] by simp
    also have "\<dots> \<longleftrightarrow> (\<exists>k. m = 2 ^ k)" using less.IH [of m] less.prems m by simp
    also have "\<dots> \<longleftrightarrow> (\<exists>k. n = 2 ^ k)"
    proof
      assume "\<exists>k. n = 2 ^ k"
      then obtain k where "n = 2 ^ k" ..
      with m show "\<exists>k. m = 2 ^ k" by (cases k) auto
    qed (use m in \<open>auto intro: exI [of _ "Suc _"]\<close>)
    finally show ?thesis .
  next
    case False
    then obtain m where m: "n = 2 * m + 1" using oddE by blast
    have "n AND (n - 1) = 2 * m" unfolding m by (subst and_nat_rec) simp
    moreover have "(\<exists>k. n = 2 ^ k) \<longleftrightarrow> m = 0"
    proof
      assume "\<exists>k. n = 2 ^ k"
      then obtain k where "n = 2 ^ k" ..
      with m show "m = 0" by (cases k) (auto, presburger)
    qed (use m in \<open>auto intro: exI [of _ 0]\<close>)
    ultimately show ?thesis by simp
  qed
qed

lemma unat_power_of_two:
  assumes "k < 64"
  shows "unat (2 ^ k :: 64 word) = 2 ^ k"
proof -
  have "(2 :: nat) ^ k < 2 ^ 64" using assms by (rule power_strict_increasing) simp
  then have "unat (of_nat (2 ^ k) :: 64 word) = 2 ^ k" by (intro unat_of_nat_small) simp
  then show ?thesis by simp
qed

lemma isPowerOfTwo_iff: "isPowerOfTwo w \<longleftrightarrow> w = 0 \<or> (\<exists>k < 64. w = 2 ^ k)"
proof (cases "w = 0")
  case False
  then have pos: "0 < unat w" by (simp add: unat_gt_0)
  have "isPowerOfTwo w \<longleftrightarrow> unat w AND (unat w - 1) = 0"
    using False unat_minus_one [OF False]
    unfolding isPowerOfTwo_def by (metis unat_eq_zero unsigned_and_eq)
  also have "\<dots> \<longleftrightarrow> (\<exists>k. unat w = 2 ^ k)" by (rule and_pred_nat [OF pos])
  also have "\<dots> \<longleftrightarrow> (\<exists>k < 64. w = 2 ^ k)"
  proof
    assume "\<exists>k. unat w = 2 ^ k"
    then obtain k where k: "unat w = 2 ^ k" ..
    then have "(2 :: nat) ^ k < 2 ^ 64" using unsigned_less [of w, where ?'a = nat] by simp
    then have "k < 64" by (simp only: power_strict_increasing_iff)
    moreover have "w = 2 ^ k" using k by (metis of_nat_numeral of_nat_power of_nat_unat ucast_id)
    ultimately show "\<exists>k < 64. w = 2 ^ k" by blast
  qed (auto simp: unat_power_of_two)
  finally show ?thesis using False by simp
qed (simp add: isPowerOfTwo_def)

lemma mask_shard:
  assumes "k < 64"
  shows "unat (h AND (2 ^ k - 1) :: u64) = unat h mod 2 ^ k"
  by (simp add: unsigned_take_bit_eq flip: mask_eq_exp_minus_1 take_bit_eq_mask) (simp add: take_bit_eq_mod)

end
