(* ===== verification/Shard.thy ===== *)
theory Shard
  imports BytesQueue EntryEncoding TTL CacheConfig "HOL-Library.AList"
begin

text \<open>
  One shard of the cache (\<^verbatim>\<open>bigcache/shard.go\<close>).  A shard maps the hash of a key to the index of its entry in the byte queue; index zero means there is none.  The
  read-write lock is the flag \<open>locked\<close>: a call that finds it held by a call that has
  returned without releasing it blocks forever.  Clock readings are arguments.
\<close>

section \<open>The data\<close>

record Stats =
  Hits :: goint
  Misses :: goint
  DelHits :: goint
  DelMisses :: goint
  Collisions :: goint
  EvictCount :: goint

definition noStats :: Stats where
  "noStats = \<lparr> Hits = 0, Misses = 0, DelHits = 0, DelMisses = 0, Collisions = 0, EvictCount = 0 \<rparr>"

datatype cacheError = NotFound gostring | QueueErr queueError

text \<open>
  \<open>onRemove\<close> says whether a removal callback is configured; \<open>removed\<close> lists the calls made
  to it.
\<close>

record ('t, 'u, 'h) cacheShard =
  sharedNum :: u64
  hashmap :: "(u64 \<times> u32) list"
  entries :: "'t BytesQueue"
  locked :: bool
  entryBuffer :: "byte list"
  onRemove :: bool
  removed :: "(gostring \<times> byte list) list"
  lifeWindow :: u64
  stats :: Stats
  ttlTable :: "('u, 'h) ttlManager"

definition indexOf :: "u64 \<Rightarrow> ('t, 'u, 'h) cacheShard \<Rightarrow> u32" where
  "indexOf h s = (case map_of (hashmap s) h of Some i \<Rightarrow> i | None \<Rightarrow> 0)"

text \<open>A slice of the queue's array, with the capacity that slicing an array leaves it.\<close>

definition wrapped :: "('t, 'u, 'h) cacheShard \<Rightarrow> byteSlice \<Rightarrow> goSlice" where
  "wrapped s w = Slice (drop (fst w) (array (entries s))) (snd w)"

section \<open>Counters\<close>

definition hit :: "('t, 'u, 'h) cacheShard \<Rightarrow> ('t, 'u, 'h) cacheShard" where
  "hit s = s\<lparr> stats := (stats s)\<lparr> Hits := Hits (stats s) + 1 \<rparr> \<rparr>"

definition miss :: "('t, 'u, 'h) cacheShard \<Rightarrow> ('t, 'u, 'h) cacheShard" where
  "miss s = s\<lparr> stats := (stats s)\<lparr> Misses := Misses (stats s) + 1 \<rparr> \<rparr>"

definition delhit :: "('t, 'u, 'h) cacheShard \<Rightarrow> ('t, 'u, 'h) cacheShard" where
  "delhit s = s\<lparr> stats := (stats s)\<lparr> DelHits := DelHits (stats s) + 1 \<rparr> \<rparr>"

definition delmiss :: "('t, 'u, 'h) cacheShard \<Rightarrow> ('t, 'u, 'h) cacheShard" where
  "delmiss s = s\<lparr> stats := (stats s)\<lparr> DelMisses := DelMisses (stats s) + 1 \<rparr> \<rparr>"

definition collision :: "('t, 'u, 'h) cacheShard \<Rightarrow> ('t, 'u, 'h) cacheShard" where
  "collision s = s\<lparr> stats := (stats s)\<lparr> Collisions := Collisions (stats s) + 1 \<rparr> \<rparr>"

definition evictCount :: "('t, 'u, 'h) cacheShard \<Rightarrow> ('t, 'u, 'h) cacheShard" where
  "evictCount s = s\<lparr> stats := (stats s)\<lparr> EvictCount := EvictCount (stats s) + 1 \<rparr> \<rparr>"

definition getStats :: "('t, 'u, 'h) cacheShard \<Rightarrow> Stats" where
  "getStats s = stats s"

section \<open>Reading\<close>

text \<open>
  \<^verbatim>\<open>get\<close> in two phases: the part under the read lock, which ends with a slice of the array,
  and the copy of the value out of the slice, which the code makes after releasing it.
\<close>

definition get_locked ::
    "gostring \<Rightarrow> u64 \<Rightarrow> ('t, 'u, 'h) cacheShard \<Rightarrow> ((cacheError + byteSlice) \<times> ('t, 'u, 'h) cacheShard) outcome" where
  "get_locked key hashedKey s =
     (if locked s then Blocked
      else if indexOf hashedKey s = 0 then Ret (Inl (NotFound key), miss s)
      else obind (Get (uint (indexOf hashedKey s)) (entries s)) (\<lambda>r. case r of
          Inl err \<Rightarrow> Ret (Inl (QueueErr err), miss s)
        | Inr wrappedEntry \<Rightarrow>
            obind (readKeyFromEntry (wrapped s wrappedEntry)) (\<lambda>entryKey.
              if key \<noteq> entryKey then Ret (Inl (NotFound key), collision s)
              else Ret (Inr wrappedEntry, s))))"

definition get_copy :: "byteSlice \<Rightarrow> ('t, 'u, 'h) cacheShard \<Rightarrow> (byte list \<times> ('t, 'u, 'h) cacheShard) outcome" where
  "get_copy wrappedEntry s =
     (let s = hit s in obind (readEntry (wrapped s wrappedEntry)) (\<lambda>v. Ret (v, s)))"

definition shard_get ::
    "gostring \<Rightarrow> u64 \<Rightarrow> ('t, 'u, 'h) cacheShard \<Rightarrow> ((cacheError + byte list) \<times> ('t, 'u, 'h) cacheShard) outcome" where
  "shard_get key hashedKey s =
     obind (get_locked key hashedKey s) (\<lambda>(r, s). case r of
         Inl err \<Rightarrow> Ret (Inl err, s)
       | Inr wrappedEntry \<Rightarrow> obind (get_copy wrappedEntry s) (\<lambda>(v, s). Ret (Inr v, s)))"

section \<open>Writing\<close>

definition shard_delete :: "u32 \<Rightarrow> ('t, 'u, 'h) cacheShard \<Rightarrow> ('t, 'u, 'h) cacheShard outcome" where
  "shard_delete index s =
     obind (Delete (uint index) (entries s)) (\<lambda>(_, q). Ret (s\<lparr> entries := q \<rparr>))"

text \<open>\<^verbatim>\<open>resetKeyFromEntry\<close> writes through the slice into the queue's array.\<close>

definition resetKeyIn :: "byteSlice \<Rightarrow> ('t, 'u, 'h) cacheShard \<Rightarrow> ('t, 'u, 'h) cacheShard outcome" where
  "resetKeyIn w s =
     obind (resetKeyFromEntry (wrapped s w)) (\<lambda>bs. Ret (s\<lparr> entries := patch (fst w) bs (entries s) \<rparr>))"

definition NO_EXPIRY :: u64 where [simp]: "NO_EXPIRY = 0"

definition expiryTimestamp :: "u64 \<Rightarrow> duration \<Rightarrow> u64" where
  "expiryTimestamp epoch duration =
     (if duration \<noteq> NO_EXPIRY then epoch + durationSeconds duration else NO_EXPIRY)"

text \<open>The entry that the slot held before, if any, leaves the table and the queue.\<close>

definition retirePrevious ::
    "u64 \<Rightarrow> gostring \<Rightarrow> u64 \<Rightarrow> ('t, 'u, 'h) cacheShard \<Rightarrow> ('t, 'u, 'h) cacheShard outcome" where
  "retirePrevious now key hashedKey s =
     (let previousIndex = indexOf hashedKey s in
      if previousIndex = 0 then Ret s
      else obind (Get (uint previousIndex) (entries s)) (\<lambda>r. case r of
          Inl _ \<Rightarrow> Ret s
        | Inr previousEntry \<Rightarrow>
            obind (readTimestampFromEntry (wrapped s previousEntry)) (\<lambda>timestamp.
            obind (resetKeyIn previousEntry (s\<lparr> ttlTable := ttl_remove now timestamp key (ttlTable s) \<rparr>)) (\<lambda>s.
              shard_delete previousIndex s))))"

text \<open>
  \<^verbatim>\<open>set\<close>.  The error of a failed push is assigned to a variable of the inner scope, so the
  call returns time zero and no error, without releasing the lock.  \<open>now\<close> and \<open>now'\<close> are
  the readings of the wall clock the table takes in \<^verbatim>\<open>remove\<close> and \<^verbatim>\<open>put\<close>.
\<close>

definition shard_set ::
    "u64 \<Rightarrow> u64 \<Rightarrow> u64 \<Rightarrow> gostring \<Rightarrow> u64 \<Rightarrow> byte list \<Rightarrow> duration \<Rightarrow> ('t, 'u, 'h) cacheShard
     \<Rightarrow> ((u64 \<times> cacheError option) \<times> ('t, 'u, 'h) cacheShard) outcome" where
  "shard_set epoch now now' key hashedKey entry duration s =
     (let expiry = expiryTimestamp epoch duration in
      if locked s then Blocked
      else obind (retirePrevious now key hashedKey s) (\<lambda>s.
           obind (wrapEntry expiry hashedKey key entry (entryBuffer s)) (\<lambda>(w, buffer).
             let s = s\<lparr> entryBuffer := buffer \<rparr> in
           obind (Push w (entries s)) (\<lambda>(r, q).
             let s = s\<lparr> entries := q \<rparr> in
             case r of
               Inr index \<Rightarrow>
                 (let s = s\<lparr> hashmap := AList.update hashedKey (word_of_int index) (hashmap s) \<rparr>;
                      s = (if duration \<noteq> NO_EXPIRY
                           then s\<lparr> ttlTable := ttl_put now' expiry key (ttlTable s) \<rparr> else s)
                  in Ret ((expiry, None), s))
             | Inl err \<Rightarrow> Ret ((0, None), s\<lparr> locked := True \<rparr>)))))"

section \<open>Removing\<close>

text \<open>\<^verbatim>\<open>providedOnRemove\<close> and \<^verbatim>\<open>notProvidedOnRemove\<close> of \<^verbatim>\<open>bigcache.go\<close>.\<close>

definition callOnRemove :: "byteSlice \<Rightarrow> ('t, 'u, 'h) cacheShard \<Rightarrow> ('t, 'u, 'h) cacheShard outcome" where
  "callOnRemove w s =
     (if onRemove s then
        obind (readKeyFromEntry (wrapped s w)) (\<lambda>k.
        obind (readEntry (wrapped s w)) (\<lambda>v. Ret (s\<lparr> removed := removed s @ [(k, v)] \<rparr>)))
      else Ret s)"

definition dropEntry ::
    "u64 \<Rightarrow> u32 \<Rightarrow> byteSlice \<Rightarrow> ('t, 'u, 'h) cacheShard \<Rightarrow> ('t, 'u, 'h) cacheShard outcome" where
  "dropEntry hashedKey itemIndex w s =
     (let s = s\<lparr> hashmap := AList.delete hashedKey (hashmap s) \<rparr> in
      obind (callOnRemove w s) (\<lambda>s.
      obind (resetKeyIn w s) (\<lambda>s.
        shard_delete itemIndex s)))"

definition shard_del ::
    "u64 \<Rightarrow> gostring \<Rightarrow> u64 \<Rightarrow> ('t, 'u, 'h) cacheShard \<Rightarrow> (cacheError option \<times> ('t, 'u, 'h) cacheShard) outcome" where
  "shard_del now key hashedKey s =
     (let itemIndex = indexOf hashedKey s in
      if locked s then Blocked
      else if itemIndex = 0 then Ret (Some (NotFound key), delmiss s)
      else obind (Get (uint itemIndex) (entries s)) (\<lambda>r. case r of
          Inl err \<Rightarrow> Ret (Some (QueueErr err), delmiss s)
        | Inr wrappedEntry \<Rightarrow>
            obind (dropEntry hashedKey itemIndex wrappedEntry s) (\<lambda>s.
            obind (readTimestampFromEntry (wrapped s wrappedEntry)) (\<lambda>timestamp.
              Ret (None, delhit (s\<lparr> ttlTable := ttl_remove now timestamp key (ttlTable s) \<rparr>))))))"

text \<open>One round of the loop of \<^verbatim>\<open>evictDel\<close>.\<close>

definition evictKey :: "u64 \<Rightarrow> gostring \<Rightarrow> ('t, 'u, 'h) cacheShard \<Rightarrow> ('t, 'u, 'h) cacheShard outcome" where
  "evictKey timeStamp v s =
     (let s = evictCount s;
          keyHash = ShardHasher (ttlTable s) v;
          itemIndex = indexOf keyHash s
      in if itemIndex = 0 then Ret (delmiss s)
         else obind (Get (uint itemIndex) (entries s)) (\<lambda>r. case r of
             Inl err \<Rightarrow> Ret (delmiss s)
           | Inr wrappedEntry \<Rightarrow>
               obind (readTimestampFromEntry (wrapped s wrappedEntry)) (\<lambda>storedTimestamp.
                 if storedTimestamp = timeStamp
                 then obind (dropEntry keyHash itemIndex wrappedEntry s) (\<lambda>s. Ret (delhit s))
                 else Ret s)))"

fun evictKeys :: "u64 \<Rightarrow> gostring list \<Rightarrow> ('t, 'u, 'h) cacheShard \<Rightarrow> ('t, 'u, 'h) cacheShard outcome" where
  "evictKeys timeStamp [] s = Ret s"
| "evictKeys timeStamp (v # vs) s = obind (evictKey timeStamp v s) (evictKeys timeStamp vs)"

definition evictDel :: "u64 \<Rightarrow> 'h \<Rightarrow> ('t, 'u, 'h) cacheShard \<Rightarrow> ('t, 'u, 'h) cacheShard outcome" where
  "evictDel timeStamp set' s =
     (if locked s then Blocked else evictKeys timeStamp (hValues (setOps (ttlTable s)) set') s)"

section \<open>The rest of the interface\<close>

definition shard_onEvict ::
    "goSlice \<Rightarrow> u64 \<Rightarrow> (('t, 'u, 'h) cacheShard \<Rightarrow> ('t, 'u, 'h) cacheShard outcome) \<Rightarrow> ('t, 'u, 'h) cacheShard
     \<Rightarrow> (bool \<times> ('t, 'u, 'h) cacheShard) outcome" where
  "shard_onEvict oldestEntry currentTimestamp evict s =
     obind (readTimestampFromEntry oldestEntry) (\<lambda>oldestTimestamp.
       if currentTimestamp - oldestTimestamp > lifeWindow s
       then obind (evict s) (\<lambda>s. Ret (True, s)) else Ret (False, s))"

definition getOldestEntry :: "('t, 'u, 'h) cacheShard \<Rightarrow> (queueError + byteSlice) outcome" where
  "getOldestEntry s = Peek (entries s)"

definition getEntry :: "int \<Rightarrow> ('t, 'u, 'h) cacheShard \<Rightarrow> (queueError + byteSlice) outcome" where
  "getEntry index s = Get index (entries s)"

text \<open>Ranging over a map visits its pairs in an order the language leaves open: \<open>order\<close>.\<close>

definition copyKeys ::
    "((u64 \<times> u32) list \<Rightarrow> (u64 \<times> u32) list) \<Rightarrow> ('t, 'u, 'h) cacheShard \<Rightarrow> (u32 list \<times> nat) outcome" where
  "copyKeys order s =
     (if locked s then Blocked else Ret (map snd (order (hashmap s)), length (hashmap s)))"

definition removeOldestEntry ::
    "('t, 'u, 'h) cacheShard \<Rightarrow> (queueError option \<times> ('t, 'u, 'h) cacheShard) outcome" where
  "removeOldestEntry s =
     obind (Pop (entries s)) (\<lambda>(r, q).
       let s = s\<lparr> entries := q \<rparr> in
       case r of
         Inl err \<Rightarrow> Ret (Some err, s)
       | Inr oldest \<Rightarrow>
           obind (readHashFromEntry (wrapped s oldest)) (\<lambda>hash.
           obind (callOnRemove oldest (s\<lparr> hashmap := AList.delete hash (hashmap s) \<rparr>)) (\<lambda>s.
             Ret (None, s))))"

definition shard_reset :: "Config \<Rightarrow> ('t, 'u, 'h) cacheShard \<Rightarrow> ('t, 'u, 'h) cacheShard outcome" where
  "shard_reset config s =
     (if locked s then Blocked
      else obind (initialShardSize config) (\<lambda>_.
           obind (makeBytes (sint (MaxEntrySize config + of_nat headersSizeInBytes))) (\<lambda>buffer.
             Ret (s\<lparr> hashmap := [], entryBuffer := buffer, entries := Reset (entries s),
                    ttlTable := ttl_reset (ttlTable s) \<rparr>))))"

definition shard_len :: "('t, 'u, 'h) cacheShard \<Rightarrow> int outcome" where
  "shard_len s = (if locked s then Blocked else Ret (int (length (hashmap s))))"

text \<open>The caller has replaced an absent hasher by the default one.\<close>

definition initNewShard ::
    "(int, nat, 't) avltree \<Rightarrow> (u64, 'h, 'u) avltree \<Rightarrow> (gostring, 'h) hashset \<Rightarrow> u64 \<Rightarrow> Config \<Rightarrow> u64
     \<Rightarrow> ('t, 'u, 'h) cacheShard outcome" where
  "initNewShard T U H now config num =
     obind (initialShardSize config) (\<lambda>n.
     obind (maximumShardSize config) (\<lambda>maxSize.
     obind (NewBytesQueue T (sint (n * MaxEntrySize config)) (sint maxSize)) (\<lambda>q.
     obind (makeBytes (sint (MaxEntrySize config + of_nat headersSizeInBytes))) (\<lambda>buffer.
       Ret \<lparr> sharedNum = num, hashmap = [], entries = q, locked = False, entryBuffer = buffer,
             onRemove = OnRemove config, removed = [], lifeWindow = durationSeconds (LifeWindow config),
             stats = noStats,
             ttlTable = newTtlManager U H (case Hasher config of Some f \<Rightarrow> f | None \<Rightarrow> newDefaultHasher) now \<rparr>))))"

section \<open>The shard as a map from hashes to entries\<close>

text \<open>
  \<open>M\<close> is the shard's hash map, \<open>L\<close> the live entries of its queue, \<open>S\<close> what the two
  together store.  Every live entry belongs to a slot.
\<close>

definition index_rep :: "(u64 \<rightharpoonup> u32) \<Rightarrow> (int \<rightharpoonup> byte list) \<Rightarrow> slots \<Rightarrow> bool" where
  "index_rep M L S \<longleftrightarrow>
     (\<forall>h. S h = None \<longleftrightarrow> M h = None) \<and>
     (\<forall>h i ts k v. M h = Some i \<longrightarrow> S h = Some (ts, k, v) \<longrightarrow>
        length k \<le> 65517 \<and> L (uint i) = Some (encoded ts h k v)) \<and>
     (\<forall>j \<in> dom L. \<exists>h i. M h = Some i \<and> uint i = j)"

definition shard_rep :: "('t, 'u, 'h) cacheShard \<Rightarrow> slots \<Rightarrow> bool" where
  "shard_rep s S \<longleftrightarrow> \<not> locked s \<and> distinct (map fst (hashmap s)) \<and>
     (\<exists>L. q_rep (entries s) L \<and> index_rep (map_of (hashmap s)) L S)"

definition shard_inv :: "('t, 'u, 'h) cacheShard \<Rightarrow> slots \<Rightarrow> bool" where
  "shard_inv s S \<longleftrightarrow> shard_rep s S \<and> timer_inv (ttlTable s) \<and>
     et.tracks (ShardHasher (ttlTable s)) (ttlTable s) S"

lemma index_repD:
  assumes "index_rep M L S"
  shows "S h = None \<longleftrightarrow> M h = None"
    and "M h = Some i \<Longrightarrow> S h = Some (ts, k, v) \<Longrightarrow> length k \<le> 65517"
    and "M h = Some i \<Longrightarrow> S h = Some (ts, k, v) \<Longrightarrow> L (uint i) = Some (encoded ts h k v)"
    and "L j = Some d \<Longrightarrow> \<exists>h i. M h = Some i \<and> uint i = j"
  using assms unfolding index_rep_def by blast+

lemma index_repE:
  assumes "index_rep M L S" and "M h = Some i"
  obtains ts k v where "S h = Some (ts, k, v)" "length k \<le> 65517" "L (uint i) = Some (encoded ts h k v)"
proof -
  from assms index_repD(1) [OF assms(1), of h] obtain ts k v where "S h = Some (ts, k, v)"
    by (cases "S h") auto
  with that index_repD(2,3) [OF assms] show thesis by blast
qed

lemma index_rep_inj:
  assumes rep: "index_rep M L S" and "M h = Some i" and "M h' = Some i"
  shows "h = h'"
proof -
  obtain ts k v ts' k' v' where "L (uint i) = Some (encoded ts h k v)" "L (uint i) = Some (encoded ts' h' k' v')"
    using index_repE [OF rep assms(2)] index_repE [OF rep assms(3)] by metis
  then show ?thesis using encoded_inject_hash by simp blast
qed

lemma index_rep_drop:
  assumes rep: "index_rep M L S" and i: "M h = Some i"
  shows "index_rep (M(h := None)) (L(uint i := None)) (S(h := None))"
proof -
  have other: "uint j \<noteq> uint i" if "M h' = Some j" "h' \<noteq> h" for h' j
    using index_rep_inj [OF rep i, of h'] that by auto
  show ?thesis
    unfolding index_rep_def
  proof (intro conjI allI impI ballI)
    fix j assume "j \<in> dom (L(uint i := None))"
    then obtain d where d: "L j = Some d" "j \<noteq> uint i" by (auto split: if_splits)
    with index_repD(4) [OF rep d(1)] obtain h' i' where "M h' = Some i'" "uint i' = j" by blast
    with d(2) i show "\<exists>h' i'. (M(h := None)) h' = Some i' \<and> uint i' = j"
      by (intro exI [of _ h'] exI [of _ i']) auto
  qed (use index_repD [OF rep] other in \<open>auto split: if_splits\<close>)
qed

lemma index_rep_add:
  assumes rep: "index_rep M L S" and h: "M h = None" and j: "L (uint j) = None" and k: "length k \<le> 65517"
  shows "index_rep (M(h \<mapsto> j)) (L(uint j \<mapsto> encoded ts h k v)) (S(h \<mapsto> (ts, k, v)))"
proof -
  have other: "uint i \<noteq> uint j" if i: "M h' = Some i" for h' i
  proof -
    obtain ts k v where "L (uint i) = Some (encoded ts h' k v)" using index_repE [OF rep i] by metis
    with j show ?thesis by auto
  qed
  show ?thesis
    unfolding index_rep_def
  proof (intro conjI allI impI ballI)
    fix x assume "x \<in> dom (L(uint j \<mapsto> encoded ts h k v))"
    then consider "x = uint j" | d where "L x = Some d" by (auto split: if_splits)
    then show "\<exists>h' i. (M(h \<mapsto> j)) h' = Some i \<and> uint i = x"
    proof cases
      case 2
      then obtain h' i where "M h' = Some i" "uint i = x" using index_repD(4) [OF rep] by blast
      with h show ?thesis by (intro exI [of _ h'] exI [of _ i]) auto
    qed auto
  qed (use index_repD [OF rep] other k in \<open>auto split: if_splits\<close>)
qed

section \<open>Reading a slot\<close>

lemma entry_slice:
  assumes "q_rep (entries s) L" and "L i = Some d"
  obtains rest where "Get i (entries s) = Ret (Inr (nat (i + 4), length d))"
    and "wrapped s (nat (i + 4), length d) = entrySlice d rest"
proof -
  let ?o = "nat (i + 4)" and ?a = "array (entries s)"
  have get: "Get i (entries s) = Ret (Inr (?o, length d))" and seg: "segment ?o (length d) ?a = d"
    using peek_entry [OF assms] by (simp_all add: Get_def)
  have "drop ?o ?a = d @ drop (length d) (drop ?o ?a)"
    using seg unfolding segment_def by (metis append_take_drop_id)
  then show thesis by (intro that [OF get, of "drop (length d) (drop ?o ?a)"]) (simp add: wrapped_def)
qed

lemma indexOf_Some: "map_of (hashmap s) h = Some i \<Longrightarrow> indexOf h s = i"
  by (simp add: indexOf_def)

lemma indexOf_None: "map_of (hashmap s) h = None \<Longrightarrow> indexOf h s = 0"
  by (simp add: indexOf_def)

lemma slot_entry:
  assumes q: "q_rep (entries s) L" and ix: "index_rep (map_of (hashmap s)) L S" and h: "S h = Some (ts, k, v)"
  obtains i w rest where "map_of (hashmap s) h = Some i" "indexOf h s = i" "i \<noteq> 0"
    "L (uint i) = Some (encoded ts h k v)" "length k \<le> 65517"
    "w = (nat (uint i + 4), length (encoded ts h k v))"
    "Get (uint i) (entries s) = Ret (Inr w)" "wrapped s w = entrySlice (encoded ts h k v) rest"
proof -
  obtain i where i: "map_of (hashmap s) h = Some i"
    using index_repD(1) [OF ix, of h] h by (cases "map_of (hashmap s) h") auto
  have L: "L (uint i) = Some (encoded ts h k v)" and k: "length k \<le> 65517"
    using index_repD(2,3) [OF ix i h] by auto
  have "i \<noteq> 0" using q_rep_bounds(1) [OF q L] by auto
  with entry_slice [OF q L] that [OF i indexOf_Some [of s, OF i] _ L k] show thesis by metis
qed

lemma get_hit:
  assumes "shard_rep s S" and "S h = Some (ts, k, v)"
  shows "shard_get key h s =
    (if k = key then Ret (Inr v, hit s) else Ret (Inl (NotFound key), collision s))"
proof -
  from assms(1) obtain L where "\<not> locked s" "q_rep (entries s) L" "index_rep (map_of (hashmap s)) L S"
    unfolding shard_rep_def by blast
  with slot_entry [OF this(2,3) assms(2)] obtain i w rest where
    "\<not> locked s" "indexOf h s = i" "i \<noteq> 0" "length k \<le> 65517" "Get (uint i) (entries s) = Ret (Inr w)"
    "wrapped s w = entrySlice (encoded ts h k v) rest" by metis
  moreover have "wrapped (hit s) w = wrapped s w" by (simp add: wrapped_def hit_def)
  ultimately show ?thesis
    using readKey_encoded [of k ts h v rest] readEntry_encoded [of k ts h v rest]
    by (auto simp: shard_get_def get_locked_def get_copy_def)
qed

lemma slot_none:
  assumes "shard_rep s S" and "S h = None"
  shows "indexOf h s = 0" and "\<not> locked s"
proof -
  from assms(1) obtain L where "\<not> locked s" "index_rep (map_of (hashmap s)) L S"
    unfolding shard_rep_def by blast
  then show "indexOf h s = 0" and "\<not> locked s"
    using index_repD(1) [of _ L S h] assms(2) by (auto intro: indexOf_None)
qed

lemma get_miss:
  "shard_rep s S \<Longrightarrow> S h = None \<Longrightarrow> shard_get key h s = Ret (Inl (NotFound key), miss s)"
  using slot_none [of s S h] by (simp add: shard_get_def get_locked_def)

section \<open>Retiring an entry\<close>

lemma wrapped_ttl [simp]: "wrapped (s\<lparr> ttlTable := t \<rparr>) w = wrapped s w"
  by (simp add: wrapped_def)

text \<open>Zeroing the hash of an entry and deleting it; the freed bytes still hold the timestamp.\<close>

lemma retire_entry_bytes:
  assumes q: "q_rep (entries s) L" and L: "L (uint i) = Some (encoded ts h k v)"
    and w: "w = (nat (uint i + 4), length (encoded ts h k v))"
  shows "\<exists>q'. obind (resetKeyIn w s) (shard_delete i) = Ret (s\<lparr> entries := q' \<rparr>) \<and>
    q_rep q' (L(uint i := None)) \<and> readTimestampFromEntry (wrapped (s\<lparr> entries := q' \<rparr>) w) = Ret ts \<and>
    maxCapacity q' = maxCapacity (entries s) \<and> capacity q' = capacity (entries s)"
proof -
  let ?d = "encoded ts h k v" and ?d' = "encoded ts 0 k v"
  let ?q1 = "patch (fst w) ?d' (entries s)"
  obtain rest where g: "Get (uint i) (entries s) = Ret (Inr w)" "wrapped s w = entrySlice ?d rest"
    using entry_slice [OF q L] w by metis
  have reset: "resetKeyIn w s = Ret (s\<lparr> entries := ?q1 \<rparr>)"
    using g(2) resetKey_encoded [of ts h k v rest] by (simp add: resetKeyIn_def)
  have "q_rep (patch (fst w + 0) ?d' (entries s)) (L(uint i \<mapsto> overwrite 0 ?d' ?d))"
    by (rule qs.poke_entry [OF q L g(1)]) simp
  then have q1: "q_rep ?q1 (L(uint i \<mapsto> ?d'))" by (simp add: overwrite_0)
  from Delete_entry [OF q1, of "uint i" ?d'] obtain q' where q':
    "Delete (uint i) ?q1 = Ret (None, q')" "q_rep q' (L(uint i := None))"
    "q' = ?q1\<lparr> freelist := freelist q', count := count q' \<rparr>" by auto
  have fields: "array q' = array ?q1" "maxCapacity q' = maxCapacity (entries s)" "capacity q' = capacity (entries s)"
    by (subst q'(3), simp add: patch_def)+
  obtain rest' where "wrapped (s\<lparr> entries := ?q1 \<rparr>) w = entrySlice ?d' rest'"
    using entry_slice [of "s\<lparr> entries := ?q1 \<rparr>" "L(uint i \<mapsto> ?d')" "uint i" ?d'] q1 w by auto
  then have "readTimestampFromEntry (wrapped (s\<lparr> entries := q' \<rparr>) w) = Ret ts"
    using readTimestamp_encoded [of ts 0 k v rest'] by (simp add: wrapped_def fields(1))
  with reset q' fields show ?thesis by (intro exI [of _ q']) (simp add: shard_delete_def)
qed

lemma callOnRemove_entry:
  assumes "wrapped s w = entrySlice (encoded ts h k v) rest" and "length k \<le> 65517"
  shows "callOnRemove w s = Ret (s\<lparr> removed := removed s @ (if onRemove s then [(k, v)] else []) \<rparr>)"
  using assms readKey_encoded [OF assms(2), of ts h v rest] readEntry_encoded [OF assms(2), of ts h v rest]
  by (simp add: callOnRemove_def)

text \<open>What remains of the shard when the entry of slot \<open>h\<close> is dropped.\<close>

definition dropped :: "u64 \<Rightarrow> gostring \<Rightarrow> byte list \<Rightarrow> 't BytesQueue \<Rightarrow> ('t, 'u, 'h) cacheShard \<Rightarrow> ('t, 'u, 'h) cacheShard" where
  "dropped h k v q s = s\<lparr> hashmap := AList.delete h (hashmap s),
     removed := removed s @ (if onRemove s then [(k, v)] else []), entries := q \<rparr>"

lemma dropEntry_slot:
  assumes rep: "shard_rep s S" and h: "S h = Some (ts, k, v)"
  obtains q' w rest where "indexOf h s \<noteq> 0" "Get (uint (indexOf h s)) (entries s) = Ret (Inr w)"
    "wrapped s w = entrySlice (encoded ts h k v) rest"
    "dropEntry h (indexOf h s) w s = Ret (dropped h k v q' s)"
    "shard_rep (dropped h k v q' s) (S(h := None))"
    "readTimestampFromEntry (wrapped (dropped h k v q' s) w) = Ret ts"
proof -
  from rep obtain L where lk: "\<not> locked s" "distinct (map fst (hashmap s))"
    and q: "q_rep (entries s) L" and ix: "index_rep (map_of (hashmap s)) L S"
    unfolding shard_rep_def by blast
  obtain i w rest where sl: "map_of (hashmap s) h = Some i" "indexOf h s = i" "i \<noteq> 0"
    "L (uint i) = Some (encoded ts h k v)" "length k \<le> 65517" "w = (nat (uint i + 4), length (encoded ts h k v))"
    "Get (uint i) (entries s) = Ret (Inr w)" "wrapped s w = entrySlice (encoded ts h k v) rest"
    using slot_entry [OF q ix h] by metis
  let ?s1 = "s\<lparr> hashmap := AList.delete h (hashmap s), removed := removed s @ (if onRemove s then [(k, v)] else []) \<rparr>"
  have "callOnRemove w (s\<lparr> hashmap := AList.delete h (hashmap s) \<rparr>) = Ret ?s1"
    using callOnRemove_entry [of "s\<lparr> hashmap := AList.delete h (hashmap s) \<rparr>" w ts h k v rest] sl(5,8)
    by (simp add: wrapped_def)
  moreover from retire_entry_bytes [of ?s1 L, OF _ sl(4,6)] q obtain q' where q':
    "obind (resetKeyIn w ?s1) (shard_delete i) = Ret (?s1\<lparr> entries := q' \<rparr>)" "q_rep q' (L(uint i := None))"
    "readTimestampFromEntry (wrapped (?s1\<lparr> entries := q' \<rparr>) w) = Ret ts" by auto
  ultimately have "dropEntry h i w s = Ret (dropped h k v q' s)"
    by (simp add: dropEntry_def dropped_def)
  moreover have "shard_rep (dropped h k v q' s) (S(h := None))"
    unfolding shard_rep_def
    using lk q'(2) index_rep_drop [OF ix sl(1)]
    by (auto simp: dropped_def delete_conv' distinct_delete)
  moreover have "readTimestampFromEntry (wrapped (dropped h k v q' s) w) = Ret ts"
    using q'(3) by (simp add: dropped_def)
  ultimately show thesis using that sl(2,3,7,8) by blast
qed

section \<open>Deleting\<close>

lemma del_hit:
  assumes inv: "shard_inv s S" and h: "S h = Some (ts, k, v)" and key: "ShardHasher (ttlTable s) key = h"
  shows "\<exists>s'. shard_del now key h s = Ret (None, s') \<and> shard_inv s' (S(h := None)) \<and>
    removed s' = removed s @ (if onRemove s then [(k, v)] else []) \<and> onRemove s' = onRemove s \<and>
    ShardHasher (ttlTable s') = ShardHasher (ttlTable s) \<and>
    stats s' = (stats s)\<lparr> DelHits := DelHits (stats s) + 1 \<rparr>"
proof -
  from inv have rep: "shard_rep s S" and t: "timer_inv (ttlTable s)"
    and tr: "et.tracks (ShardHasher (ttlTable s)) (ttlTable s) S" by (auto simp: shard_inv_def)
  obtain q' w rest where d: "indexOf h s \<noteq> 0" "Get (uint (indexOf h s)) (entries s) = Ret (Inr w)"
    "dropEntry h (indexOf h s) w s = Ret (dropped h k v q' s)"
    "shard_rep (dropped h k v q' s) (S(h := None))"
    "readTimestampFromEntry (wrapped (dropped h k v q' s) w) = Ret ts"
    using dropEntry_slot [OF rep h] by metis
  let ?m = "ttl_remove now ts key (ttlTable s)"
  let ?s' = "delhit ((dropped h k v q' s)\<lparr> ttlTable := ?m \<rparr>)"
  have m: "ttlTable (dropped h k v q' s) = ttlTable s" by (simp add: dropped_def)
  have "shard_del now key h s = Ret (None, ?s')"
    using d rep by (simp add: shard_del_def shard_rep_def m)
  moreover have "shard_rep ?s' (S(h := None))"
    using d(4) by (simp add: shard_rep_def delhit_def)
  moreover have "timer_inv ?m" by (rule ttl_remove_timer [OF tracks_laws [OF tr] t])
  moreover have "et.tracks (ShardHasher (ttlTable s)) ?m (S(h := None))"
    by (rule et.tracks_remove [OF tr key])
  ultimately show ?thesis
    by (intro exI [of _ ?s']) (simp add: shard_inv_def delhit_def dropped_def)
qed

lemma del_miss:
  "shard_rep s S \<Longrightarrow> S h = None \<Longrightarrow> shard_del now key h s = Ret (Some (NotFound key), delmiss s)"
  using slot_none [of s S h] by (simp add: shard_del_def)

section \<open>Setting\<close>

lemma retirePrevious_slot:
  assumes inv: "shard_inv s S" and key: "ShardHasher (ttlTable s) key = h"
  obtains q' m' L where "retirePrevious now key h s = Ret (s\<lparr> ttlTable := m', entries := q' \<rparr>)"
    "q_rep q' L" "index_rep ((map_of (hashmap s))(h := None)) L (S(h := None))"
    "et.tracks (ShardHasher (ttlTable s)) m' (S(h := None))" "timer_inv m'"
    "ShardHasher m' = ShardHasher (ttlTable s)"
    "maxCapacity q' = maxCapacity (entries s)" "capacity q' = capacity (entries s)"
proof -
  from inv obtain L where q: "q_rep (entries s) L" and ix: "index_rep (map_of (hashmap s)) L S"
    and t: "timer_inv (ttlTable s)" and tr: "et.tracks (ShardHasher (ttlTable s)) (ttlTable s) S"
    by (auto simp: shard_inv_def shard_rep_def)
  show thesis
  proof (cases "S h")
    case None
    then have M: "map_of (hashmap s) h = None" using index_repD(1) [OF ix] by blast
    have "retirePrevious now key h s = Ret (s\<lparr> ttlTable := ttlTable s, entries := entries s \<rparr>)"
      using M by (simp add: retirePrevious_def indexOf_None)
    moreover have "S(h := None) = S" "(map_of (hashmap s))(h := None) = map_of (hashmap s)"
      using None M by (simp_all add: fun_upd_idem)
    ultimately show thesis using that [of "entries s" "ttlTable s"] q ix t tr by simp
  next
    case (Some e)
    obtain ts k v where e: "e = (ts, k, v)" by (cases e)
    obtain i w rest where sl: "map_of (hashmap s) h = Some i" "indexOf h s = i" "i \<noteq> 0"
      "L (uint i) = Some (encoded ts h k v)" "w = (nat (uint i + 4), length (encoded ts h k v))"
      "Get (uint i) (entries s) = Ret (Inr w)" "wrapped s w = entrySlice (encoded ts h k v) rest"
      using slot_entry [OF q ix Some [unfolded e]] by metis
    let ?m = "ttl_remove now ts key (ttlTable s)"
    from retire_entry_bytes [of "s\<lparr> ttlTable := ?m \<rparr>" L, OF _ sl(4,5)] q obtain q' where q':
      "obind (resetKeyIn w (s\<lparr> ttlTable := ?m \<rparr>)) (shard_delete i) = Ret (s\<lparr> ttlTable := ?m, entries := q' \<rparr>)"
      "q_rep q' (L(uint i := None))" "maxCapacity q' = maxCapacity (entries s)"
      "capacity q' = capacity (entries s)" by auto
    have "retirePrevious now key h s = Ret (s\<lparr> ttlTable := ?m, entries := q' \<rparr>)"
      using sl q'(1) readTimestamp_encoded [of ts h k v rest] by (simp add: retirePrevious_def)
    moreover have "timer_inv ?m" by (rule ttl_remove_timer [OF tracks_laws [OF tr] t])
    ultimately show thesis
      using that q'(2-4) index_rep_drop [OF ix sl(1)] et.tracks_remove [OF tr key] by simp
  qed
qed

lemma index_fits:
  assumes "1 \<le> i" and "i < 2 ^ 32"
  shows "uint (word_of_int i :: u32) = i"
  using assms by (simp add: uint_word_of_int)

text \<open>The invariant after a push that succeeded.\<close>

lemma pushed_slot:
  assumes lk: "\<not> locked s" "distinct (map fst (hashmap s))" and key: "ShardHasher (ttlTable s) key = h" "length key \<le> 65517"
    and ix: "index_rep ((map_of (hashmap s))(h := None)) L (S(h := None))"
    and tr: "et.tracks (ShardHasher (ttlTable s)) m (S(h := None))" and t: "timer_inv m" "ShardHasher m = ShardHasher (ttlTable s)"
    and push: "L i = None" "q_rep q (L(i \<mapsto> encoded ts h key entry))" "capacity q \<le> 2 ^ 32" and ts: "ts = expiryTimestamp epoch d"
  shows "shard_inv (s\<lparr> ttlTable := if d \<noteq> 0 then ttl_put now ts key m else m, entries := q, entryBuffer := buf,
    hashmap := AList.update h (word_of_int i) (hashmap s) \<rparr>) (S(h \<mapsto> (ts, key, entry)))" (is "shard_inv ?s ?S")
proof -
  let ?m = "if d \<noteq> 0 then ttl_put now ts key m else m"
  have "uint (word_of_int i :: u32) = i"
    using qs.index_limit [OF push(2), of i "encoded ts h key entry"] push(3) by (intro index_fits) auto
  then have "index_rep (map_of (hashmap ?s)) (L(i \<mapsto> encoded ts h key entry)) ?S"
    using index_rep_add [OF ix, of h "word_of_int i" key ts entry] push(1) key(2) by (simp add: update_conv')
  then have "shard_rep ?s ?S" unfolding shard_rep_def using lk push(2) by (auto simp: distinct_update)
  moreover have "timer_inv ?m" using t(1) ttl_put_timer [OF tracks_laws [OF tr] t(1)] by simp
  moreover have "et.tracks (ShardHasher (ttlTable s)) ?m ?S"
    using et.tracks_put [OF tr key(1), of now ts entry] et.tracks_forever [OF tr key(1), of entry]
    by (cases "d = 0") (simp_all add: ts expiryTimestamp_def)
  ultimately show ?thesis using t(2) by (simp add: shard_inv_def split: if_splits)
qed

lemma set_slot:
  assumes inv: "shard_inv s S" and key: "ShardHasher (ttlTable s) key = h"
    and len: "length key \<le> 65517" "18 + length key + length entry < 2 ^ 32"
    and ts_def: "ts = expiryTimestamp epoch d"
  shows "(\<exists>s'. shard_set epoch now now' key h entry d s = Ret ((ts, None), s') \<and>
      (capacity (entries s') \<le> 2 ^ 32 \<longrightarrow> shard_inv s' (S(h \<mapsto> (ts, key, entry)))) \<and>
      ShardHasher (ttlTable s') = ShardHasher (ttlTable s) \<and> removed s' = removed s \<and>
      onRemove s' = onRemove s \<and> stats s' = stats s \<and>
      maxCapacity (entries s') = maxCapacity (entries s) \<and>
      (0 < maxCapacity (entries s) \<longrightarrow>
        capacity (entries s') \<le> max (capacity (entries s)) (maxCapacity (entries s)))) \<or>
    (\<exists>s'. shard_set epoch now now' key h entry d s = Ret ((0, None), s') \<and> locked s' \<and>
      0 < maxCapacity (entries s) \<and>
      maxCapacity (entries s) \<le> capacity (entries s) + 22 + int (length key) + int (length entry))"
proof -
  let ?d = "encoded ts h key entry"
  have lk: "\<not> locked s" "distinct (map fst (hashmap s))" using inv by (auto simp: shard_inv_def shard_rep_def)
  obtain q1 m1 L where r: "retirePrevious now key h s = Ret (s\<lparr> ttlTable := m1, entries := q1 \<rparr>)"
    and q1: "q_rep q1 L" and ix: "index_rep ((map_of (hashmap s))(h := None)) L (S(h := None))"
    and tr: "et.tracks (ShardHasher (ttlTable s)) m1 (S(h := None))" and t: "timer_inv m1"
    and f: "ShardHasher m1 = ShardHasher (ttlTable s)" "maxCapacity q1 = maxCapacity (entries s)"
      "capacity q1 = capacity (entries s)"
    using retirePrevious_slot [OF inv key] by metis
  obtain buf where w: "wrapEntry ts h key entry (entryBuffer s) = Ret (?d, buf)"
    using wrapEntry_encoded by blast
  have d: "?d \<noteq> []" "length ?d < 2 ^ 32" using len by (auto simp flip: length_greater_0_conv)
  consider (full) "Push ?d q1 = Ret (Inl FullQueue, q1)" "0 < maxCapacity q1"
      "maxCapacity q1 \<le> capacity q1 + 4 + int (length ?d)"
    | (ok) i q2 where "Push ?d q1 = Ret (Inr i, q2)" "L i = None" "q_rep q2 (L(i \<mapsto> ?d))"
      "maxCapacity q2 = maxCapacity q1"
      "0 < maxCapacity q1 \<longrightarrow> capacity q2 \<le> max (capacity q1) (maxCapacity q1)"
    using Push_rep [OF q1 d] by blast
  then show ?thesis
  proof cases
    case full
    then show ?thesis
      using lk r w f by (intro disjI2) (simp add: shard_set_def Let_def flip: ts_def)
  next
    case ok
    let ?m = "if d \<noteq> 0 then ttl_put now' ts key m1 else m1"
    let ?hm = "AList.update h (word_of_int i) (hashmap s)"
    let ?s = "s\<lparr> ttlTable := ?m, entries := q2, entryBuffer := buf, hashmap := ?hm \<rparr>"
    have run: "shard_set epoch now now' key h entry d s = Ret ((ts, None), ?s)"
      using lk r w ok(1) by (simp add: shard_set_def Let_def flip: ts_def)
    have "shard_inv ?s (S(h \<mapsto> (ts, key, entry)))" if "capacity q2 \<le> 2 ^ 32"
      using pushed_slot [OF lk key len(1) ix tr t f(1) ok(2,3) that ts_def] .
    with run ok(4,5) f show ?thesis by (intro disjI1) (auto simp del: max.bounded_iff)
  qed
qed

section \<open>Evicting\<close>

text \<open>The slots that survive when the keys \<open>V\<close> are evicted for time \<open>ts\<close>.\<close>

definition evicted :: "(gostring \<Rightarrow> u64) \<Rightarrow> u64 \<Rightarrow> gostring set \<Rightarrow> slots \<Rightarrow> slots" where
  "evicted hasher ts V S = (\<lambda>h. case S h of
     None \<Rightarrow> None
   | Some e \<Rightarrow> if fst e = ts \<and> h \<in> hasher ` V then None else Some e)"

lemma evicted_empty [simp]: "evicted hasher ts {} S = S"
  by (auto simp: evicted_def fun_eq_iff split: option.split)

lemma evicted_insert: "evicted hasher ts (insert v V) S = evicted hasher ts V (evicted hasher ts {v} S)"
  by (auto simp: evicted_def fun_eq_iff split: option.split)

lemma evicted_le: "evicted hasher ts V S \<subseteq>\<^sub>m S"
  by (auto simp: evicted_def map_le_def split: option.splits if_splits)

lemma evicted_one:
  "evicted hasher ts {v} S = (case S (hasher v) of
     Some e \<Rightarrow> if fst e = ts then S(hasher v := None) else S
   | None \<Rightarrow> S)"
  by (auto simp: evicted_def fun_eq_iff split: option.split)

lemma evictKey_rep:
  assumes rep: "shard_rep s S"
  shows "\<exists>s'. evictKey ts key s = Ret s' \<and> shard_rep s' (evicted (ShardHasher (ttlTable s)) ts {key} S) \<and>
    ttlTable s' = ttlTable s \<and> onRemove s' = onRemove s \<and>
    EvictCount (stats s') = EvictCount (stats s) + 1"
proof -
  let ?h = "ShardHasher (ttlTable s) key" and ?s = "evictCount s"
  have rep': "shard_rep ?s S" using rep by (simp add: shard_rep_def evictCount_def)
  have keep: "ttlTable ?s = ttlTable s" "onRemove ?s = onRemove s" "indexOf h ?s = indexOf h s" for h
    by (simp_all add: evictCount_def indexOf_def)
  show ?thesis
  proof (cases "S ?h")
    case None
    then have "indexOf ?h s = 0" by (rule slot_none [OF rep])
    then have "evictKey ts key s = Ret (delmiss ?s)" by (simp add: evictKey_def Let_def keep)
    with None rep' show ?thesis
      by (simp add: evicted_one shard_rep_def delmiss_def evictCount_def)
  next
    case (Some e)
    obtain ts' k v where e: "e = (ts', k, v)" by (cases e)
    obtain q' w rest where d: "indexOf ?h ?s \<noteq> 0" "Get (uint (indexOf ?h ?s)) (entries ?s) = Ret (Inr w)"
      "wrapped ?s w = entrySlice (encoded ts' ?h k v) rest"
      "dropEntry ?h (indexOf ?h ?s) w ?s = Ret (dropped ?h k v q' ?s)"
      "shard_rep (dropped ?h k v q' ?s) (S(?h := None))"
      using dropEntry_slot [OF rep' Some [unfolded e]] by metis
    have run: "evictKey ts key s = (if ts' = ts then Ret (delhit (dropped ?h k v q' ?s)) else Ret ?s)"
      using d readTimestamp_encoded [of ts' ?h k v rest] by (simp add: evictKey_def Let_def keep)
    have "shard_rep (delhit (dropped ?h k v q' ?s)) (S(?h := None))"
      using d(5) by (simp add: shard_rep_def delhit_def)
    with run Some e rep' show ?thesis
      by (auto simp: evicted_one delhit_def dropped_def evictCount_def)
  qed
qed

lemma evictKeys_rep:
  "shard_rep s S \<Longrightarrow>
   \<exists>s'. evictKeys ts vs s = Ret s' \<and> shard_rep s' (evicted (ShardHasher (ttlTable s)) ts (set vs) S) \<and>
     ttlTable s' = ttlTable s \<and> onRemove s' = onRemove s \<and>
     EvictCount (stats s') = EvictCount (stats s) + of_nat (length vs)"
proof (induction vs arbitrary: s S)
  case (Cons v vs)
  obtain s1 where s1: "evictKey ts v s = Ret s1" "shard_rep s1 (evicted (ShardHasher (ttlTable s)) ts {v} S)"
    "ttlTable s1 = ttlTable s" "onRemove s1 = onRemove s" "EvictCount (stats s1) = EvictCount (stats s) + 1"
    using evictKey_rep [OF Cons.prems] by metis
  have "evicted (ShardHasher (ttlTable s)) ts (set (v # vs)) S =
      evicted (ShardHasher (ttlTable s)) ts (set vs) (evicted (ShardHasher (ttlTable s)) ts {v} S)"
    using evicted_insert [of _ ts v "set vs" S] by simp
  with Cons.IH [OF s1(2)] s1 show ?case by (auto simp: add.assoc)
qed simp

lemma evictDel_rep:
  assumes "shard_rep s S"
  shows "\<exists>s'. evictDel ts hs s = Ret s' \<and>
    shard_rep s' (evicted (ShardHasher (ttlTable s)) ts (hElems (setOps (ttlTable s)) hs) S) \<and>
    ttlTable s' = ttlTable s \<and> onRemove s' = onRemove s \<and>
    EvictCount (stats s') = EvictCount (stats s) + of_nat (length (hValues (setOps (ttlTable s)) hs))"
  using evictKeys_rep [OF assms, of ts "hValues (setOps (ttlTable s)) hs"] assms
  by (simp add: evictDel_def shard_rep_def)

section \<open>A new shard\<close>

definition sized :: "Config \<Rightarrow> bool" where
  "sized config \<longleftrightarrow> 0 < sint (Shards config) \<and>
     (\<forall>n. initialShardSize config = Ret n \<longrightarrow> 1 \<le> sint (n * MaxEntrySize config)) \<and>
     0 \<le> sint (MaxEntrySize config + 18)"

definition hasherOf :: "Config \<Rightarrow> gostring \<Rightarrow> u64" where
  "hasherOf config = (case Hasher config of Some f \<Rightarrow> f | None \<Rightarrow> newDefaultHasher)"

lemma tracks_new: "avltree_laws U \<Longrightarrow> hashset_laws H \<Longrightarrow> et.tracks f (newTtlManager U H f now) Map.empty"
  by (rule et.tracksI [OF ttl_rep_new]) simp_all

lemma initNewShard_inv:
  assumes laws: "avltree_laws T" "avltree_laws U" "hashset_laws H" and config: "sized config"
  shows "\<exists>s. initNewShard T U H now config num = Ret s \<and> shard_inv s Map.empty \<and>
    ShardHasher (ttlTable s) = hasherOf config \<and> onRemove s = OnRemove config \<and> removed s = [] \<and>
    stats s = noStats \<and> (\<exists>m. maximumShardSize config = Ret m \<and> maxCapacity (entries s) = sint m)"
proof -
  have nz: "Shards config \<noteq> 0" using config by (auto simp: sized_def)
  then obtain n where n: "initialShardSize config = Ret n"
    by (simp add: initialShardSize_def goQuot_def)
  obtain m where m: "maximumShardSize config = Ret m"
    using nz by (cases "maximumShardSize config") (auto simp: maximumShardSize_def goQuot_def split: if_splits)
  have "1 \<le> sint (n * MaxEntrySize config)" using config n by (simp add: sized_def)
  from q_rep_new [OF laws(1) this] obtain q where q:
    "NewBytesQueue T (sint (n * MaxEntrySize config)) (sint m) = Ret q" "q_rep q Map.empty" by blast
  from q(1) have mc: "maxCapacity q = sint m"
    by (auto simp: NewBytesQueue_def makeBytes_def split: if_splits)
  obtain buf where buf: "makeBytes (sint (MaxEntrySize config + 18)) = Ret buf"
    using config by (simp add: makeBytes_def sized_def)
  have "index_rep Map.empty Map.empty Map.empty" by (simp add: index_rep_def)
  with n m q mc buf tracks_new [OF laws(2,3)] timer_inv_new [OF laws(2)] show ?thesis
    by (auto simp: initNewShard_def shard_inv_def shard_rep_def newTtlManager_def hasherOf_def
        simp del: fun_upd_apply)
qed

section \<open>Properties\<close>

text \<open>A small configuration, and a shard with one entry, for concrete runs.\<close>

definition smallConfig :: Config where
  "smallConfig = \<lparr> Shards = 1, LifeWindow = 0, CleanWindow = 0, MaxEntriesInWindow = 10, MaxEntrySize = 32,
     Verbose = False, Hasher = None, HardMaxCacheSize = 0, OnRemove = True \<rparr>"

lemma sized_smallConfig: "sized smallConfig"
proof -
  have "initialShardSize smallConfig = Ret 10" by code_simp
  moreover have "sint (10 * MaxEntrySize smallConfig) = 320" "sint (MaxEntrySize smallConfig + 18) = 50"
    "sint (Shards smallConfig) = 1" by code_simp+
  ultimately show ?thesis by (simp add: sized_def)
qed

abbreviation smallShard :: "((int, nat) RBT.rbt, (u64, gostring list) RBT.rbt, gostring list) cacheShard outcome" where
  "smallShard \<equiv> initNewShard rbt_tree rbt_tree list_set 100 smallConfig 1"

abbreviation smallSet ::
    "((int, nat) RBT.rbt, (u64, gostring list) RBT.rbt, gostring list) cacheShard
     \<Rightarrow> ((u64 \<times> cacheError option) \<times> ((int, nat) RBT.rbt, (u64, gostring list) RBT.rbt, gostring list) cacheShard) outcome" where
  "smallSet \<equiv> shard_set 100 100 100 [107] (Sum64 [107]) [1, 2, 3] (seconds 50)"

lemma smallShard_inv:
  obtains s where "smallShard = Ret s" "shard_inv s Map.empty" "ShardHasher (ttlTable s) = Sum64"
    "onRemove s" "removed s = []" "maxCapacity (entries s) = 0"
proof -
  have "maximumShardSize smallConfig = Ret 0" by code_simp
  moreover have "hasherOf smallConfig = Sum64" "OnRemove smallConfig"
    by (simp_all add: hasherOf_def smallConfig_def newDefaultHasher_def)
  ultimately show thesis
    using that initNewShard_inv [OF rbt_tree_laws rbt_tree_laws list_set_laws sized_smallConfig, of 100 1]
    by auto
qed

lemma smallSet_inv:
  obtains s s' where "smallShard = Ret s" "smallSet s = Ret ((150, None), s')"
    "shard_inv s' [Sum64 [107] \<mapsto> (150, [107], [1, 2, 3])]" "ShardHasher (ttlTable s') = Sum64"
    "onRemove s'" "removed s' = []"
proof -
  obtain s where s: "smallShard = Ret s" "shard_inv s Map.empty" "ShardHasher (ttlTable s) = Sum64"
    "onRemove s" "removed s = []" "maxCapacity (entries s) = 0" by (rule smallShard_inv)
  have ts: "150 = expiryTimestamp 100 (seconds 50)" by code_simp
  from set_slot [OF s(2) _ _ _ ts, of "[107]" "Sum64 [107]" "[1, 2, 3]" 100 100] s(3,6)
  obtain s' where s': "smallSet s = Ret ((150, None), s')"
    "capacity (entries s') \<le> 2 ^ 32 \<longrightarrow> shard_inv s' [Sum64 [107] \<mapsto> (150, [107], [1, 2, 3])]"
    "ShardHasher (ttlTable s') = Sum64" "removed s' = []" "onRemove s'" using s(4,5) by auto
  have "obind smallShard (\<lambda>s. obind (smallSet s) (\<lambda>r. Ret (capacity (entries (snd r))))) = Ret 320" by code_simp
  with s(1) s'(1) have "capacity (entries s') = 320" by simp
  with that s(1) s' show thesis by simp
qed

text \<open>
  \<^verbatim>\<open>get\<close> on a consistent shard never panics, blocks or changes what is stored: it returns
  the value when the slot of the hash holds this key, reports the key as not found when
  the slot is empty or holds another key, and counts a hit, a miss or a collision.
\<close>

lemma get_returns_stored:
  assumes "shard_inv s S"
  shows "shard_get key h s = (case S h of
      None \<Rightarrow> Ret (Inl (NotFound key), miss s)
    | Some (ts, k, v) \<Rightarrow>
        if k = key then Ret (Inr v, hit s) else Ret (Inl (NotFound key), collision s))"
  using assms get_hit [of s S h] get_miss [of s S h key]
  by (auto simp: shard_inv_def split: option.split)

text \<open>
  C2.  \<^verbatim>\<open>set\<close> on a consistent shard, for a key of at most 65517 bytes and an entry below
  4 GiB, does one of two things.  It stores the entry in the slot of the key's hash with
  the expiry time it returns, leaves every other slot as it was, keeps the expiry table in
  step, and does not let the queue grow past its maximum (as long as the queue stays below
  4 GiB, so that its indexes fit the map).  Or the queue is full, a maximum being set: then
  it returns time zero without an error and leaves the lock held.
\<close>

theorem set_stores_or_wedges:
  assumes "shard_inv s S" and "ShardHasher (ttlTable s) key = h"
    and "length key \<le> 65517" and "18 + length key + length entry < 2 ^ 32"
  shows "(\<exists>s'. shard_set epoch now now' key h entry d s = Ret ((expiryTimestamp epoch d, None), s') \<and>
      (capacity (entries s') \<le> 2 ^ 32 \<longrightarrow> shard_inv s' (S(h \<mapsto> (expiryTimestamp epoch d, key, entry)))) \<and>
      (0 < maxCapacity (entries s) \<longrightarrow>
        capacity (entries s') \<le> max (capacity (entries s)) (maxCapacity (entries s)))) \<or>
    (\<exists>s'. shard_set epoch now now' key h entry d s = Ret ((0, None), s') \<and> locked s' \<and>
      0 < maxCapacity (entries s) \<and>
      maxCapacity (entries s) \<le> capacity (entries s) + 22 + int (length key) + int (length entry))"
  using set_slot [OF assms refl, of epoch now now' d] by blast

theorem set_stores_or_wedges_witness:
  "\<exists>s s'. smallShard = Ret s \<and> smallSet s = Ret ((150, None), s') \<and>
     shard_inv s' [Sum64 [107] \<mapsto> (150, [107], [1, 2, 3])]"
proof -
  obtain s where s: "smallShard = Ret s" "shard_inv s Map.empty" "ShardHasher (ttlTable s) = Sum64"
    "maxCapacity (entries s) = 0" by (rule smallShard_inv)
  have ts: "expiryTimestamp 100 (seconds 50) = 150" by code_simp
  from set_stores_or_wedges [OF s(2), of "[107]" "Sum64 [107]" "[1, 2, 3]" 100 100 100 "seconds 50"] s(3,4) ts
  obtain s' where s': "smallSet s = Ret ((150, None), s')"
    "capacity (entries s') \<le> 2 ^ 32 \<longrightarrow> shard_inv s' [Sum64 [107] \<mapsto> (150, [107], [1, 2, 3])]" by auto
  have "obind smallShard (\<lambda>s. obind (smallSet s) (\<lambda>r. Ret (capacity (entries (snd r))))) = Ret 320" by code_simp
  with s(1) s' show ?thesis by simp
qed

text \<open>
  \<^verbatim>\<open>del\<close> empties the slot of the hash and no other, whatever key the slot holds: it does
  not compare the keys.  The removal callback, when there is one, is called once with the
  key and the value that were stored; on an empty slot the key is reported as not found
  and nothing changes but the counter.
\<close>

lemma del_empties_slot:
  assumes "shard_inv s S" and "ShardHasher (ttlTable s) key = h"
  shows "case S h of
      None \<Rightarrow> shard_del now key h s = Ret (Some (NotFound key), delmiss s)
    | Some (ts, k, v) \<Rightarrow> \<exists>s'. shard_del now key h s = Ret (None, s') \<and> shard_inv s' (S(h := None)) \<and>
        removed s' = removed s @ (if onRemove s then [(k, v)] else [])"
proof (cases "S h")
  case None
  with assms del_miss [of s S h now key] show ?thesis by (simp add: shard_inv_def)
next
  case (Some e)
  obtain ts k v where "e = (ts, k, v)" by (cases e)
  with Some del_hit [OF assms(1) _ assms(2), of ts k v now] show ?thesis by auto
qed

text \<open>
  \<^verbatim>\<open>evictDel\<close> empties exactly the slots of the given keys whose entries carry the given
  expiry time; an entry that was set again with another time stays, and so do all other
  slots.  Every key of the set is counted once as evicted.
\<close>

lemma evictDel_exact:
  assumes "shard_inv s S"
  shows "\<exists>s'. evictDel ts hs s = Ret s' \<and>
    shard_rep s' (\<lambda>h. case S h of
        None \<Rightarrow> None
      | Some e \<Rightarrow> if fst e = ts \<and> (\<exists>k. k \<in> hElems (setOps (ttlTable s)) hs \<and> ShardHasher (ttlTable s) k = h)
                  then None else Some e) \<and>
    ttlTable s' = ttlTable s \<and>
    EvictCount (stats s') = EvictCount (stats s) + of_nat (length (hValues (setOps (ttlTable s)) hs))"
proof -
  have eq: "evicted f ts V S = (\<lambda>h. case S h of None \<Rightarrow> None
      | Some e \<Rightarrow> if fst e = ts \<and> (\<exists>k. k \<in> V \<and> f k = h) then None else Some e)" for f V
    by (auto simp: evicted_def fun_eq_iff split: option.split)
  from assms have "shard_rep s S" by (simp add: shard_inv_def)
  from evictDel_rep [OF this, of ts hs] show ?thesis unfolding eq by blast
qed


definition tinyConfig :: Config where
  "tinyConfig = \<lparr> Shards = 65536, LifeWindow = 0, CleanWindow = 0, MaxEntriesInWindow = 10, MaxEntrySize = 1,
     Verbose = False, Hasher = None, HardMaxCacheSize = 1, OnRemove = False \<rparr>"



end
