(* ===== verification/Eviction.thy ===== *)
theory Eviction
  imports Shard
begin

text \<open>
  The goroutine that evicts expired entries from a shard (\<^verbatim>\<open>eviction\<close> and \<^verbatim>\<open>evict\<close> of
  \<^verbatim>\<open>bigcache/ttl.go\<close>), and the histories of a shard: any interleaving of complete calls,
  timer ticks and rounds of the goroutine.

  Main results: a round of the goroutine always ends, keeps the shard consistent, removes
  only entries whose time has come and sets the timer for the next one; and in every
  reachable state the shard stores exactly what its history says.
\<close>

section \<open>The eviction goroutine\<close>

definition ttl_evict :: "u64 \<Rightarrow> 'h \<Rightarrow> ('t, 'u, 'h) cacheShard \<Rightarrow> ('t, 'u, 'h) cacheShard outcome" where
  [simp]: "ttl_evict timeStamp value s = evictDel timeStamp value s"

text \<open>The least time leaves the table, then its keys leave the shard.\<close>

definition evictHead :: "('t, 'u, 'h) cacheShard \<Rightarrow> ('t, 'u, 'h) cacheShard outcome" where
  "evictHead s =
     (case ttl_peek (ttlTable s) of
        None \<Rightarrow> Panic
      | Some (key, value) \<Rightarrow>
          ttl_evict key value (s\<lparr> ttlTable := timeRemove key (ttlTable s) \<rparr>))"

text \<open>
  The inner loop removes further times that are due.  Each round reads the clock, and once
  more in \<^verbatim>\<open>resetTimer\<close> when it ends the loop; \<open>clock n\<close> is the pair of readings of round
  \<open>n\<close>.  Every round that goes on takes one time out of the table, so the number of times
  it holds bounds the rounds.
\<close>

fun evictDue ::
    "nat \<Rightarrow> (nat \<Rightarrow> u64 \<times> u64) \<Rightarrow> nat \<Rightarrow> ('t, 'u, 'h) cacheShard \<Rightarrow> ('t, 'u, 'h) cacheShard outcome" where
  "evictDue 0 clock n s = Blocked"
| "evictDue (Suc fuel) clock n s =
     (let m = ttlTable s in
      if tSize (timeOps m) (timeTree m) < 1 then Ret s
      else case ttl_peek m of
          None \<Rightarrow> Panic
        | Some (nextExpiryTime, _) \<Rightarrow>
            if nextExpiryTime - fst (clock n) = 0
            then obind (evictHead s) (evictDue fuel clock (Suc n))
            else Ret (s\<lparr> ttlTable := resetTimer (snd (clock n)) nextExpiryTime m \<rparr>))"

text \<open>
  One round of \<^verbatim>\<open>for range ttl.timer.C\<close>: the tick is received before the table's lock is
  taken, so other calls may come between the two parts.
\<close>

definition receiveTick :: "('t, 'u, 'h) cacheShard \<Rightarrow> ('t, 'u, 'h) cacheShard outcome" where
  "receiveTick s =
     (let m = ttlTable s in
      if tick (ttlTimer m) then Ret (s\<lparr> ttlTable := m\<lparr> ttlTimer := timer_drain (ttlTimer m) \<rparr> \<rparr>)
      else Blocked)"

definition evictionRound :: "(nat \<Rightarrow> u64 \<times> u64) \<Rightarrow> ('t, 'u, 'h) cacheShard \<Rightarrow> ('t, 'u, 'h) cacheShard outcome" where
  "evictionRound clock s =
     (let m = ttlTable s; n = tSize (timeOps m) (timeTree m) in
      if n < 1 then Ret s else obind (evictHead s) (evictDue (Suc n) clock 0))"

definition eviction :: "(nat \<Rightarrow> u64 \<times> u64) \<Rightarrow> ('t, 'u, 'h) cacheShard \<Rightarrow> ('t, 'u, 'h) cacheShard outcome" where
  "eviction clock s = obind (receiveTick s) (evictionRound clock)"

lemmas eviction_defs = eviction_def receiveTick_def evictionRound_def

section \<open>One time\<close>

text \<open>The invariant without the timer, which the eviction goroutine sets only at its end.\<close>

definition shard_core :: "('t, 'u, 'h) cacheShard \<Rightarrow> slots \<Rightarrow> bool" where
  "shard_core s S \<longleftrightarrow> shard_rep s S \<and> et.tracks (ShardHasher (ttlTable s)) (ttlTable s) S"

lemma shard_inv_core: "shard_inv s S \<longleftrightarrow> shard_core s S \<and> timer_inv (ttlTable s)"
  by (auto simp: shard_inv_def shard_core_def)

lemma evictHead_core:
  assumes core: "shard_core s S" and pk: "ttl_peek (ttlTable s) = Some (ts, hs)"
  defines "V \<equiv> hElems (setOps (ttlTable s)) hs"
  shows "\<exists>s'. evictHead s = Ret s' \<and> shard_core s' (evicted (ShardHasher (ttlTable s)) ts V S) \<and>
    ttlTable s' = timeRemove ts (ttlTable s)"
proof -
  let ?f = "ShardHasher (ttlTable s)" and ?m = "timeRemove ts (ttlTable s)"
  from core have rep: "shard_rep s S" and tr: "et.tracks ?f (ttlTable s) S" by (auto simp: shard_core_def)
  have least: "ttl_least (ttlTable s) = Some (ts, hValues (setOps (ttlTable s)) hs)"
    using pk by (simp add: ttl_least_def)
  have rep': "shard_rep (s\<lparr> ttlTable := ?m \<rparr>) S" using rep by (simp add: shard_rep_def)
  obtain s' where s': "evictDel ts hs (s\<lparr> ttlTable := ?m \<rparr>) = Ret s'"
    "shard_rep s' (evicted ?f ts V S)" "ttlTable s' = ?m"
    using evictDel_rep [OF rep', of ts hs] by (auto simp: ttl_fields V_def)
  have "ts = 0" if e: "evicted ?f ts V S h = Some (ts, k, v)" for h k v
  proof (rule ccontr)
    assume "ts \<noteq> 0"
    moreover from e have S: "S h = Some (ts, k, v)" and "h \<notin> ?f ` V"
      by (auto simp: evicted_def split: option.splits if_splits)
    ultimately show False
      using et.tracks_least(1) [OF tr least S] et.tracksD [OF tr S] by (auto simp: V_def)
  qed
  then have "et.tracks ?f ?m (evicted ?f ts V S)" by (rule et.tracks_pop [OF tr evicted_le])
  with s' pk show ?thesis by (simp add: evictHead_def shard_core_def ttl_fields)
qed

section \<open>A round of the goroutine\<close>

text \<open>The timer is neither armed nor has it a tick pending.\<close>

definition idle :: "('u, 'h) ttlManager \<Rightarrow> bool" where
  "idle m \<longleftrightarrow> armed (ttlTimer m) = None \<and> \<not> tick (ttlTimer m)"

definition purged :: "u64 set \<Rightarrow> slots \<Rightarrow> slots \<Rightarrow> bool" where
  "purged T S S' \<longleftrightarrow> S' \<subseteq>\<^sub>m S \<and> (\<forall>h e. S h = Some e \<longrightarrow> S' h = None \<longrightarrow> fst e \<in> T)"

lemma purged_refl [simp]: "purged T S S"
  by (simp add: purged_def)

lemma purged_evicted: "ts \<in> T \<Longrightarrow> purged T S (evicted f ts V S)"
  by (auto simp: purged_def evicted_le) (auto simp: evicted_def split: if_splits)

lemma purged_mono: "purged T S S' \<Longrightarrow> T \<subseteq> T' \<Longrightarrow> purged T' S S'"
  unfolding purged_def by blast

lemma purged_trans:
  assumes "purged T S S'" and "purged T S' S''"
  shows "purged T S S''"
proof -
  have "S' h = Some e \<or> S' h = None" if "S h = Some e" for h e
    using assms(1) that unfolding purged_def map_le_def by (cases "S' h") (auto, metis domI option.inject)
  with assms show ?thesis unfolding purged_def by (blast intro: map_le_trans)
qed

lemma rearmed:
  assumes "shard_core s S" and "idle (ttlTable s)" and pk: "ttl_peek (ttlTable s) = Some (ts, hs)"
  shows "shard_inv (s\<lparr> ttlTable := resetTimer now ts (ttlTable s) \<rparr>) S"
    "\<not> tick (ttlTimer (resetTimer now ts (ttlTable s)))"
  using assms timer_inv_resetTimer [OF _ pk]
  by (simp_all add: shard_inv_core shard_core_def shard_rep_def tracks_resetTimer ttl_fields idle_def)

lemma evictDue_core:
  assumes "shard_core s S" and "tSize (timeOps (ttlTable s)) (timeTree (ttlTable s)) < fuel"
    and "idle (ttlTable s)"
  shows "\<exists>s' S'. evictDue fuel clock n s = Ret s' \<and> shard_inv s' S' \<and> \<not> tick (ttlTimer (ttlTable s')) \<and>
    purged (range (fst \<circ> clock)) S S' \<and> ShardHasher (ttlTable s') = ShardHasher (ttlTable s)"
  using assms
proof (induction fuel arbitrary: n s S)
  case (Suc fuel)
  let ?m = "ttlTable s" and ?f = "ShardHasher (ttlTable s)"
  have laws: "ttl_laws ?m" using Suc.prems(1) tracks_laws by (auto simp: shard_core_def)
  show ?case
  proof (cases "ttl_peek ?m")
    case None
    then have "evictDue (Suc fuel) clock n s = Ret s" using tSize_peek [OF laws] by simp
    moreover have "shard_inv s S"
      using Suc.prems(1,3) timer_inv_quiet [OF _ None] by (simp add: shard_inv_core idle_def)
    ultimately show ?thesis using Suc.prems(3) purged_refl by (auto simp: idle_def)
  next
    case (Some p)
    obtain ts hs where p: "p = (ts, hs)" by (cases p)
    note pk = Some [unfolded p]
    have sz: "\<not> tSize (timeOps ?m) (timeTree ?m) < 1" using tSize_peek [OF laws] pk by simp
    show ?thesis
    proof (cases "ts - fst (clock n) = 0")
      case False
      let ?s = "s\<lparr> ttlTable := resetTimer (snd (clock n)) ts ?m \<rparr>"
      have "evictDue (Suc fuel) clock n s = Ret ?s" using sz pk False by (simp add: Let_def)
      then show ?thesis using purged_refl rearmed [OF Suc.prems(1,3) pk] by (fastforce simp: ttl_fields)
    next
      case True
      let ?S = "evicted ?f ts (hElems (setOps ?m) hs) S"
      obtain s1 where s1: "evictHead s = Ret s1" "shard_core s1 ?S" "ttlTable s1 = timeRemove ts ?m"
        using evictHead_core [OF Suc.prems(1) pk] by blast
      have "tSize (timeOps (ttlTable s1)) (timeTree (ttlTable s1)) < fuel"
        using tSize_timeRemove [OF laws ttl_peek_min(2) [OF laws pk]] Suc.prems(2) s1(3) by simp
      moreover have "idle (ttlTable s1)" using Suc.prems(3) s1(3) by (simp add: idle_def ttl_fields)
      ultimately obtain s' S' where s': "evictDue fuel clock (Suc n) s1 = Ret s'" "shard_inv s' S'"
        "\<not> tick (ttlTimer (ttlTable s'))" "purged (range (fst \<circ> clock)) ?S S'"
        "ShardHasher (ttlTable s') = ?f"
        using Suc.IH [OF s1(2), of "Suc n"] s1(3) by (auto simp: ttl_fields)
      have "ts \<in> range (fst \<circ> clock)" using True by (auto intro: rev_image_eqI [of n])
      then have "purged (range (fst \<circ> clock)) S S'" using purged_trans [OF purged_evicted s'(4)] by blast
      moreover have "evictDue (Suc fuel) clock n s = Ret s'" using sz pk True s1(1) s'(1) by (simp add: Let_def)
      ultimately show ?thesis using s' by blast
    qed
  qed
qed simp

lemma evicted_stamp:
  assumes tr: "et.tracks f m S" and pk: "ttl_peek m = Some (ts, hs)" and "ts \<noteq> 0"
  shows "evicted f ts (hElems (setOps m) hs) S h \<noteq> Some (ts, k, v)"
proof
  assume "evicted f ts (hElems (setOps m) hs) S h = Some (ts, k, v)"
  then have S: "S h = Some (ts, k, v)" and "h \<notin> f ` hElems (setOps m) hs"
    by (auto simp: evicted_def split: option.splits if_splits)
  moreover have "ttl_least m = Some (ts, hValues (setOps m) hs)" using pk by (simp add: ttl_least_def)
  ultimately show False
    using et.tracks_least(1) [OF tr _ S assms(3)] et.tracksD [OF tr S] by blast
qed

lemma eviction_run:
  assumes inv: "shard_inv s S" and tick: "tick (ttlTimer (ttlTable s))"
    and pk: "ttl_peek (ttlTable s) = Some (ts, hs)"
  shows "\<exists>s' S'. eviction clock s = Ret s' \<and> shard_inv s' S' \<and> \<not> tick (ttlTimer (ttlTable s')) \<and>
    purged (insert ts (range (fst \<circ> clock))) S S' \<and> (ts \<noteq> 0 \<longrightarrow> (\<forall>h k v. S' h \<noteq> Some (ts, k, v)))"
proof -
  let ?m = "ttlTable s" and ?f = "ShardHasher (ttlTable s)"
  let ?mt = "?m\<lparr> ttlTimer := timer_drain (ttlTimer ?m) \<rparr>"
  let ?st = "s\<lparr> ttlTable := ?mt \<rparr>" and ?S = "evicted ?f ts (hElems (setOps ?m) hs) S"
  have tr: "et.tracks ?f ?m S" and rep: "shard_rep s S" using inv by (simp_all add: shard_inv_def)
  note laws = tracks_laws [OF tr]
  have core: "shard_core ?st S"
    using tr rep by (simp add: shard_core_def tracks_timer) (simp add: shard_rep_def)
  have "armed (ttlTimer ?m) = None"
    using inv tick unfolding shard_inv_def timer_inv_def by blast
  then have "idle ?mt" by (simp add: idle_def timer_drain_def)
  moreover have "ttl_peek ?mt = Some (ts, hs)" using pk by (simp add: ttl_peek_def)
  then obtain s1 where s1: "evictHead ?st = Ret s1" "shard_core s1 ?S" "ttlTable s1 = timeRemove ts ?mt"
    using evictHead_core [OF core, of ts hs] by auto
  moreover have "tSize (timeOps (ttlTable s1)) (timeTree (ttlTable s1)) < tSize (timeOps ?m) (timeTree ?m)"
    using tSize_timeRemove [OF laws ttl_peek_min(2) [OF laws pk]] s1(3) by (simp add: timeRemove_def)
  ultimately obtain s' S' where s': "evictDue (Suc (tSize (timeOps ?m) (timeTree ?m))) clock 0 s1 = Ret s'"
    "shard_inv s' S'" "\<not> tick (ttlTimer (ttlTable s'))" "purged (range (fst \<circ> clock)) ?S S'"
    using evictDue_core [OF s1(2), of "Suc (tSize (timeOps ?m) (timeTree ?m))" clock 0]
    by (auto simp: idle_def ttl_fields)
  have "eviction clock s = Ret s'"
    using tick tSize_peek [OF laws] pk s1(1) s'(1) by (simp add: eviction_defs Let_def)
  moreover have "purged (insert ts (range (fst \<circ> clock))) S S'"
    by (rule purged_trans [OF purged_evicted purged_mono [OF s'(4)]]) auto
  moreover have "S' h \<noteq> Some (ts, k, v)" if "ts \<noteq> 0" for h k v
    using evicted_stamp [OF tr pk that] s'(4) unfolding purged_def map_le_def by (metis domI)
  ultimately show ?thesis using s' by blast
qed

section \<open>Histories of a shard\<close>

text \<open>
  One step is a complete call (with the hash of its key), the timer firing, or a round of
  the eviction goroutine.  The second component is what the shard should store: a set
  writes the slot, a delete empties it, an eviction empties the slots that the hash map has
  lost.  Sets that find the queue full, or that let it grow past 4 GiB, are left out.
\<close>

type_synonym ('t, 'u, 'h) history = "('t, 'u, 'h) cacheShard \<times> slots"

inductive shard_step :: "('t, 'u, 'h) history \<Rightarrow> ('t, 'u, 'h) history \<Rightarrow> bool" where
  step_get: "shard_get key (ShardHasher (ttlTable s) key) s = Ret (r, s') \<Longrightarrow> shard_step (s, S) (s', S)"
| step_set: "h = ShardHasher (ttlTable s) key \<Longrightarrow> length key \<le> 65517 \<Longrightarrow> 18 + length key + length entry < 2 ^ 32 \<Longrightarrow>
    shard_set epoch now now' key h entry d s = Ret (r, s') \<Longrightarrow>
    \<not> locked s' \<Longrightarrow> capacity (entries s') \<le> 2 ^ 32 \<Longrightarrow>
    shard_step (s, S) (s', S(h \<mapsto> (expiryTimestamp epoch d, key, entry)))"
| step_del: "h = ShardHasher (ttlTable s) key \<Longrightarrow> shard_del now key h s = Ret (r, s') \<Longrightarrow>
    shard_step (s, S) (s', S(h := None))"
| step_tick: "armed (ttlTimer (ttlTable s)) \<noteq> None \<Longrightarrow>
    shard_step (s, S) (s\<lparr> ttlTable := (ttlTable s)\<lparr> ttlTimer := timer_fire (ttlTimer (ttlTable s)) \<rparr> \<rparr>, S)"
| step_evict: "eviction clock s = Ret s' \<Longrightarrow>
    shard_step (s, S) (s', S |` dom (map_of (hashmap s')))"

lemma counter_inv [simp]:
  "shard_inv (hit s) S = shard_inv s S" "shard_inv (miss s) S = shard_inv s S"
  "shard_inv (collision s) S = shard_inv s S" "shard_inv (delmiss s) S = shard_inv s S"
  by (simp_all add: shard_inv_def shard_rep_def hit_def miss_def collision_def delmiss_def)

lemma shard_inv_rep: "shard_inv s S \<Longrightarrow> shard_rep s S"
  by (simp add: shard_inv_def)

lemma get_keeps_inv:
  assumes inv: "shard_inv s S" and run: "shard_get key h s = Ret (r, s')"
  shows "shard_inv s' S"
proof (cases "S h")
  case None
  with run get_miss [OF shard_inv_rep [OF inv], of h key] inv show ?thesis by auto
next
  case (Some e)
  with run get_hit [OF shard_inv_rep [OF inv], of h "fst e" "fst (snd e)" "snd (snd e)" key] inv
  show ?thesis by (auto split: if_splits)
qed

lemma del_keeps_inv:
  assumes inv: "shard_inv s S" and key: "ShardHasher (ttlTable s) key = h"
    and run: "shard_del now key h s = Ret (r, s')"
  shows "shard_inv s' (S(h := None))"
proof (cases "S h")
  case None
  then have "S(h := None) = S" by (simp add: fun_upd_idem)
  with None run inv del_miss [OF shard_inv_rep [OF inv], of h now key] show ?thesis by auto
next
  case (Some e)
  with run del_hit [OF inv _ key, of "fst e" "fst (snd e)" "snd (snd e)" now] show ?thesis by auto
qed

lemma set_keeps_inv:
  assumes "shard_inv s S" and "ShardHasher (ttlTable s) key = h"
    and "length key \<le> 65517" and "18 + length key + length entry < 2 ^ 32"
    and "shard_set epoch now now' key h entry d s = Ret (r, s')"
    and "\<not> locked s'" and "capacity (entries s') \<le> 2 ^ 32"
  shows "shard_inv s' (S(h \<mapsto> (expiryTimestamp epoch d, key, entry)))"
  using set_slot [OF assms(1-4) refl, of epoch now now' d] assms(5-7) by auto

lemma shard_rep_dom: "shard_rep s S \<Longrightarrow> dom S = dom (map_of (hashmap s))"
proof -
  assume "shard_rep s S"
  then obtain L where "index_rep (map_of (hashmap s)) L S" unfolding shard_rep_def by blast
  from index_repD(1) [OF this] show ?thesis by (auto simp: dom_def)
qed

lemma eviction_keeps_inv:
  assumes inv: "shard_inv s S" and run: "eviction clock s = Ret s'"
  shows "shard_inv s' (S |` dom (map_of (hashmap s')))"
proof -
  have restrict: "S' = S |` dom (map_of (hashmap s'))" if "shard_inv s' S'" "S' \<subseteq>\<^sub>m S" for S'
  proof
    fix h
    have "dom S' = dom (map_of (hashmap s'))" using that(1) by (intro shard_rep_dom) (simp add: shard_inv_def)
    then show "S' h = (S |` dom (map_of (hashmap s'))) h"
      using that(2) by (cases "h \<in> dom S'") (auto simp: map_le_def restrict_map_def domIff)
  qed
  have tick: "tick (ttlTimer (ttlTable s))" using run by (auto simp: eviction_defs Let_def split: if_splits)
  have laws: "ttl_laws (ttlTable s)" using inv tracks_laws by (auto simp: shard_inv_def)
  show ?thesis
  proof (cases "ttl_peek (ttlTable s)")
    case None
    let ?m = "(ttlTable s)\<lparr> ttlTimer := timer_drain (ttlTimer (ttlTable s)) \<rparr>"
    have s': "s' = s\<lparr> ttlTable := ?m \<rparr>"
      using run tick None tSize_peek [OF laws] by (simp add: eviction_defs Let_def)
    have "timer_inv ?m" using None by (intro timer_inv_quiet) (simp_all add: timer_drain_def ttl_peek_def)
    with inv have "shard_inv s' S"
      unfolding s' by (simp add: shard_inv_def shard_rep_def tracks_timer)
    from restrict [OF this] this show ?thesis by simp
  next
    case (Some p)
    obtain ts hs where "p = (ts, hs)" by (cases p)
    from eviction_run [OF inv tick Some [unfolded this], of clock] run
    obtain S' where "shard_inv s' S'" "S' \<subseteq>\<^sub>m S" by (auto simp: purged_def)
    with restrict show ?thesis by metis
  qed
qed

lemma tick_keeps_inv:
  "shard_inv s S \<Longrightarrow> shard_inv (s\<lparr> ttlTable := (ttlTable s)\<lparr> ttlTimer := timer_fire t \<rparr> \<rparr>) S"
  by (simp add: shard_inv_def shard_rep_def tracks_timer)

lemma shard_step_inv:
  assumes step: "shard_step (s, S) (s', S')" and inv: "shard_inv s S"
  shows "shard_inv s' S'"
  using step
proof cases
  case (step_get key r)
  show ?thesis using get_keeps_inv [OF inv step_get(2)] step_get(1) by simp
next
  case (step_set h key entry epoch now now' d r)
  show ?thesis
    using set_keeps_inv [OF inv step_set(2) [symmetric] step_set(3-7)] step_set(1) by simp
next
  case (step_del h key now r)
  show ?thesis using del_keeps_inv [OF inv step_del(2) [symmetric] step_del(3)] step_del(1) by simp
next
  case step_tick
  show ?thesis using tick_keeps_inv [OF inv] step_tick(1,2) by simp
next
  case (step_evict clock)
  show ?thesis using eviction_keeps_inv [OF inv step_evict(2)] step_evict(1) by simp
qed

interpretation hist: kept_invariant shard_step "\<lambda>(s, S). shard_inv s S"
  by unfold_locales (auto intro: shard_step_inv)

lemma shard_history_inv:
  "shard_step\<^sup>*\<^sup>* (s, S) (s', S') \<Longrightarrow> shard_inv s S \<Longrightarrow> shard_inv s' S'"
  using hist.reachable [of "(s, S)" "(s', S')"] by simp

lemma shard_len_card:
  assumes "shard_rep s S"
  shows "shard_len s = Ret (int (card (dom S)))"
proof -
  have "length (hashmap s) = card (fst ` set (hashmap s))"
    using assms distinct_card [of "map fst (hashmap s)"] by (simp add: shard_rep_def)
  then have "card (dom S) = length (hashmap s)"
    using shard_rep_dom [OF assms] by (simp add: dom_map_of_conv_image_fst)
  with assms show ?thesis by (simp add: shard_len_def shard_rep_def)
qed

section \<open>Properties\<close>

text \<open>
  C1.  In every state a new shard can reach by complete calls, timer ticks and rounds of the
  eviction goroutine, \<^verbatim>\<open>get\<close> answers what the history says: the value last set for the key
  and not since deleted or evicted, and not found otherwise; and \<^verbatim>\<open>len\<close> is the number of
  stored keys.
\<close>

theorem history_determines_answers:
  assumes "avltree_laws T" and "avltree_laws U" and "hashset_laws H" and "sized config"
    and "initNewShard T U H now config num = Ret s0"
    and "shard_step\<^sup>*\<^sup>* (s0, Map.empty) (s, S)" and "h = ShardHasher (ttlTable s) key"
  shows "shard_get key h s = (case S h of
      None \<Rightarrow> Ret (Inl (NotFound key), miss s)
    | Some (ts, k, v) \<Rightarrow>
        if k = key then Ret (Inr v, hit s) else Ret (Inl (NotFound key), collision s)) \<and>
    shard_len s = Ret (int (card (dom S)))"
proof -
  have "shard_inv s0 Map.empty" using initNewShard_inv [OF assms(1-4), of now num] assms(5) by auto
  then have rep: "shard_rep s S" by (rule shard_inv_rep [OF shard_history_inv [OF assms(6)]])
  then show ?thesis
    using get_hit [OF rep, of h] get_miss [OF rep, of h key] shard_len_card [OF rep]
    by (auto split: option.split)
qed

theorem history_determines_answers_witness:
  "\<exists>s s'. smallShard = Ret s \<and> smallSet s = Ret ((150, None), s') \<and>
     shard_get [107] (Sum64 [107]) s' = Ret (Inr [1, 2, 3], hit s') \<and> shard_len s' = Ret 1"
proof -
  obtain s s' where s: "smallShard = Ret s" "smallSet s = Ret ((150, None), s')"
    "shard_inv s' [Sum64 [107] \<mapsto> (150, [107], [1, 2, 3])]" "ShardHasher (ttlTable s') = Sum64"
    by (rule smallSet_inv)
  have f: "ShardHasher (ttlTable s) = Sum64" using smallShard_inv s(1) by (metis outcome.inject)
  have "obind smallShard (\<lambda>s. obind (smallSet s) (\<lambda>r. Ret (capacity (entries (snd r))))) = Ret 320" by code_simp
  with s(1,2) have cap: "capacity (entries s') \<le> 2 ^ 32" by simp
  have unlocked: "\<not> locked s'" using s(3) by (simp add: shard_inv_def shard_rep_def)
  have ts: "expiryTimestamp 100 (seconds 50) = 150" by code_simp
  have "shard_step (s, Map.empty) (s', [Sum64 [107] \<mapsto> (150, [107], [1, 2, 3])])"
    using step_set [of "Sum64 [107]" s "[107]" "[1, 2, 3]" 100 100 100 "seconds 50" "(150, None)" s' Map.empty]
      f s(2) unlocked cap ts by simp
  then have run: "shard_step\<^sup>*\<^sup>* (s, Map.empty) (s', [Sum64 [107] \<mapsto> (150, [107], [1, 2, 3])])" by blast
  from history_determines_answers [OF rbt_tree_laws rbt_tree_laws list_set_laws sized_smallConfig s(1) run,
      of "Sum64 [107]" "[107]"] s(1,2,4) show ?thesis by simp
qed

text \<open>
  C6.  When the timer has fired and keys are waiting, a round of the eviction goroutine ends,
  keeps the shard consistent and leaves no tick pending.  It removes only entries whose
  expiry time is the least one that was waiting or a time the clock showed during the
  round; every entry with that least time is gone (time zero, which means no expiry,
  apart), and the timer is set for the next time.
\<close>

theorem eviction_removes_due_entries:
  assumes "shard_inv s S" and "tick (ttlTimer (ttlTable s))" and "ttl_peek (ttlTable s) = Some (ts, hs)"
  shows "\<exists>s' S'. eviction clock s = Ret s' \<and> shard_inv s' S' \<and> \<not> tick (ttlTimer (ttlTable s')) \<and>
    S' \<subseteq>\<^sub>m S \<and>
    (\<forall>h e. S h = Some e \<longrightarrow> S' h = None \<longrightarrow> fst e = ts \<or> (\<exists>n. fst e = fst (clock n))) \<and>
    (ts \<noteq> 0 \<longrightarrow> (\<forall>h k v. S' h \<noteq> Some (ts, k, v)))"
proof -
  from eviction_run [OF assms, of clock] obtain s' S' where *: "eviction clock s = Ret s'" "shard_inv s' S'"
    "\<not> tick (ttlTimer (ttlTable s'))" "purged (insert ts (range (fst \<circ> clock))) S S'"
    "ts \<noteq> 0 \<longrightarrow> (\<forall>h k v. S' h \<noteq> Some (ts, k, v))" by blast
  from *(4) have "S' \<subseteq>\<^sub>m S" "\<forall>h e. S h = Some e \<longrightarrow> S' h = None \<longrightarrow> fst e = ts \<or> (\<exists>n. fst e = fst (clock n))"
    unfolding purged_def by auto
  with * show ?thesis by blast
qed

theorem eviction_removes_due_entries_witness:
  "\<exists>s s' s1 s2 S2. smallShard = Ret s \<and> smallSet s = Ret ((150, None), s') \<and>
     s1 = s'\<lparr> ttlTable := (ttlTable s')\<lparr> ttlTimer := timer_fire (ttlTimer (ttlTable s')) \<rparr> \<rparr> \<and>
     eviction (\<lambda>_. (150, 150)) s1 = Ret s2 \<and> shard_inv s2 S2 \<and> S2 (Sum64 [107]) = None"
proof -
  obtain s s' where s: "smallShard = Ret s" "smallSet s = Ret ((150, None), s')"
    "shard_inv s' [Sum64 [107] \<mapsto> (150, [107], [1, 2, 3])]" by (rule smallSet_inv)
  define s1 where s1: "s1 = s'\<lparr> ttlTable := (ttlTable s')\<lparr> ttlTimer := timer_fire (ttlTimer (ttlTable s')) \<rparr> \<rparr>"
  have inv: "shard_inv s1 [Sum64 [107] \<mapsto> (150, [107], [1, 2, 3])]" using tick_keeps_inv [OF s(3)] s1 by simp
  have tick: "tick (ttlTimer (ttlTable s1))" by (simp add: s1 timer_fire_def)
  have "obind smallShard (\<lambda>s. obind (smallSet s) (\<lambda>r. Ret (map_option fst (ttl_peek (ttlTable (snd r)))))) =
      Ret (Some 150)" by code_simp
  with s(1,2) obtain hs where pk: "ttl_peek (ttlTable s1) = Some (150, hs)"
    by (auto simp: s1 ttl_peek_def)
  from eviction_removes_due_entries [OF inv tick pk, of "\<lambda>_. (150, 150)"] obtain s2 S2 where e:
    "eviction (\<lambda>_. (150, 150)) s1 = Ret s2" "shard_inv s2 S2"
    "S2 \<subseteq>\<^sub>m [Sum64 [107] \<mapsto> (150, [107], [1, 2, 3])]" "\<forall>h k v. S2 h \<noteq> Some (150, k, v)" by auto
  have "S2 (Sum64 [107]) = None"
  proof (cases "S2 (Sum64 [107])")
    case (Some x)
    then have "Sum64 [107] \<in> dom S2" by (rule domI)
    with e(3) have "S2 (Sum64 [107]) = Some (150, [107], [1, 2, 3])" by (simp add: map_le_def)
    with e(4) show ?thesis by blast
  qed
  with s(1,2) s1 e(1,2) show ?thesis by blast
qed


end
