(* ===== verification/KeyedStore.thy ===== *)
theory KeyedStore
  imports Eviction
begin

text \<open>
  The contract that a shard and the whole cache both fulfil: a store of entries addressed
  by key, with one slot per hash.  \<open>sound\<close> says that no call has left a lock held and that
  no byte queue has outgrown its 32-bit indexes.  What a client may conclude (a value is
  read back after it was set, deleting makes it unavailable, other slots are not touched)
  is derived once here.
\<close>

definition answer :: "gostring \<Rightarrow> (u64 \<times> gostring \<times> byte list) option \<Rightarrow> cacheError + byte list" where
  "answer key slot = (case slot of
       None \<Rightarrow> Inl (NotFound key)
     | Some (ts, k, v) \<Rightarrow> if k = key then Inr v else Inl (NotFound key))"

definition storable :: "gostring \<Rightarrow> byte list \<Rightarrow> bool" where
  "storable key entry \<longleftrightarrow> length key \<le> 65517 \<and> 18 + length key + length entry < 2 ^ 32"

locale keyed_store =
  fixes inv :: "'s \<Rightarrow> slots \<Rightarrow> bool"
    and sound :: "'s \<Rightarrow> bool"
    and hasher :: "'s \<Rightarrow> gostring \<Rightarrow> u64"
    and get :: "gostring \<Rightarrow> 's \<Rightarrow> ((cacheError + byte list) \<times> 's) outcome"
    and store :: "u64 \<Rightarrow> u64 \<Rightarrow> u64 \<Rightarrow> gostring \<Rightarrow> byte list \<Rightarrow> duration \<Rightarrow> 's
                  \<Rightarrow> ((u64 \<times> cacheError option) \<times> 's) outcome"
    and del :: "u64 \<Rightarrow> gostring \<Rightarrow> 's \<Rightarrow> (cacheError option \<times> 's) outcome"
  assumes get_law: "inv s S \<Longrightarrow>
      \<exists>s'. get key s = Ret (answer key (S (hasher s key)), s') \<and> inv s' S \<and> hasher s' = hasher s"
    and store_law: "inv s S \<Longrightarrow> storable key entry \<Longrightarrow>
      \<exists>r s'. store epoch now now' key entry d s = Ret (r, s') \<and>
        (sound s' \<longrightarrow> hasher s' = hasher s \<and> r = (expiryTimestamp epoch d, None) \<and>
          inv s' (S(hasher s key \<mapsto> (expiryTimestamp epoch d, key, entry))))"
    and del_law: "inv s S \<Longrightarrow>
      \<exists>s'. del now key s = Ret (if S (hasher s key) = None then Some (NotFound key) else None, s') \<and>
        inv s' (S(hasher s key := None)) \<and> hasher s' = hasher s"
begin

lemma store_inv:
  assumes "inv s S" and "storable key entry" and "store epoch now now' key entry d s = Ret (r, s')" and "sound s'"
  shows "r = (expiryTimestamp epoch d, None)" and "hasher s' = hasher s"
    and "inv s' (S(hasher s key \<mapsto> (expiryTimestamp epoch d, key, entry)))"
  using store_law [OF assms(1,2), of epoch now now' d] assms(3,4) by auto

lemma get_result:
  assumes "inv s S" and "get key s = Ret (r, s')"
  shows "r = answer key (S (hasher s key))" and "inv s' S"
  using get_law [OF assms(1), of key] assms(2) by auto

lemma del_inv:
  assumes "inv s S" and "del now key s = Ret (r, s')"
  shows "inv s' (S(hasher s key := None))" and "hasher s' = hasher s"
  using del_law [OF assms(1), of now key] assms(2) by auto

text \<open>Read your writes; a key with another hash answers as before.\<close>

lemma get_after_store:
  assumes "inv s S" and "storable key entry" and "store epoch now now' key entry d s = Ret (r, s')" and "sound s'"
  shows "\<exists>s''. get key s' = Ret (Inr entry, s'')"
    and "hasher s key' \<noteq> hasher s key \<Longrightarrow> \<exists>s''. get key' s' = Ret (answer key' (S (hasher s key')), s'')"
proof -
  note i = store_inv [OF assms]
  show "\<exists>s''. get key s' = Ret (Inr entry, s'')"
    using get_law [OF i(3), of key] i(2) by (auto simp: answer_def)
  show "\<exists>s''. get key' s' = Ret (answer key' (S (hasher s key')), s'')" if "hasher s key' \<noteq> hasher s key"
    using get_law [OF i(3), of key'] i(2) that by auto
qed

lemma get_after_del:
  assumes "inv s S" and "del now key s = Ret (r, s')"
  shows "\<exists>s''. get key s' = Ret (Inl (NotFound key), s'')"
    and "hasher s key' \<noteq> hasher s key \<Longrightarrow> \<exists>s''. get key' s' = Ret (answer key' (S (hasher s key')), s'')"
proof -
  note i = del_inv [OF assms]
  show "\<exists>s''. get key s' = Ret (Inl (NotFound key), s'')"
    using get_law [OF i(1), of key] i(2) by (auto simp: answer_def)
  show "\<exists>s''. get key' s' = Ret (answer key' (S (hasher s key')), s'')" if "hasher s key' \<noteq> hasher s key"
    using get_law [OF i(1), of key'] i(2) that by auto
qed

end

section \<open>A shard fulfils the contract\<close>

definition shard_sound :: "('t, 'u, 'h) cacheShard \<Rightarrow> bool" where
  "shard_sound s \<longleftrightarrow> \<not> locked s \<and> capacity (entries s) \<le> 2 ^ 32"

abbreviation shardHash :: "('t, 'u, 'h) cacheShard \<Rightarrow> gostring \<Rightarrow> u64" where
  "shardHash s key \<equiv> ShardHasher (ttlTable s) key"

lemma shard_get_answer:
  assumes inv: "shard_inv s S"
  shows "\<exists>s'. shard_get key h s = Ret (answer key (S h), s') \<and> shard_inv s' S \<and>
    ShardHasher (ttlTable s') = ShardHasher (ttlTable s)"
proof (cases "S h")
  case None
  with get_miss [OF shard_inv_rep [OF inv], of h key] inv show ?thesis
    by (simp add: answer_def) (simp add: miss_def)
next
  case (Some e)
  with get_hit [OF shard_inv_rep [OF inv], of h "fst e" "fst (snd e)" "snd (snd e)" key] inv show ?thesis
    by (cases e) (auto simp: answer_def hit_def collision_def shard_inv_def shard_rep_def)
qed

lemma shard_set_law:
  assumes "shard_inv s S" and "storable key entry" and "h = shardHash s key"
  shows "\<exists>r s'. shard_set epoch now now' key h entry d s = Ret (r, s') \<and>
    (shard_sound s' \<longrightarrow> ShardHasher (ttlTable s') = ShardHasher (ttlTable s) \<and> r = (expiryTimestamp epoch d, None) \<and>
      shard_inv s' (S(h \<mapsto> (expiryTimestamp epoch d, key, entry))))"
  using set_slot [OF assms(1) assms(3) [symmetric] _ _ refl, of entry epoch now now' d] assms(2)
  by (auto simp: storable_def shard_sound_def)

lemma shard_del_law:
  assumes inv: "shard_inv s S" and h: "h = shardHash s key"
  shows "\<exists>s'. shard_del now key h s = Ret (if S h = None then Some (NotFound key) else None, s') \<and>
    shard_inv s' (S(h := None)) \<and> ShardHasher (ttlTable s') = ShardHasher (ttlTable s)"
proof (cases "S h")
  case None
  then have "S(h := None) = S" by (simp add: fun_upd_idem)
  with None del_miss [OF shard_inv_rep [OF inv], of h now key] inv show ?thesis
    by simp (simp add: delmiss_def)
next
  case (Some e)
  with del_hit [OF inv _ h [symmetric], of "fst e" "fst (snd e)" "snd (snd e)" now] show ?thesis by auto
qed

interpretation ss: keyed_store shard_inv shard_sound shardHash
  "\<lambda>key s. shard_get key (shardHash s key) s"
  "\<lambda>epoch now now' key entry d s. shard_set epoch now now' key (shardHash s key) entry d s"
  "\<lambda>now key s. shard_del now key (shardHash s key) s"
  by unfold_locales (rule shard_get_answer shard_set_law shard_del_law; simp)+

end
