(* ===== verification/BigCache.thy ===== *)
theory BigCache
  imports KeyedStore
begin

text \<open>
  The cache (\<^verbatim>\<open>bigcache/bigcache.go\<close>): a power of two of shards; the low bits of the hash of
  a key choose its shard.  Calls to the removal callback are recorded by the shards.

  Main results: construction succeeds exactly for the shard counts the mask arithmetic
  allows, every key is routed to one shard inside the array, and the cache fulfils the
  contract of a keyed store.
\<close>

section \<open>The data\<close>

record ('t, 'u, 'h) BigCache =
  shards :: "('t, 'u, 'h) cacheShard list"
  cacheLifeWindow :: u64
  hash :: "gostring \<Rightarrow> u64"
  config :: Config
  shardMask :: u64
  maxShardSize :: u32

datatype newError = NotPowerOfTwo

section \<open>Construction\<close>

text \<open>The loop over \<^verbatim>\<open>i\<close>; \<open>now i\<close> is the clock reading when shard \<open>i\<close> starts its timer.\<close>

fun initShards ::
    "(int, nat, 't) avltree \<Rightarrow> (u64, 'h, 'u) avltree \<Rightarrow> (gostring, 'h) hashset \<Rightarrow> (nat \<Rightarrow> u64) \<Rightarrow> Config \<Rightarrow> nat \<Rightarrow> nat
     \<Rightarrow> ('t, 'u, 'h) cacheShard list outcome" where
  "initShards T U H now c i 0 = Ret []"
| "initShards T U H now c i (Suc n) =
     obind (initNewShard T U H (now i) c (of_nat i + 1)) (\<lambda>s.
     obind (initShards T U H now c (Suc i) n) (\<lambda>ss. Ret (s # ss)))"

definition newBigCache ::
    "(int, nat, 't) avltree \<Rightarrow> (u64, 'h, 'u) avltree \<Rightarrow> (gostring, 'h) hashset \<Rightarrow> (nat \<Rightarrow> u64) \<Rightarrow> Config
     \<Rightarrow> (newError + ('t, 'u, 'h) BigCache) outcome" where
  "newBigCache T U H now c =
     (if \<not> isPowerOfTwo (Shards c) then Ret (Inl NotPowerOfTwo)
      else let hasher = (case Hasher c of None \<Rightarrow> newDefaultHasher | Some f \<Rightarrow> f);
               c = c\<lparr> Hasher := Some hasher \<rparr>
           in if sint (Shards c) < 0 then Panic
              else obind (maximumShardSize c) (\<lambda>maxSize.
                   obind (initShards T U H now c 0 (nat (sint (Shards c)))) (\<lambda>ss.
                     Ret (Inr \<lparr> shards = ss, cacheLifeWindow = durationSeconds (LifeWindow c), hash = hasher,
                                config = c, shardMask = Shards c - 1, maxShardSize = ucast maxSize \<rparr>))))"

section \<open>Operations\<close>

text \<open>\<^verbatim>\<open>getShard\<close>: the position of the shard; indexing outside the slice panics.\<close>

definition getShard :: "u64 \<Rightarrow> ('t, 'u, 'h) BigCache \<Rightarrow> nat outcome" where
  "getShard hashedKey c =
     (let i = unat (hashedKey AND shardMask c) in if i < length (shards c) then Ret i else Panic)"

definition onShard ::
    "(('t, 'u, 'h) cacheShard \<Rightarrow> ('r \<times> ('t, 'u, 'h) cacheShard) outcome) \<Rightarrow> nat \<Rightarrow> ('t, 'u, 'h) BigCache
     \<Rightarrow> ('r \<times> ('t, 'u, 'h) BigCache) outcome" where
  "onShard f i c = obind (f (shards c ! i)) (\<lambda>(r, s). Ret (r, c\<lparr> shards := (shards c)[i := s] \<rparr>))"

definition cache_Get ::
    "gostring \<Rightarrow> ('t, 'u, 'h) BigCache \<Rightarrow> ((cacheError + byte list) \<times> ('t, 'u, 'h) BigCache) outcome" where
  "cache_Get key c =
     (let hashedKey = hash c key in obind (getShard hashedKey c) (\<lambda>i. onShard (shard_get key hashedKey) i c))"

definition cache_Set ::
    "u64 \<Rightarrow> u64 \<Rightarrow> u64 \<Rightarrow> gostring \<Rightarrow> byte list \<Rightarrow> duration \<Rightarrow> ('t, 'u, 'h) BigCache
     \<Rightarrow> ((u64 \<times> cacheError option) \<times> ('t, 'u, 'h) BigCache) outcome" where
  "cache_Set epoch now now' key entry duration c =
     (let hashedKey = hash c key in
      obind (getShard hashedKey c) (\<lambda>i. onShard (shard_set epoch now now' key hashedKey entry duration) i c))"

definition cache_Delete ::
    "u64 \<Rightarrow> gostring \<Rightarrow> ('t, 'u, 'h) BigCache \<Rightarrow> (cacheError option \<times> ('t, 'u, 'h) BigCache) outcome" where
  "cache_Delete now key c =
     (let hashedKey = hash c key in obind (getShard hashedKey c) (\<lambda>i. onShard (shard_del now key hashedKey) i c))"

fun resetShards :: "Config \<Rightarrow> ('t, 'u, 'h) cacheShard list \<Rightarrow> ('t, 'u, 'h) cacheShard list outcome" where
  "resetShards c [] = Ret []"
| "resetShards c (s # ss) = obind (shard_reset c s) (\<lambda>s. obind (resetShards c ss) (\<lambda>ss. Ret (s # ss)))"

definition cache_Reset :: "('t, 'u, 'h) BigCache \<Rightarrow> ('t, 'u, 'h) BigCache outcome" where
  "cache_Reset c = obind (resetShards (config c) (shards c)) (\<lambda>ss. Ret (c\<lparr> shards := ss \<rparr>))"

fun lenShards :: "('t, 'u, 'h) cacheShard list \<Rightarrow> int outcome" where
  "lenShards [] = Ret 0"
| "lenShards (s # ss) = obind (shard_len s) (\<lambda>n. obind (lenShards ss) (\<lambda>m. Ret (n + m)))"

definition cache_Len :: "('t, 'u, 'h) BigCache \<Rightarrow> int outcome" where
  "cache_Len c = lenShards (shards c)"

definition addStats :: "Stats \<Rightarrow> Stats \<Rightarrow> Stats" where
  "addStats s tmp =
     \<lparr> Hits = Hits s + Hits tmp, Misses = Misses s + Misses tmp, DelHits = DelHits s + DelHits tmp,
       DelMisses = DelMisses s + DelMisses tmp, Collisions = Collisions s + Collisions tmp,
       EvictCount = EvictCount s + EvictCount tmp \<rparr>"

definition cache_Stats :: "('t, 'u, 'h) BigCache \<Rightarrow> Stats" where
  "cache_Stats c = foldl addStats noStats (map getStats (shards c))"

definition cache_onEvict ::
    "goSlice \<Rightarrow> u64 \<Rightarrow> (('t, 'u, 'h) BigCache \<Rightarrow> ('t, 'u, 'h) BigCache outcome) \<Rightarrow> ('t, 'u, 'h) BigCache
     \<Rightarrow> (bool \<times> ('t, 'u, 'h) BigCache) outcome" where
  "cache_onEvict oldestEntry currentTimestamp evict c =
     obind (readTimestampFromEntry oldestEntry) (\<lambda>oldestTimestamp.
       if currentTimestamp - oldestTimestamp > cacheLifeWindow c
       then obind (evict c) (\<lambda>c. Ret (True, c)) else Ret (False, c))"

section \<open>Routing\<close>

text \<open>The slots that belong to shard \<open>i\<close>.\<close>

definition shardPart :: "u64 \<Rightarrow> nat \<Rightarrow> slots \<Rightarrow> slots" where
  "shardPart msk i S = (\<lambda>h. if unat (h AND msk) = i then S h else None)"

definition cache_inv :: "('t, 'u, 'h) BigCache \<Rightarrow> slots \<Rightarrow> bool" where
  "cache_inv c S \<longleftrightarrow>
     (\<exists>k < 64. length (shards c) = 2 ^ k \<and> shardMask c = 2 ^ k - 1) \<and>
     (\<forall>i < length (shards c). shard_inv (shards c ! i) (shardPart (shardMask c) i S) \<and>
        ShardHasher (ttlTable (shards c ! i)) = hash c)"

lemma shardPart_upd:
  "shardPart msk i (S(h := e)) =
   (if unat (h AND msk) = i then (shardPart msk i S)(h := e) else shardPart msk i S)"
  by (auto simp: shardPart_def fun_eq_iff)

lemma shardPart_own: "shardPart msk (unat (h AND msk)) S h = S h"
  by (simp add: shardPart_def)

lemma route_in_range:
  assumes "cache_inv c S"
  shows "getShard h c = Ret (unat (h AND shardMask c))" and "unat (h AND shardMask c) < length (shards c)"
proof -
  from assms obtain k where k: "k < 64" "length (shards c) = 2 ^ k" "shardMask c = 2 ^ k - 1"
    unfolding cache_inv_def by blast
  then show "unat (h AND shardMask c) < length (shards c)" by (simp add: mask_shard)
  then show "getShard h c = Ret (unat (h AND shardMask c))" by (simp add: getShard_def)
qed

lemma cache_invD:
  assumes "cache_inv c S" and "i < length (shards c)"
  shows "shard_inv (shards c ! i) (shardPart (shardMask c) i S)" and "ShardHasher (ttlTable (shards c ! i)) = hash c"
  using assms unfolding cache_inv_def by blast+

text \<open>A call on the shard of hash \<open>h\<close> that changes at most this slot.\<close>

lemma cache_inv_update:
  assumes inv: "cache_inv c S" and i: "i = unat (h AND shardMask c)"
    and s: "shard_inv s ((shardPart (shardMask c) i S)(h := e))" "ShardHasher (ttlTable s) = hash c"
  shows "cache_inv (c\<lparr> shards := (shards c)[i := s] \<rparr>) (S(h := e))"
proof -
  have "shard_inv ((shards c)[i := s] ! j) (shardPart (shardMask c) j (S(h := e))) \<and>
      ShardHasher (ttlTable ((shards c)[i := s] ! j)) = hash c" if "j < length (shards c)" for j
    using cache_invD [OF inv that] s i that by (cases "j = i") (auto simp: shardPart_upd)
  with inv show ?thesis unfolding cache_inv_def by auto
qed

section \<open>The cache fulfils the contract\<close>

definition cache_sound :: "('t, 'u, 'h) BigCache \<Rightarrow> bool" where
  "cache_sound c \<longleftrightarrow> (\<forall>s \<in> set (shards c). shard_sound s)"

lemma cache_sound_upd: "cache_sound (c\<lparr> shards := (shards c)[i := s] \<rparr>) \<Longrightarrow> i < length (shards c) \<Longrightarrow> shard_sound s"
  by (auto simp: cache_sound_def set_update_memI)

lemma cache_get_law:
  assumes inv: "cache_inv c S"
  shows "\<exists>c'. cache_Get key c = Ret (answer key (S (hash c key)), c') \<and> cache_inv c' S \<and> hash c' = hash c"
proof -
  let ?h = "hash c key"
  let ?i = "unat (?h AND shardMask c)"
  note rt = route_in_range [OF inv, of ?h] and sh = cache_invD [OF inv route_in_range(2) [OF inv, of ?h]]
  obtain s' where s': "shard_get key ?h (shards c ! ?i) = Ret (answer key (S ?h), s')"
    "shard_inv s' (shardPart (shardMask c) ?i S)" "ShardHasher (ttlTable s') = hash c"
    using shard_get_answer [OF sh(1), of key ?h] sh(2) by (auto simp: shardPart_own)
  have "shard_inv s' ((shardPart (shardMask c) ?i S)(?h := S ?h))"
    using s'(2) fun_upd_triv [of "shardPart (shardMask c) ?i S" ?h] by (simp add: shardPart_own)
  from cache_inv_update [OF inv refl this s'(3)] rt(1) s'(1) show ?thesis
    by (simp add: cache_Get_def onShard_def Let_def)
qed

lemma cache_set_law:
  assumes inv: "cache_inv c S" and st: "storable key entry"
  shows "\<exists>r c'. cache_Set epoch now now' key entry d c = Ret (r, c') \<and>
    (cache_sound c' \<longrightarrow> hash c' = hash c \<and> r = (expiryTimestamp epoch d, None) \<and>
      cache_inv c' (S(hash c key \<mapsto> (expiryTimestamp epoch d, key, entry))))"
proof -
  let ?h = "hash c key"
  let ?i = "unat (?h AND shardMask c)"
  note rt = route_in_range [OF inv, of ?h] and sh = cache_invD [OF inv route_in_range(2) [OF inv, of ?h]]
  obtain r s' where s': "shard_set epoch now now' key ?h entry d (shards c ! ?i) = Ret (r, s')"
    "shard_sound s' \<longrightarrow> ShardHasher (ttlTable s') = hash c \<and> r = (expiryTimestamp epoch d, None) \<and>
      shard_inv s' ((shardPart (shardMask c) ?i S)(?h \<mapsto> (expiryTimestamp epoch d, key, entry)))"
    using shard_set_law [OF sh(1) st, of ?h epoch now now' d] sh(2) by auto
  let ?c = "c\<lparr> shards := (shards c)[?i := s'] \<rparr>"
  have "cache_Set epoch now now' key entry d c = Ret (r, ?c)"
    using rt(1) s'(1) by (simp add: cache_Set_def onShard_def Let_def)
  moreover have "hash ?c = hash c \<and> r = (expiryTimestamp epoch d, None) \<and>
      cache_inv ?c (S(?h \<mapsto> (expiryTimestamp epoch d, key, entry)))" if "cache_sound ?c"
    using s'(2) cache_sound_upd [OF that rt(2)] cache_inv_update [OF inv refl] by auto
  ultimately show ?thesis by blast
qed

lemma cache_del_law:
  assumes inv: "cache_inv c S"
  shows "\<exists>c'. cache_Delete now key c = Ret (if S (hash c key) = None then Some (NotFound key) else None, c') \<and>
    cache_inv c' (S(hash c key := None)) \<and> hash c' = hash c"
proof -
  let ?h = "hash c key"
  let ?i = "unat (?h AND shardMask c)"
  note rt = route_in_range [OF inv, of ?h] and sh = cache_invD [OF inv route_in_range(2) [OF inv, of ?h]]
  obtain s' where s': "shard_del now key ?h (shards c ! ?i) =
      Ret (if S ?h = None then Some (NotFound key) else None, s')"
    "shard_inv s' ((shardPart (shardMask c) ?i S)(?h := None))" "ShardHasher (ttlTable s') = hash c"
    using shard_del_law [OF sh(1), of ?h key now] sh(2) by (auto simp: shardPart_own)
  from cache_inv_update [OF inv refl s'(2,3)] rt(1) s'(1) show ?thesis
    by (simp add: cache_Delete_def onShard_def Let_def)
qed

interpretation cs: keyed_store cache_inv cache_sound hash cache_Get cache_Set cache_Delete
  by unfold_locales (rule cache_get_law cache_set_law cache_del_law; simp)+

section \<open>A new cache\<close>

lemma initShards_inv:
  assumes "avltree_laws T" "avltree_laws U" "hashset_laws H" "sized c"
  shows "\<exists>ss. initShards T U H now c i n = Ret ss \<and> length ss = n \<and>
    (\<forall>s \<in> set ss. shard_inv s Map.empty \<and> ShardHasher (ttlTable s) = hasherOf c)"
proof (induction n arbitrary: i)
  case (Suc n)
  obtain s where "initNewShard T U H (now i) c (of_nat i + 1) = Ret s" "shard_inv s Map.empty"
    "ShardHasher (ttlTable s) = hasherOf c"
    using initNewShard_inv [OF assms, of "now i" "of_nat i + 1"] by blast
  with Suc.IH [of "Suc i"] show ?case by auto
qed simp

lemma hasherOf_set [simp]: "hasherOf (c\<lparr> Hasher := Some f \<rparr>) = f"
  by (simp add: hasherOf_def)

lemma sized_set: "sized c \<Longrightarrow> sized (c\<lparr> Hasher := Some f \<rparr>)"
  by (simp add: sized_def initialShardSize_def)

lemma newBigCache_inv:
  assumes laws: "avltree_laws T" "avltree_laws U" "hashset_laws H" and c: "sized c"
    and p: "isPowerOfTwo (Shards c)"
  shows "\<exists>bc. newBigCache T U H now c = Ret (Inr bc) \<and> cache_inv bc Map.empty \<and> hash bc = hasherOf c \<and>
    int (length (shards bc)) = sint (Shards c)"
proof -
  let ?c = "c\<lparr> Hasher := Some (hasherOf c) \<rparr>"
  have pos: "0 < sint (Shards c)" using c by (simp add: sized_def)
  then have ne: "Shards c \<noteq> 0" by auto
  with p obtain k where k: "k < 64" "Shards c = 2 ^ k" by (auto simp: isPowerOfTwo_iff)
  have n: "nat (sint (Shards c)) = 2 ^ k"
    using pos sint_nonneg_uint [of "Shards c"] unat_power_of_two [OF k(1)] k(2) by (simp flip: nat_uint_eq)
  obtain ss where ss: "initShards T U H now ?c 0 (nat (sint (Shards c))) = Ret ss" "length ss = 2 ^ k"
    "\<forall>s \<in> set ss. shard_inv s Map.empty \<and> ShardHasher (ttlTable s) = hasherOf c"
    using initShards_inv [OF laws sized_set [OF c], of now "hasherOf c" 0 "2 ^ k"] unfolding n by auto
  obtain m where m: "maximumShardSize ?c = Ret m"
    using ne by (cases "maximumShardSize ?c") (auto simp: maximumShardSize_def goQuot_def split: if_splits)
  let ?bc = "\<lparr> shards = ss, cacheLifeWindow = durationSeconds (LifeWindow c), hash = hasherOf c,
    config = ?c, shardMask = Shards c - 1, maxShardSize = ucast m \<rparr>"
  have hs: "(case Hasher c of None \<Rightarrow> newDefaultHasher | Some f \<Rightarrow> f) = hasherOf c"
    by (simp add: hasherOf_def split: option.split)
  have "newBigCache T U H now c = Ret (Inr ?bc)"
    using p pos ss(1) m unfolding newBigCache_def hs by (simp add: Let_def)
  moreover have "shardPart msk i Map.empty = Map.empty" for msk i by (simp add: shardPart_def fun_eq_iff)
  then have "cache_inv ?bc Map.empty" unfolding cache_inv_def using ss(2,3) k by auto
  moreover have "int (length ss) = sint (Shards c)" using ss(2) n pos by (metis nat_eq_iff order_less_imp_le)
  ultimately show ?thesis by auto
qed

section \<open>Counting\<close>

lemma lenShards_sum:
  "(\<And>i. i < length ss \<Longrightarrow> shard_rep (ss ! i) (f i)) \<Longrightarrow>
   lenShards ss = Ret (\<Sum>i < length ss. int (card (dom (f i))))"
proof (induction ss arbitrary: f)
  case (Cons s ss)
  have "shard_len s = Ret (int (card (dom (f 0))))" using shard_len_card Cons.prems [of 0] by force
  moreover have "lenShards ss = Ret (\<Sum>i < length ss. int (card (dom (f (Suc i)))))"
    by (rule Cons.IH) (use Cons.prems [of "Suc _"] in force)
  ultimately show ?case by (simp add: sum.lessThan_Suc_shift del: sum.lessThan_Suc)
qed simp

lemma dom_shardPart: "dom (shardPart msk i S) = {h \<in> dom S. unat (h AND msk) = i}"
  by (auto simp: shardPart_def dom_def split: if_splits)

lemma cache_len_sum:
  assumes inv: "cache_inv c S"
  shows "cache_Len c = Ret (int (card (dom S)))"
proof -
  let ?n = "length (shards c)" and ?r = "\<lambda>h. unat (h AND shardMask c)"
  have "finite (dom S)" by (rule finite_subset [OF subset_UNIV]) simp
  then have "card (dom S) = (\<Sum>i < ?n. card {h \<in> dom S. ?r h = i})"
    using route_in_range(2) [OF inv]
    by (subst card_UN_disjoint [symmetric]) (auto intro: arg_cong [where f = card])
  then show ?thesis
    using lenShards_sum [of "shards c" "\<lambda>i. shardPart (shardMask c) i S"] shard_inv_rep [OF cache_invD(1) [OF inv]]
    by (simp add: cache_Len_def dom_shardPart)
qed

section \<open>Properties\<close>

text \<open>A small cache with one entry, for concrete runs.\<close>

abbreviation smallCache ::
    "(newError + ((int, nat) RBT.rbt, (u64, gostring list) RBT.rbt, gostring list) BigCache) outcome" where
  "smallCache \<equiv> newBigCache rbt_tree rbt_tree list_set (\<lambda>_. 100) smallConfig"

abbreviation withCache :: "('e + 'a) outcome \<Rightarrow> ('a \<Rightarrow> 'b outcome) \<Rightarrow> 'b outcome" where
  "withCache r f \<equiv> obind r (\<lambda>x. case x of Inl _ \<Rightarrow> Panic | Inr c \<Rightarrow> f c)"

lemma smallCache_inv:
  obtains c where "smallCache = Ret (Inr c)" "cache_inv c Map.empty" "hash c = Sum64"
proof -
  have "isPowerOfTwo (Shards smallConfig)" by code_simp
  moreover have "hasherOf smallConfig = Sum64"
    by (simp add: hasherOf_def smallConfig_def newDefaultHasher_def)
  ultimately show thesis
    using that newBigCache_inv [OF rbt_tree_laws rbt_tree_laws list_set_laws sized_smallConfig, of "\<lambda>_. 100"]
    by auto
qed

lemma smallCache_set:
  obtains c r c' where "smallCache = Ret (Inr c)" "cache_inv c Map.empty" "hash c = Sum64"
    "cache_Set 100 100 100 [107] [1, 2, 3] (seconds 50) c = Ret (r, c')" "cache_sound c'"
    "storable [107] [1, 2, 3]"
proof -
  obtain c where c: "smallCache = Ret (Inr c)" "cache_inv c Map.empty" "hash c = Sum64" by (rule smallCache_inv)
  have st: "storable [107] [1, 2, 3]" by (simp add: storable_def)
  obtain r c' where s: "cache_Set 100 100 100 [107] [1, 2, 3] (seconds 50) c = Ret (r, c')"
    using cs.store_law [OF c(2) st, of 100 100 100 "seconds 50"] by blast
  have "withCache smallCache (\<lambda>c. obind (cache_Set 100 100 100 [107] [1, 2, 3] (seconds 50) c)
      (\<lambda>p. Ret (cache_sound (snd p)))) = Ret True" by code_simp
  with that c s st show thesis by simp
qed

lemma zero_shards:
  assumes "Shards c = 0"
  shows "if 0 < sint (HardMaxCacheSize c) then newBigCache T U H now c = Panic
    else \<exists>bc. newBigCache T U H now c = Ret (Inr bc) \<and> (\<forall>key. cache_Get key bc = Panic) \<and>
      (\<forall>epoch now1 now2 key entry d. cache_Set epoch now1 now2 key entry d bc = Panic) \<and> (\<forall>now1 key. cache_Delete now1 key bc = Panic)"
  using assms
  by (simp add: newBigCache_def isPowerOfTwo_def maximumShardSize_def goQuot_def Let_def cache_Get_def cache_Set_def
      cache_Delete_def getShard_def split: option.split)


text \<open>
  C17.  Read your writes: after a \<^verbatim>\<open>Set\<close> that left the cache sound, \<^verbatim>\<open>Set\<close> has returned the
  expiry time, \<^verbatim>\<open>Get\<close> of the same key returns the value, and \<^verbatim>\<open>Get\<close> of every key with
  another hash answers as before.
\<close>

theorem get_returns_last_set:
  assumes "cache_inv c S" and "storable key entry"
    and "cache_Set epoch now now' key entry d c = Ret (r, c')" and "cache_sound c'"
  shows "r = (expiryTimestamp epoch d, None) \<and> (\<exists>c''. cache_Get key c' = Ret (Inr entry, c'')) \<and>
    (\<forall>key'. hash c key' \<noteq> hash c key \<longrightarrow>
      (\<exists>c''. cache_Get key' c' = Ret (answer key' (S (hash c key')), c'')))"
  using cs.store_inv(1) [OF assms] cs.get_after_store [OF assms] by blast

theorem get_returns_last_set_witness:
  "\<exists>c r c' c''. smallCache = Ret (Inr c) \<and>
     cache_Set 100 100 100 [107] [1, 2, 3] (seconds 50) c = Ret (r, c') \<and>
     cache_Get [107] c' = Ret (Inr [1, 2, 3], c'')"
proof -
  obtain c r c' where c: "smallCache = Ret (Inr c)" "cache_inv c Map.empty"
    "cache_Set 100 100 100 [107] [1, 2, 3] (seconds 50) c = Ret (r, c')" "cache_sound c'"
    "storable [107] [1, 2, 3]" by (rule smallCache_set)
  with get_returns_last_set [OF c(2,5,3,4)] show ?thesis by blast
qed

text \<open>
  After a \<^verbatim>\<open>Delete\<close> the key is not found, and every key with another hash answers as
  before.
\<close>

lemma get_after_delete_misses:
  assumes "cache_inv c S" and "cache_Delete now key c = Ret (r, c')"
  shows "(\<exists>c''. cache_Get key c' = Ret (Inl (NotFound key), c'')) \<and>
    (\<forall>key'. hash c key' \<noteq> hash c key \<longrightarrow>
      (\<exists>c''. cache_Get key' c' = Ret (answer key' (S (hash c key')), c'')))"
  using cs.get_after_del [OF assms] by blast

text \<open>\<^verbatim>\<open>Len\<close> is the number of stored entries over all shards.\<close>

lemma len_counts_entries:
  assumes "cache_inv c S"
  shows "cache_Len c = Ret (int (card (dom S)))"
  by (rule cache_len_sum [OF assms])


end
