(* ===== verification/CacheIterator.thy ===== *)
theory CacheIterator
  imports BigCache "HOL-Library.Multiset"
begin

text \<open>
  The iterator over a cache (\<^verbatim>\<open>bigcache/iterator.go\<close>).  It keeps a copy of the entry indexes
  of one shard and moves on to the next shard that has any.  The cache it points to is an
  argument of its methods; the order in which the language ranges over a hash map is the
  parameter \<open>order\<close>, of which only that it is a permutation is assumed.

  Main result: on a cache that is not changed meanwhile, iterating returns every stored
  entry exactly once and then ends.
\<close>

section \<open>The data\<close>

record EntryInfo =
  entryTimestamp :: u64
  entryHash :: u64
  entryKey :: gostring
  entryValue :: "byte list"

datatype iteratorError = InvalidIteratorState | CannotRetrieveEntry

record EntryInfoIterator =
  currentShard :: nat
  currentIndex :: int
  elements :: "u32 list"
  elementsCount :: nat
  valid :: bool

type_synonym range_order = "(u64 \<times> u32) list \<Rightarrow> (u64 \<times> u32) list"

section \<open>Operations\<close>

text \<open>Indexing the slice of shards outside its length panics.\<close>

definition shardAt :: "nat \<Rightarrow> ('t, 'u, 'h) BigCache \<Rightarrow> ('t, 'u, 'h) cacheShard outcome" where
  "shardAt i c = (if i < length (shards c) then Ret (shards c ! i) else Panic)"

definition newIterator :: "range_order \<Rightarrow> ('t, 'u, 'h) BigCache \<Rightarrow> EntryInfoIterator outcome" where
  "newIterator order c =
     obind (shardAt 0 c) (\<lambda>s.
     obind (copyKeys order s) (\<lambda>(elems, n).
       Ret \<lparr> currentShard = 0, currentIndex = -1, elements = elems, elementsCount = n, valid = False \<rparr>))"

definition cache_Iterator :: "range_order \<Rightarrow> ('t, 'u, 'h) BigCache \<Rightarrow> EntryInfoIterator outcome" where
  "cache_Iterator order c = newIterator order c"

text \<open>The loop of \<^verbatim>\<open>SetNext\<close> over the shards from \<open>i\<close>, of which \<open>n\<close> are left.\<close>

fun nextShard ::
    "range_order \<Rightarrow> ('t, 'u, 'h) BigCache \<Rightarrow> nat \<Rightarrow> nat \<Rightarrow> EntryInfoIterator \<Rightarrow> (bool \<times> EntryInfoIterator) outcome" where
  "nextShard order c i 0 it = Ret (False, it)"
| "nextShard order c i (Suc n) it =
     obind (shardAt i c) (\<lambda>s.
     obind (copyKeys order s) (\<lambda>(elems, cnt).
       let it = it\<lparr> elements := elems, elementsCount := cnt \<rparr> in
       if cnt > 0 then Ret (True, it\<lparr> currentIndex := 0, currentShard := i, valid := True \<rparr>)
       else nextShard order c (Suc i) n it))"

definition SetNext ::
    "range_order \<Rightarrow> ('t, 'u, 'h) BigCache \<Rightarrow> EntryInfoIterator \<Rightarrow> (bool \<times> EntryInfoIterator) outcome" where
  "SetNext order c it =
     (let it = it\<lparr> valid := False, currentIndex := currentIndex it + 1 \<rparr> in
      if int (elementsCount it) > currentIndex it then Ret (True, it\<lparr> valid := True \<rparr>)
      else nextShard order c (currentShard it + 1)
             (nat (sint (Shards (config c))) - (currentShard it + 1)) it)"

definition Value :: "('t, 'u, 'h) BigCache \<Rightarrow> EntryInfoIterator \<Rightarrow> (iteratorError + EntryInfo) outcome" where
  "Value c it =
     (if \<not> valid it then Ret (Inl InvalidIteratorState)
      else obind (shardAt (currentShard it) c) (\<lambda>s.
        if currentIndex it < 0 \<or> int (length (elements it)) \<le> currentIndex it then Panic
        else obind (getEntry (uint (elements it ! nat (currentIndex it))) s) (\<lambda>r. case r of
            Inl _ \<Rightarrow> Ret (Inl CannotRetrieveEntry)
          | Inr entry \<Rightarrow>
              obind (readTimestampFromEntry (wrapped s entry)) (\<lambda>ts.
              obind (readHashFromEntry (wrapped s entry)) (\<lambda>h.
              obind (readKeyFromEntry (wrapped s entry)) (\<lambda>k.
              obind (readEntry (wrapped s entry)) (\<lambda>v.
                Ret (Inr \<lparr> entryTimestamp = ts, entryHash = h, entryKey = k, entryValue = v \<rparr>))))))))"

text \<open>
  The way clients use it: \<^verbatim>\<open>for it.SetNext() { it.Value() }\<close>, with a bound on the number of
  rounds.
\<close>

fun collect ::
    "nat \<Rightarrow> range_order \<Rightarrow> ('t, 'u, 'h) BigCache \<Rightarrow> EntryInfoIterator \<Rightarrow> (iteratorError + EntryInfo) list outcome" where
  "collect 0 order c it = Blocked"
| "collect (Suc n) order c it =
     obind (SetNext order c it) (\<lambda>(more, it).
       if more then obind (Value c it) (\<lambda>r. obind (collect n order c it) (\<lambda>rs. Ret (r # rs)))
       else Ret [])"

section \<open>What is left to visit\<close>

definition elems :: "range_order \<Rightarrow> ('t, 'u, 'h) BigCache \<Rightarrow> nat \<Rightarrow> u32 list" where
  "elems order c i = map snd (order (hashmap (shards c ! i)))"

definition later :: "range_order \<Rightarrow> ('t, 'u, 'h) BigCache \<Rightarrow> nat \<Rightarrow> (nat \<times> u32) list" where
  "later order c i = concat (map (\<lambda>j. map (Pair j) (elems order c j)) [i..<length (shards c)])"

definition remaining :: "range_order \<Rightarrow> ('t, 'u, 'h) BigCache \<Rightarrow> EntryInfoIterator \<Rightarrow> (nat \<times> u32) list" where
  "remaining order c it =
     map (Pair (currentShard it)) (drop (nat (currentIndex it + 1)) (elements it)) @
     later order c (Suc (currentShard it))"

definition it_ok :: "EntryInfoIterator \<Rightarrow> bool" where
  "it_ok it \<longleftrightarrow> -1 \<le> currentIndex it \<and> elementsCount it = length (elements it)"

definition readable :: "range_order \<Rightarrow> ('t, 'u, 'h) BigCache \<Rightarrow> bool" where
  "readable order c \<longleftrightarrow> int (length (shards c)) = sint (Shards (config c)) \<and>
     (\<forall>s \<in> set (shards c). \<not> locked s) \<and> (\<forall>xs. mset (order xs) = mset xs)"

lemma copyKeys_readable:
  assumes "readable order c" and "i < length (shards c)"
  shows "copyKeys order (shards c ! i) = Ret (elems order c i, length (elems order c i))"
proof -
  have "length (order xs) = length xs" for xs
    using assms(1) unfolding readable_def by (metis mset_eq_length)
  then show ?thesis using assms by (simp add: copyKeys_def readable_def elems_def)
qed

lemma later_step: "i < length (shards c) \<Longrightarrow> later order c i = map (Pair i) (elems order c i) @ later order c (Suc i)"
  by (simp add: later_def upt_conv_Cons)

lemma nextShard_later:
  assumes "readable order c" and "n = length (shards c) - i"
  shows "case later order c i of
      [] \<Rightarrow> \<exists>it'. nextShard order c i n it = Ret (False, it')
    | (j, e) # rest \<Rightarrow> \<exists>it'. nextShard order c i n it = Ret (True, it') \<and> it_ok it' \<and> valid it' \<and>
        currentShard it' = j \<and> j < length (shards c) \<and> currentIndex it' = 0 \<and>
        elements it' = elems order c j \<and> elements it' \<noteq> [] \<and> hd (elements it') = e \<and>
        remaining order c it' = rest"
  using assms(2)
proof (induction n arbitrary: i it)
  case 0
  then show ?case by (simp add: later_def)
next
  case (Suc n)
  then have i: "i < length (shards c)" by simp
  let ?it = "it\<lparr> elements := elems order c i, elementsCount := length (elems order c i) \<rparr>"
  have run: "nextShard order c i (Suc n) it =
      (if elems order c i \<noteq> [] then Ret (True, ?it\<lparr> currentIndex := 0, currentShard := i, valid := True \<rparr>)
       else nextShard order c (Suc i) n ?it)"
    using i copyKeys_readable [OF assms(1) i] by (simp add: shardAt_def Let_def)
  show ?case
  proof (cases "elems order c i")
    case Nil
    have n: "n = length (shards c) - Suc i" using Suc.prems by simp
    have "nextShard order c i (Suc n) it = nextShard order c (Suc i) n ?it" using run Nil by simp
    moreover have "later order c i = later order c (Suc i)" using i Nil by (simp add: later_step)
    ultimately show ?thesis using Suc.IH [OF n, of ?it] by (simp only:)
  next
    case (Cons e es)
    then show ?thesis
      using i run by (simp add: later_step it_ok_def remaining_def)
  qed
qed

lemma SetNext_remaining:
  assumes ok: "it_ok it" and rd: "readable order c"
  shows "case remaining order c it of
      [] \<Rightarrow> \<exists>it'. SetNext order c it = Ret (False, it')
    | (j, e) # rest \<Rightarrow> \<exists>it'. SetNext order c it = Ret (True, it') \<and> it_ok it' \<and> valid it' \<and>
        currentShard it' = j \<and> 0 \<le> currentIndex it' \<and> nat (currentIndex it') < length (elements it') \<and>
        elements it' ! nat (currentIndex it') = e \<and> remaining order c it' = rest"
proof (cases "currentIndex it + 1 < int (length (elements it))")
  case True
  let ?i = "nat (currentIndex it + 1)"
  have i: "?i < length (elements it)" "nat (currentIndex it + 1 + 1) = Suc ?i" "0 \<le> currentIndex it + 1"
    using ok True by (auto simp: it_ok_def)
  let ?it = "it\<lparr> valid := True, currentIndex := currentIndex it + 1 \<rparr>"
  have "remaining order c it = (currentShard it, elements it ! ?i) # remaining order c ?it"
    using i by (simp add: remaining_def Cons_nth_drop_Suc [symmetric])
  moreover have "SetNext order c it = Ret (True, ?it)"
    using True ok by (simp add: SetNext_def it_ok_def Let_def)
  ultimately show ?thesis using i ok by (auto simp: it_ok_def)
next
  case False
  let ?it = "it\<lparr> valid := False, currentIndex := currentIndex it + 1 \<rparr>"
  have rem: "remaining order c it = later order c (Suc (currentShard it))"
    using False by (simp add: remaining_def)
  have "nat (sint (Shards (config c))) = length (shards c)"
    using rd unfolding readable_def by (metis nat_int)
  then have "SetNext order c it =
      nextShard order c (Suc (currentShard it)) (length (shards c) - Suc (currentShard it)) ?it"
    using False ok by (simp add: SetNext_def it_ok_def Let_def)
  with nextShard_later [OF rd refl, of "Suc (currentShard it)" ?it] show ?thesis
    unfolding rem by (fastforce split: list.splits prod.splits simp: hd_conv_nth)
qed

section \<open>Reading an element\<close>

definition infoOf :: "u64 \<Rightarrow> (u64 \<times> gostring \<times> byte list) \<Rightarrow> EntryInfo" where
  "infoOf h e = \<lparr> entryTimestamp = fst e, entryHash = h, entryKey = fst (snd e), entryValue = snd (snd e) \<rparr>"

lemma Value_entry:
  assumes inv: "cache_inv c S" and i: "currentShard it < length (shards c)" and v: "valid it"
    and ix: "0 \<le> currentIndex it" "nat (currentIndex it) < length (elements it)"
    and h: "map_of (hashmap (shards c ! currentShard it)) h = Some (elements it ! nat (currentIndex it))"
  shows "\<exists>e. S h = Some e \<and> unat (h AND shardMask c) = currentShard it \<and> Value c it = Ret (Inr (infoOf h e))"
proof -
  let ?s = "shards c ! currentShard it" and ?S = "shardPart (shardMask c) (currentShard it) S"
  from cache_invD(1) [OF inv i] obtain L where q: "q_rep (entries ?s) L" "index_rep (map_of (hashmap ?s)) L ?S"
    unfolding shard_inv_def shard_rep_def by blast
  from index_repE [OF q(2) h] obtain ts k x where S: "?S h = Some (ts, k, x)" by metis
  obtain i w rest where sl: "map_of (hashmap ?s) h = Some i" "length k \<le> 65517"
    "Get (uint i) (entries ?s) = Ret (Inr w)" "wrapped ?s w = entrySlice (encoded ts h k x) rest"
    using slot_entry [OF q S] by metis
  have "unat (h AND shardMask c) = currentShard it"
    using S by (rule contrapos_pp) (simp add: shardPart_def)
  moreover from this S have "S h = Some (ts, k, x)" by (simp add: shardPart_def)
  moreover have "elements it ! nat (currentIndex it) = i" using h sl(1) by simp
  then have "Value c it = Ret (Inr (infoOf h (ts, k, x)))"
    using v ix assms(2) sl(3,4) readKey_encoded [OF sl(2), of ts h x rest] readEntry_encoded [OF sl(2), of ts h x rest]
      readTimestamp_encoded [of ts h k x rest] readHash_encoded [of ts h k x rest]
    by (simp add: Value_def shardAt_def getEntry_def infoOf_def)
  ultimately show ?thesis by blast
qed

section \<open>A complete iteration\<close>

lemma elems_slots:
  assumes inv: "cache_inv c S" and rd: "readable order c" and i: "i < length (shards c)"
  shows "\<exists>hs. elems order c i = map (\<lambda>h. the (map_of (hashmap (shards c ! i)) h)) hs \<and> distinct hs \<and>
    set hs = dom (shardPart (shardMask c) i S)"
proof -
  let ?m = "hashmap (shards c ! i)"
  note rep = shard_inv_rep [OF cache_invD(1) [OF inv i]]
  have d: "distinct (map fst ?m)" using rep by (simp add: shard_rep_def)
  have dom: "dom (shardPart (shardMask c) i S) = fst ` set ?m"
    using shard_rep_dom [OF rep] by (simp add: dom_map_of_conv_image_fst)
  have ms: "mset (order ?m) = mset ?m" using rd by (simp add: readable_def)
  have "set (order ?m) = set ?m" by (rule mset_eq_setD [OF ms])
  moreover have "distinct (map fst (order ?m))"
    using ms d by (metis mset_map mset_eq_imp_distinct_iff)
  moreover have "snd p = the (map_of ?m (fst p))" if "p \<in> set (order ?m)" for p
    using that calculation(1) d by (metis map_of_eq_Some_iff option.sel prod.collapse)
  ultimately show ?thesis
    using dom by (intro exI [of _ "map fst (order ?m)"]) (auto simp: elems_def)
qed

text \<open>The shard and the index of the entry in slot \<open>h\<close>.\<close>

definition place :: "('t, 'u, 'h) BigCache \<Rightarrow> u64 \<Rightarrow> nat \<times> u32" where
  "place c h = (let i = unat (h AND shardMask c) in (i, the (map_of (hashmap (shards c ! i)) h)))"

lemma distinct_concat_keyed:
  assumes "\<And>i. i < n \<Longrightarrow> distinct (f i)" and "\<And>i x. i < n \<Longrightarrow> x \<in> set (f i) \<Longrightarrow> r x = (i :: nat)"
  shows "distinct (concat (map f [0..<n]))"
  using assms
proof (induction n)
  case (Suc n)
  have "set (concat (map f [0..<n])) \<inter> set (f n) = {}"
  proof (intro equals0I)
    fix x
    assume "x \<in> set (concat (map f [0..<n])) \<inter> set (f n)"
    then obtain i where "i < n" "x \<in> set (f i)" "x \<in> set (f n)" by auto
    with Suc.prems(2) [of i x] Suc.prems(2) [of n x] show False by simp
  qed
  moreover have "distinct (concat (map f [0..<n]))" by (rule Suc.IH) (simp_all add: Suc.prems)
  ultimately show ?case using Suc.prems(1) [of n] by simp
qed simp

lemma later_slots:
  assumes inv: "cache_inv c S" and rd: "readable order c"
  obtains hs where "later order c 0 = map (place c) hs" "distinct hs" "set hs = dom S"
proof -
  let ?n = "length (shards c)" and ?r = "\<lambda>h. unat (h AND shardMask c)"
  from elems_slots [OF inv rd] obtain f where f:
    "\<And>i. i < ?n \<Longrightarrow> elems order c i = map (\<lambda>h. the (map_of (hashmap (shards c ! i)) h)) (f i)"
    "\<And>i. i < ?n \<Longrightarrow> distinct (f i)" "\<And>i. i < ?n \<Longrightarrow> set (f i) = dom (shardPart (shardMask c) i S)" by metis
  have r: "?r h = i" if "h \<in> set (f i)" "i < ?n" for h i
    using that f(3) [OF that(2)] by (simp add: dom_shardPart)
  have "map (Pair i) (elems order c i) = map (place c) (f i)" if "i < ?n" for i
    using f(1) [OF that] r [OF _ that] by (simp add: place_def Let_def)
  then have "later order c 0 = map (place c) (concat (map f [0..<?n]))"
    unfolding later_def map_concat map_map comp_def
    by (intro arg_cong [where f = concat] map_cong) simp_all
  moreover have "distinct (concat (map f [0..<?n]))"
    by (rule distinct_concat_keyed [where r = ?r]) (simp_all add: f(2) r)
  moreover have "set (concat (map f [0..<?n])) = dom S"
    using f(3) route_in_range(2) [OF inv] by (auto simp: dom_shardPart)
  ultimately show thesis by (rule that)
qed

lemma collect_slots:
  assumes inv: "cache_inv c S" and rd: "readable order c"
  shows "it_ok it \<Longrightarrow> remaining order c it = map (place c) hs \<Longrightarrow> set hs \<subseteq> dom S \<Longrightarrow> length hs < fuel \<Longrightarrow>
    collect fuel order c it = Ret (map (\<lambda>h. Inr (infoOf h (the (S h)))) hs)"
proof (induction hs arbitrary: fuel it)
  case Nil
  then obtain n where "fuel = Suc n" by (cases fuel) auto
  with SetNext_remaining [OF Nil(1) rd] Nil(2) show ?case by auto
next
  case (Cons h hs)
  then obtain n where n: "fuel = Suc n" "length hs < n" by (cases fuel) auto
  let ?i = "unat (h AND shardMask c)"
  obtain it' where it': "SetNext order c it = Ret (True, it')" "it_ok it'" "valid it'" "currentShard it' = ?i"
    "0 \<le> currentIndex it'" "nat (currentIndex it') < length (elements it')"
    "elements it' ! nat (currentIndex it') = the (map_of (hashmap (shards c ! ?i)) h)"
    "remaining order c it' = map (place c) hs"
    using SetNext_remaining [OF Cons.prems(1) rd] Cons.prems(2) by (auto simp: place_def Let_def)
  have ri: "?i < length (shards c)" by (rule route_in_range(2) [OF inv])
  have "h \<in> dom (shardPart (shardMask c) ?i S)" using Cons.prems(3) by (simp add: dom_shardPart)
  then have "h \<in> dom (map_of (hashmap (shards c ! ?i)))"
    using shard_rep_dom [OF shard_inv_rep [OF cache_invD(1) [OF inv ri]]] by simp
  then have "map_of (hashmap (shards c ! currentShard it')) h = Some (elements it' ! nat (currentIndex it'))"
    using it'(4,7) by auto
  from Value_entry [OF inv _ it'(3,5,6) this] ri it'(4)
  have "Value c it' = Ret (Inr (infoOf h (the (S h))))" by auto
  with Cons.IH [OF it'(2,8) _ n(2)] Cons.prems(3) it'(1) n(1) show ?case by simp
qed

lemma newIterator_start:
  assumes inv: "cache_inv c S" and rd: "readable order c"
  shows "\<exists>it. newIterator order c = Ret it \<and> it_ok it \<and> remaining order c it = later order c 0"
proof -
  have 0: "0 < length (shards c)" using inv by (auto simp: cache_inv_def)
  then show ?thesis
    using copyKeys_readable [OF rd 0]
    by (simp add: newIterator_def shardAt_def it_ok_def remaining_def later_step)
qed

section \<open>Properties\<close>

text \<open>
  C19.  Iterating over a cache that is not changed meanwhile returns every stored entry
  exactly once, with its expiry time, hash, key and value, and then ends, in whatever order
  the language ranges over the hash maps.
\<close>

theorem iteration_visits_each_entry_once:
  assumes "cache_inv c S" and "readable order c" and "card (dom S) < rounds"
  shows "\<exists>it hs. cache_Iterator order c = Ret it \<and> distinct hs \<and> set hs = dom S \<and>
    collect rounds order c it = Ret (map (\<lambda>h. Inr (infoOf h (the (S h)))) hs)"
proof -
  obtain hs where hs: "later order c 0 = map (place c) hs" "distinct hs" "set hs = dom S"
    by (rule later_slots [OF assms(1,2)])
  obtain it where "newIterator order c = Ret it" "it_ok it" "remaining order c it = later order c 0"
    using newIterator_start [OF assms(1,2)] by blast
  moreover have "length hs < rounds" using hs(2,3) assms(3) by (metis distinct_card)
  ultimately show ?thesis using collect_slots [OF assms(1,2), of it hs rounds] hs by (auto simp: cache_Iterator_def)
qed

theorem iteration_visits_each_entry_once_witness:
  "\<exists>c r c' it. smallCache = Ret (Inr c) \<and>
     cache_Set 100 100 100 [107] [1, 2, 3] (seconds 50) c = Ret (r, c') \<and>
     cache_Iterator (\<lambda>xs. xs) c' = Ret it \<and>
     collect 2 (\<lambda>xs. xs) c' it = Ret [Inr (infoOf (Sum64 [107]) (150, [107], [1, 2, 3]))]"
proof -
  let ?S = "[Sum64 [107] \<mapsto> (150, [107], [1, 2, 3])] :: slots"
  obtain c r c' where c: "smallCache = Ret (Inr c)" "cache_inv c Map.empty" "hash c = Sum64"
    "cache_Set 100 100 100 [107] [1, 2, 3] (seconds 50) c = Ret (r, c')" "cache_sound c'"
    "storable [107] [1, 2, 3]" by (rule smallCache_set)
  have ts: "expiryTimestamp 100 (seconds 50) = 150" by code_simp
  have inv: "cache_inv c' ?S"
    using cs.store_inv(3) [OF c(2,6,4,5)] c(3) ts by simp
  have "withCache smallCache (\<lambda>c. obind (cache_Set 100 100 100 [107] [1, 2, 3] (seconds 50) c)
      (\<lambda>p. Ret (length (shards (snd p)), sint (Shards (config (snd p)))))) = Ret (1, 1)" by code_simp
  with c have "readable (\<lambda>xs. xs) c'" by (simp add: readable_def cache_sound_def shard_sound_def)
  moreover have "card (dom ?S) < 2" by simp
  ultimately obtain it hs where it: "cache_Iterator (\<lambda>xs. xs) c' = Ret it" "distinct hs" "set hs = dom ?S"
    "collect 2 (\<lambda>xs. xs) c' it = Ret (map (\<lambda>h. Inr (infoOf h (the (?S h)))) hs)"
    using iteration_visits_each_entry_once [OF inv] by blast
  from it(3) have hs: "set hs = {Sum64 [107]}" by (simp add: dom_def)
  then have "length hs = 1" using distinct_card [OF it(2)] by simp
  then obtain h where "hs = [h]" by (auto simp: length_Suc_conv)
  with hs it(4) have "collect 2 (\<lambda>xs. xs) c' it = Ret [Inr (infoOf (Sum64 [107]) (150, [107], [1, 2, 3]))]" by simp
  with it(1) c(1,4) show ?thesis by blast
qed

end
