(* ===== verification/Channels.thy ===== *)
theory Channels
  imports Prelude
begin

text \<open>
  Go's buffered channels: sending on a closed channel panics, sending on a full one and
  receiving from an empty open one block, receiving from a drained closed one ends a
  \<^verbatim>\<open>range\<close> loop (\<open>None\<close>), closing twice panics.
\<close>

record 'a chan =
  chanItems :: "'a list"
  chanCap :: nat
  chanClosed :: bool

definition makeChan :: "nat \<Rightarrow> 'a chan" where
  "makeChan n = \<lparr> chanItems = [], chanCap = n, chanClosed = False \<rparr>"

definition chanSend :: "'a \<Rightarrow> 'a chan \<Rightarrow> 'a chan outcome" where
  "chanSend x ch =
     (if chanClosed ch then Panic
      else if chanCap ch \<le> length (chanItems ch) then Blocked
      else Ret (ch\<lparr> chanItems := chanItems ch @ [x] \<rparr>))"

definition chanRecv :: "'a chan \<Rightarrow> ('a option \<times> 'a chan) outcome" where
  "chanRecv ch =
     (case chanItems ch of
        x # xs \<Rightarrow> Ret (Some x, ch\<lparr> chanItems := xs \<rparr>)
      | [] \<Rightarrow> if chanClosed ch then Ret (None, ch) else Blocked)"

definition chanClose :: "'a chan \<Rightarrow> 'a chan outcome" where
  "chanClose ch = (if chanClosed ch then Panic else Ret (ch\<lparr> chanClosed := True \<rparr>))"

text \<open>
  \<^verbatim>\<open>select { case <-done: case ch <- x: }\<close> in a function that recovers from panics.
  \<open>done\<close> says that the channel \<^verbatim>\<open>done\<close> is closed.  When both cases are ready the runtime
  picks one, which is \<open>pickSend\<close>; the send case of a closed channel panics, and nothing
  has happened.
\<close>

definition selectSend :: "bool \<Rightarrow> bool \<Rightarrow> 'a \<Rightarrow> 'a chan \<Rightarrow> 'a chan outcome" where
  "selectSend done pickSend x ch =
     (if chanClosed ch then Ret ch
      else if chanCap ch \<le> length (chanItems ch) then if done then Ret ch else Blocked
      else if done \<and> \<not> pickSend then Ret ch
      else Ret (ch\<lparr> chanItems := chanItems ch @ [x] \<rparr>))"

lemma chanSend_Ret:
  "chanSend x ch = Ret ch' \<longleftrightarrow> \<not> chanClosed ch \<and> length (chanItems ch) < chanCap ch \<and>
     ch' = ch\<lparr> chanItems := chanItems ch @ [x] \<rparr>"
  by (auto simp: chanSend_def)

lemma selectSend_Ret:
  assumes "selectSend d p x ch = Ret ch'"
  shows "ch' = ch \<or> ch' = ch\<lparr> chanItems := chanItems ch @ [x] \<rparr>"
  using assms by (auto simp: selectSend_def split: if_splits)

lemma selectSend_open:
  "\<not> chanClosed ch \<Longrightarrow> length (chanItems ch) < chanCap ch \<Longrightarrow>
   selectSend False p x ch = Ret (ch\<lparr> chanItems := chanItems ch @ [x] \<rparr>)"
  by (simp add: selectSend_def)

lemma selectSend_no_panic: "selectSend d p x ch \<noteq> Panic"
  by (simp add: selectSend_def)

text \<open>Sending one message after another keeps their order.\<close>

fun chanSendAll :: "'a list \<Rightarrow> 'a chan \<Rightarrow> 'a chan outcome" where
  "chanSendAll [] ch = Ret ch"
| "chanSendAll (x # xs) ch = obind (chanSend x ch) (chanSendAll xs)"

lemma chanSendAll_fits:
  "\<not> chanClosed ch \<Longrightarrow> length (chanItems ch) + length xs \<le> chanCap ch \<Longrightarrow>
   chanSendAll xs ch = Ret (ch\<lparr> chanItems := chanItems ch @ xs \<rparr>)"
  by (induction xs arbitrary: ch) (auto simp: chanSend_def)

lemma chanRecv_Some: "chanRecv ch = Ret (Some v, ch') \<Longrightarrow> chanItems ch = v # chanItems ch'"
  by (auto simp: chanRecv_def split: list.splits if_splits)

lemma chanRecv_None: "chanRecv ch = Ret (None, ch') \<Longrightarrow> ch' = ch"
  by (auto simp: chanRecv_def split: list.splits if_splits)

lemma chanRecv_closed: "chanRecv ch = Ret (v, ch') \<Longrightarrow> chanClosed ch' = chanClosed ch"
  by (auto simp: chanRecv_def split: list.splits if_splits)

lemma selectSend_closed: "selectSend d p x ch = Ret ch' \<Longrightarrow> chanClosed ch' = chanClosed ch"
  by (drule selectSend_Ret) auto

lemma chanSendAll_items: "chanSendAll xs ch = Ret ch' \<Longrightarrow> chanItems ch' = chanItems ch @ xs"
  by (induction xs arbitrary: ch) (auto simp: obind_eq_Ret chanSend_Ret)

end
