(* ===== verification/Utf8.thy ===== *)
theory Utf8
  imports Prelude
begin

text \<open>
  The part of Go's \<^verbatim>\<open>unicode/utf8\<close> that \<^verbatim>\<open>encoding/json\<close> uses on the strings of the cluster
  messages: \<^verbatim>\<open>DecodeRune\<close>, \<^verbatim>\<open>EncodeRune\<close>, and the coercion of a string to valid UTF-8
  that a round trip through JSON performs.  A rune is a natural number.
\<close>

definition RuneError :: nat where "RuneError = 65533"

definition inRange :: "byte \<Rightarrow> byte \<Rightarrow> byte \<Rightarrow> bool" where
  "inRange lo hi b \<longleftrightarrow> lo \<le> b \<and> b \<le> hi"

text \<open>The range the second byte must lie in, given the first (the table \<^verbatim>\<open>acceptRanges\<close>).\<close>

definition acceptSecond :: "byte \<Rightarrow> byte \<Rightarrow> bool" where
  "acceptSecond b0 = (if b0 = 0xE0 then inRange 0xA0 0xBF
                      else if b0 = 0xED then inRange 0x80 0x9F
                      else if b0 = 0xF0 then inRange 0x90 0xBF
                      else if b0 = 0xF4 then inRange 0x80 0x8F
                      else inRange 0x80 0xBF)"

text \<open>The rune at the front of a string and its width; an invalid byte is \<open>(RuneError, 1)\<close>.\<close>

fun decode2 :: "byte \<Rightarrow> byte list \<Rightarrow> nat \<times> nat" where
  "decode2 b0 (b1 # bs) =
     (if inRange 0x80 0xBF b1 then ((unat b0 - 192) * 64 + (unat b1 - 128), 2) else (RuneError, 1))"
| "decode2 b0 [] = (RuneError, 1)"

fun decode3 :: "byte \<Rightarrow> byte list \<Rightarrow> nat \<times> nat" where
  "decode3 b0 (b1 # b2 # bs) =
     (if acceptSecond b0 b1 \<and> inRange 0x80 0xBF b2
      then ((unat b0 - 224) * 4096 + (unat b1 - 128) * 64 + (unat b2 - 128), 3) else (RuneError, 1))"
| "decode3 b0 _ = (RuneError, 1)"

fun decode4 :: "byte \<Rightarrow> byte list \<Rightarrow> nat \<times> nat" where
  "decode4 b0 (b1 # b2 # b3 # bs) =
     (if acceptSecond b0 b1 \<and> inRange 0x80 0xBF b2 \<and> inRange 0x80 0xBF b3
      then ((unat b0 - 240) * 262144 + (unat b1 - 128) * 4096 + (unat b2 - 128) * 64 + (unat b3 - 128), 4)
      else (RuneError, 1))"
| "decode4 b0 _ = (RuneError, 1)"

fun DecodeRune :: "byte list \<Rightarrow> nat \<times> nat" where
  "DecodeRune [] = (RuneError, 0)"
| "DecodeRune (b0 # bs) =
     (if b0 < 0x80 then (unat b0, 1)
      else if inRange 0xC2 0xDF b0 then decode2 b0 bs
      else if inRange 0xE0 0xEF b0 then decode3 b0 bs
      else if inRange 0xF0 0xF4 b0 then decode4 b0 bs
      else (RuneError, 1))"

definition surrogate :: "nat \<Rightarrow> bool" where
  "surrogate r \<longleftrightarrow> 0xD800 \<le> r \<and> r < 0xE000"

definition EncodeRune :: "nat \<Rightarrow> byte list" where
  "EncodeRune r =
     (let r = (if r > 0x10FFFF \<or> surrogate r then RuneError else r) in
      if r < 0x80 then [of_nat r]
      else if r < 0x800 then [of_nat (192 + r div 64), of_nat (128 + r mod 64)]
      else if r < 0x10000
        then [of_nat (224 + r div 4096), of_nat (128 + r div 64 mod 64), of_nat (128 + r mod 64)]
      else [of_nat (240 + r div 262144), of_nat (128 + r div 4096 mod 64),
            of_nat (128 + r div 64 mod 64), of_nat (128 + r mod 64)])"

text \<open>The front byte does not start a valid encoding.\<close>

definition badRune :: "byte list \<Rightarrow> bool" where
  "badRune bs \<longleftrightarrow> DecodeRune bs = (RuneError, 1)"

lemma decode_width_cases:
  "snd (decode2 b bs) \<in> {1, 2}" "snd (decode3 b bs) \<in> {1, 3}" "snd (decode4 b bs) \<in> {1, 4}"
  by (cases "(b, bs)" rule: decode2.cases; simp)
     (cases "(b, bs)" rule: decode3.cases; simp; fail | cases "(b, bs)" rule: decode4.cases; simp; fail)+

lemma decode_fits:
  "snd (decode2 b bs) \<le> Suc (length bs)" "snd (decode3 b bs) \<le> Suc (length bs)"
  "snd (decode4 b bs) \<le> Suc (length bs)"
  by (cases "(b, bs)" rule: decode2.cases; simp)
     (cases "(b, bs)" rule: decode3.cases; simp; fail | cases "(b, bs)" rule: decode4.cases; simp; fail)+

lemma DecodeRune_width: "0 < snd (DecodeRune (b # bs))" "snd (DecodeRune (b # bs)) \<le> Suc (length bs)"
  using decode_width_cases [of b bs] decode_fits [of b bs] by auto

lemma inRange_unat: "inRange lo hi b \<longleftrightarrow> unat lo \<le> unat b \<and> unat b \<le> unat hi"
  by (simp add: inRange_def word_le_nat_alt)

lemma acceptSecond_bounds:
  assumes "acceptSecond b0 b1"
  shows "128 \<le> unat b1" "unat b1 - 128 < 64" "unat b0 = 224 \<Longrightarrow> 160 \<le> unat b1"
    "unat b0 = 237 \<Longrightarrow> unat b1 \<le> 159" "unat b0 = 240 \<Longrightarrow> 144 \<le> unat b1"
    "unat b0 = 244 \<Longrightarrow> unat b1 \<le> 143"
proof -
  have eq: "b0 = n \<longleftrightarrow> unat b0 = unat n" for n by (simp add: unsigned_word_eqI word_eq_iff_unsigned)
  have *: "(unat b0 = 224 \<longrightarrow> 160 \<le> unat b1) \<and> (unat b0 = 237 \<longrightarrow> unat b1 \<le> 159)
    \<and> (unat b0 = 240 \<longrightarrow> 144 \<le> unat b1) \<and> (unat b0 = 244 \<longrightarrow> unat b1 \<le> 143) \<and> 128 \<le> unat b1 \<and> unat b1 \<le> 191"
    using assms unfolding acceptSecond_def eq by (simp add: inRange_unat split: if_splits)
  then show "128 \<le> unat b1" "unat b1 - 128 < 64" "unat b0 = 224 \<Longrightarrow> 160 \<le> unat b1"
    "unat b0 = 237 \<Longrightarrow> unat b1 \<le> 159" "unat b0 = 240 \<Longrightarrow> 144 \<le> unat b1"
    "unat b0 = 244 \<Longrightarrow> unat b1 \<le> 143" by linarith+
qed

lemmas byte_bounds = inRange_unat word_less_nat_alt

text \<open>Decoding and encoding again gives the bytes of a rune that was valid.\<close>

lemma sextets:
  assumes "c < (64::nat)"
  shows "(a * 64 + c) div 64 = a" "(a * 64 + c) mod 64 = c"
  using assms by auto

lemma encode_decode2:
  assumes "inRange 0xC2 0xDF b0" and "decode2 b0 bs = (r, w)" and "w \<noteq> 1"
  shows "EncodeRune r = take w (b0 # bs)"
proof -
  obtain b1 bs' where bs: "bs = b1 # bs'" and b1: "inRange 0x80 0xBF b1"
    and r: "r = (unat b0 - 192) * 64 + (unat b1 - 128)" and w: "w = 2"
    using assms(2,3) by (cases "(b0, bs)" rule: decode2.cases) (auto split: if_splits)
  have x: "194 \<le> unat b0" "unat b0 \<le> 223" and y: "128 \<le> unat b1" "unat b1 - 128 < 64"
    using assms(1) b1 by (auto simp: byte_bounds)
  note q = sextets [OF y(2), of "unat b0 - 192", folded r]
  have "128 \<le> r" "r < 0x800" using x y unfolding r by linarith+
  then show ?thesis
    using x y q by (simp add: EncodeRune_def bs w surrogate_def)
qed

lemma diff_eq_iff: "n \<le> m \<Longrightarrow> m - n = k \<longleftrightarrow> m = n + k" for m :: nat
  by linarith

lemma high_sextets3:
  assumes "k < (16::nat)" and "c < 64" and "k = 0 \<longrightarrow> 32 \<le> c" and "k = 13 \<longrightarrow> c < 32"
  shows "32 \<le> k * 64 + c" "k * 64 + c < 0x400" "k * 64 + c < 0x360 \<or> 0x380 \<le> k * 64 + c"
proof -
  consider "k = 0" | "0 < k" "k < 13" | "k = 13" | "13 < k" by linarith
  then show "k * 64 + c < 0x360 \<or> 0x380 \<le> k * 64 + c" by cases (use assms in linarith)+
  show "32 \<le> k * 64 + c" using assms(3) by (cases "k = 0") simp_all
qed (use assms in linarith)

lemma high_sextets4:
  assumes "k < (5::nat)" and "c < 64" and "k = 0 \<longrightarrow> 16 \<le> c" and "k = 4 \<longrightarrow> c < 16"
  shows "16 \<le> k * 64 + c" "k * 64 + c < 0x110"
  using assms by (cases "k = 0"; cases "k = 4"; simp)+

lemma encode_decode3:
  assumes "inRange 0xE0 0xEF b0" and "decode3 b0 bs = (r, w)" and "w \<noteq> 1"
  shows "EncodeRune r = take w (b0 # bs)"
proof -
  obtain b1 b2 bs' where bs: "bs = b1 # b2 # bs'" and b1: "acceptSecond b0 b1" and b2: "inRange 0x80 0xBF b2"
    and r: "r = (unat b0 - 224) * 4096 + (unat b1 - 128) * 64 + (unat b2 - 128)" and w: "w = 3"
    using assms(2,3) by (cases "(b0, bs)" rule: decode3.cases) (auto split: if_splits)
  have x: "224 \<le> unat b0" "unat b0 \<le> 239" and z: "128 \<le> unat b2" "unat b2 - 128 < 64"
    using assms(1) b2 by (auto simp: byte_bounds)
  note xy = acceptSecond_bounds [OF b1]
  define h where "h = (unat b0 - 224) * 64 + (unat b1 - 128)"
  have r': "r = h * 64 + (unat b2 - 128)" using r by (simp add: h_def algebra_simps)
  note q1 = sextets [OF z(2), of h, folded r'] and q2 = sextets [OF xy(2), of "unat b0 - 224", folded h_def]
  have q: "r div 4096 = unat b0 - 224" using q1 q2 div_mult2_eq [of r 64 64] by simp
  have "unat b0 - 224 = 0 \<longrightarrow> 32 \<le> unat b1 - 128" "unat b0 - 224 = 13 \<longrightarrow> unat b1 - 128 < 32"
    using xy(3,4) diff_eq_iff [OF x(1), of 0] diff_eq_iff [OF x(1), of 13] by auto
  moreover have "unat b0 - 224 < 16" using x by simp
  ultimately have lo: "32 \<le> h" "h < 0x400" "h < 0x360 \<or> 0x380 \<le> h"
    using high_sextets3 [OF _ xy(2), of "unat b0 - 224"] by (simp_all add: h_def)
  have "0x800 \<le> r" "r < 0x10000" "\<not> surrogate r"
    using lo z unfolding r' surrogate_def by linarith+
  then show ?thesis
    using q q1 q2 x xy(1) z by (simp add: EncodeRune_def bs w)
qed

lemma encode_decode4:
  assumes "inRange 0xF0 0xF4 b0" and "decode4 b0 bs = (r, w)" and "w \<noteq> 1"
  shows "EncodeRune r = take w (b0 # bs)"
proof -
  obtain b1 b2 b3 bs' where bs: "bs = b1 # b2 # b3 # bs'" and b1: "acceptSecond b0 b1"
    and b2: "inRange 0x80 0xBF b2" and b3: "inRange 0x80 0xBF b3"
    and r: "r = (unat b0 - 240) * 262144 + (unat b1 - 128) * 4096 + (unat b2 - 128) * 64 + (unat b3 - 128)"
    and w: "w = 4"
    using assms(2,3) by (cases "(b0, bs)" rule: decode4.cases) (auto split: if_splits)
  have x: "240 \<le> unat b0" "unat b0 \<le> 244" and z: "128 \<le> unat b2" "unat b2 - 128 < 64"
    and v: "128 \<le> unat b3" "unat b3 - 128 < 64"
    using assms(1) b2 b3 by (auto simp: byte_bounds)
  note xy = acceptSecond_bounds [OF b1]
  define h where "h = (unat b0 - 240) * 64 + (unat b1 - 128)"
  define g where "g = h * 64 + (unat b2 - 128)"
  have r': "r = g * 64 + (unat b3 - 128)" using r by (simp add: h_def g_def algebra_simps)
  note q1 = sextets [OF v(2), of g, folded r'] and q2 = sextets [OF z(2), of h, folded g_def]
    and q3 = sextets [OF xy(2), of "unat b0 - 240", folded h_def]
  have q: "r div 4096 = h" using q1 q2 div_mult2_eq [of r 64 64] by simp
  then have q': "r div 262144 = unat b0 - 240" using q3 div_mult2_eq [of r 4096 64] by simp
  have "unat b0 - 240 = 0 \<longrightarrow> 16 \<le> unat b1 - 128" "unat b0 - 240 = 4 \<longrightarrow> unat b1 - 128 < 16"
    using xy(5,6) diff_eq_iff [OF x(1), of 0] diff_eq_iff [OF x(1), of 4] by auto
  moreover have "unat b0 - 240 < 5" using x by simp
  ultimately have lo: "16 \<le> h" "h < 0x110"
    using high_sextets4 [OF _ xy(2), of "unat b0 - 240"] by (simp_all add: h_def)
  have "0x400 \<le> g" "g < 0x4400" using lo z unfolding g_def by linarith+
  then have "0x10000 \<le> r" "r \<le> 0x10FFFF" "\<not> surrogate r"
    using v unfolding r' surrogate_def by linarith+
  then show ?thesis
    using q q' q1 q2 q3 x xy(1) z v by (simp add: EncodeRune_def bs w)
qed

lemma encode_decode:
  assumes "DecodeRune bs = (r, w)" and "bs \<noteq> []" and "\<not> badRune bs"
  shows "EncodeRune r = take w bs"
proof -
  obtain b0 bs' where bs: "bs = b0 # bs'" using assms(2) by (cases bs) auto
  have 1: "w = 1 \<Longrightarrow> b0 < 0x80"
    using assms(1,3) unfolding bs badRune_def
    by (cases "(b0, bs')" rule: decode2.cases; cases "(b0, bs')" rule: decode3.cases;
        cases "(b0, bs')" rule: decode4.cases) (auto split: if_splits)
  show ?thesis
  proof (cases "b0 < 0x80")
    case True
    with assms(1) have "r = unat b0" "w = 1" "r < 128" by (auto simp: bs word_less_nat_alt)
    then show ?thesis by (simp add: bs EncodeRune_def surrogate_def)
  next
    case False
    with 1 have "w \<noteq> 1" by blast
    with False assms(1) show ?thesis
      unfolding bs using encode_decode2 encode_decode3 encode_decode4
      by (auto simp: RuneError_def split: if_splits)
  qed
qed

lemma encode_RuneError: "EncodeRune RuneError = [0xEF, 0xBF, 0xBD]"
  by (simp add: EncodeRune_def RuneError_def surrogate_def)

text \<open>Replacing every invalid byte by the replacement character.\<close>

function coerce :: "byte list \<Rightarrow> byte list" where
  "coerce [] = []"
| "coerce (b # bs) =
     EncodeRune (fst (DecodeRune (b # bs))) @ coerce (drop (snd (DecodeRune (b # bs))) (b # bs))"
  by pat_completeness auto
termination
  by (relation "measure length") (use DecodeRune_width in \<open>auto simp del: DecodeRune.simps\<close>)

function validString :: "byte list \<Rightarrow> bool" where
  "validString [] = True"
| "validString (b # bs) =
     (\<not> badRune (b # bs) \<and> validString (drop (snd (DecodeRune (b # bs))) (b # bs)))"
  by pat_completeness auto
termination
  by (relation "measure length") (use DecodeRune_width in \<open>auto simp del: DecodeRune.simps\<close>)

lemma take_append_eq_iff: "take n xs @ ys = xs \<longleftrightarrow> ys = drop n xs"
  by (metis append_take_drop_id same_append_eq)

lemma replacement_is_valid: "\<not> badRune (0xEF # 0xBF # 0xBD # bs)"
  by (simp add: badRune_def inRange_def acceptSecond_def RuneError_def)

lemma coerce_id_iff: "coerce s = s \<longleftrightarrow> validString s"
proof (induction s rule: coerce.induct)
  case (2 b bs)
  obtain r w where d: "DecodeRune (b # bs) = (r, w)" by force
  show ?case
  proof (cases "badRune (b # bs)")
    case True
    then have "r = RuneError" using d by (simp add: badRune_def)
    then have c: "coerce (b # bs) = 0xEF # 0xBF # 0xBD # coerce (drop w (b # bs))"
      using d by (simp add: encode_RuneError del: DecodeRune.simps)
    have "coerce (b # bs) \<noteq> b # bs"
    proof
      assume "coerce (b # bs) = b # bs"
      then have e: "b # bs = 0xEF # 0xBF # 0xBD # coerce (drop w (b # bs))" unfolding c by (rule sym)
      have "\<not> badRune (b # bs)" by (subst e) (rule replacement_is_valid)
      with True show False by contradiction
    qed
    with True show ?thesis by (simp only: validString.simps simp_thms)
  next
    case False
    then have c: "coerce (b # bs) = take w (b # bs) @ coerce (drop w (b # bs))"
      using d encode_decode [OF d] by (simp del: DecodeRune.simps)
    have "coerce (drop w (b # bs)) = drop w (b # bs) \<longleftrightarrow> validString (drop w (b # bs))"
      using 2 unfolding d by simp
    then have "coerce (b # bs) = b # bs \<longleftrightarrow> validString (drop w (b # bs))"
      unfolding c take_append_eq_iff .
    with False d show ?thesis by (simp only: validString.simps simp_thms snd_conv)
  qed
qed simp

end
