(* ===== verification/Json.thy ===== *)
theory Json
  imports Utf8
begin

text \<open>
  The part of Go's \<^verbatim>\<open>encoding/json\<close> and \<^verbatim>\<open>strconv\<close> that the cluster messages use.
  \<^verbatim>\<open>Marshal\<close> prints a value compactly, with the escapes of \<^verbatim>\<open>appendString\<close>; \<^verbatim>\<open>Unmarshal\<close>
  first checks the whole text (the scanner with its stack of open brackets, at most 10000
  deep) and then assigns the members it knows to the fields of the receiver, leaving a field
  alone whose value has the wrong type.  Numbers keep their literal.
\<close>

section \<open>Values and their compact form\<close>

datatype json = JNull | JBool bool | JNum "byte list" | JStr gostring
  | JArr "json list" | JObj "(gostring \<times> json) list"

fun decimal :: "nat \<Rightarrow> byte list" where
  "decimal n = (if n < 10 then [of_nat (48 + n)] else decimal (n div 10) @ [of_nat (48 + n mod 10)])"

declare decimal.simps [simp del]

definition decimalInt :: "int \<Rightarrow> byte list" where
  "decimalInt i = (if i < 0 then 0x2D # decimal (nat (- i)) else decimal (nat i))"

definition hexDigit :: "nat \<Rightarrow> byte" where
  "hexDigit n = of_nat (if n < 10 then 48 + n else 87 + n)"

text \<open>Quote, backslash, control characters and the three characters that are special in HTML.\<close>

definition escapeByte :: "byte \<Rightarrow> byte list" where
  "escapeByte b =
     (if b = 0x22 \<or> b = 0x5C then [0x5C, b]
      else if b = 0x0A then [0x5C, 0x6E]
      else if b = 0x0D then [0x5C, 0x72]
      else if b = 0x09 then [0x5C, 0x74]
      else if b < 0x20 \<or> b = 0x3C \<or> b = 0x3E \<or> b = 0x26
        then [0x5C, 0x75, 0x30, 0x30, hexDigit (unat b div 16), hexDigit (unat b mod 16)]
      else [b])"

text \<open>One rune of a string as it is printed; \<open>w\<close> is its width.\<close>

definition escapeRune :: "byte list \<Rightarrow> byte list" where
  "escapeRune s =
     (let (r, w) = DecodeRune s in
      if r < 128 then escapeByte (hd s)
      else if badRune s then [0x5C, 0x75, 0x66, 0x66, 0x66, 0x64]
      else if r = 0x2028 \<or> r = 0x2029 then [0x5C, 0x75, 0x32, 0x30, 0x32, hexDigit (r mod 16)]
      else take w s)"

function quoteBody :: "byte list \<Rightarrow> byte list" where
  "quoteBody [] = []"
| "quoteBody (b # bs) = escapeRune (b # bs) @ quoteBody (drop (snd (DecodeRune (b # bs))) (b # bs))"
  by pat_completeness auto
termination
  by (relation "measure length") (use DecodeRune_width in \<open>auto simp del: DecodeRune.simps\<close>)

definition quote :: "gostring \<Rightarrow> byte list" where
  "quote s = 0x22 # quoteBody s @ [0x22]"

fun joinComma :: "byte list list \<Rightarrow> byte list" where
  "joinComma [] = []"
| "joinComma [x] = x"
| "joinComma (x # xs) = x @ 0x2C # joinComma xs"

fun render :: "json \<Rightarrow> byte list" where
  "render JNull = lit ''null''"
| "render (JBool b) = (if b then lit ''true'' else lit ''false'')"
| "render (JNum l) = l"
| "render (JStr s) = quote s"
| "render (JArr vs) = 0x5B # joinComma (map render vs) @ [0x5D]"
| "render (JObj ms) = 0x7B # joinComma (map (\<lambda>(k, v). quote k @ 0x3A # render v) ms) @ [0x7D]"

section \<open>Scanning\<close>

definition unhex :: "byte \<Rightarrow> nat option" where
  "unhex b = (if inRange 0x30 0x39 b then Some (unat b - 48)
              else if inRange 0x61 0x66 b then Some (unat b - 87)
              else if inRange 0x41 0x46 b then Some (unat b - 55) else None)"

fun hex4 :: "byte list \<Rightarrow> nat option" where
  "hex4 (a # b # c # d # _) =
     (case (unhex a, unhex b, unhex c, unhex d) of
        (Some w, Some x, Some y, Some z) \<Rightarrow> Some (((w * 16 + x) * 16 + y) * 16 + z)
      | _ \<Rightarrow> None)"
| "hex4 _ = None"

text \<open>\<^verbatim>\<open>getu4\<close>: the rune of a backslash, a \<open>u\<close> and four hexadecimal digits.\<close>

fun getu4 :: "byte list \<Rightarrow> nat option" where
  "getu4 (b # u # bs) = (if b = 0x5C \<and> u = 0x75 then hex4 bs else None)"
| "getu4 _ = None"

definition utf16Pair :: "nat \<Rightarrow> nat \<Rightarrow> nat option" where
  "utf16Pair r1 r2 =
     (if 0xD800 \<le> r1 \<and> r1 < 0xDC00 \<and> 0xDC00 \<le> r2 \<and> r2 < 0xE000
      then Some ((r1 - 0xD800) * 1024 + (r2 - 0xDC00) + 0x10000) else None)"

text \<open>The bytes one unit of a string literal stands for, and its width.\<close>

definition escapedUnit :: "byte list \<Rightarrow> (byte list \<times> nat) option" where
  "escapedUnit s =
     (case s of
        _ # c # bs \<Rightarrow>
          (if c = 0x22 \<or> c = 0x5C \<or> c = 0x2F then Some ([c], 2)
           else if c = 0x62 then Some ([0x08], 2)
           else if c = 0x66 then Some ([0x0C], 2)
           else if c = 0x6E then Some ([0x0A], 2)
           else if c = 0x72 then Some ([0x0D], 2)
           else if c = 0x74 then Some ([0x09], 2)
           else case getu4 s of
               None \<Rightarrow> None
             | Some r \<Rightarrow>
                 if surrogate r then
                   (case Option.bind (getu4 (drop 6 s)) (utf16Pair r) of
                      Some r' \<Rightarrow> Some (EncodeRune r', 12)
                    | None \<Rightarrow> Some (EncodeRune RuneError, 6))
                 else Some (EncodeRune r, 6))
      | _ \<Rightarrow> None)"

definition stringUnit :: "byte list \<Rightarrow> (byte list \<times> nat) option" where
  "stringUnit s =
     (if hd s = 0x5C then escapedUnit s
      else if hd s < 0x20 then None
      else (let (r, w) = DecodeRune s in Some (EncodeRune r, w)))"

lemma stringUnit_width: "stringUnit (b # bs) = Some (d, w) \<Longrightarrow> 0 < w"
  using DecodeRune_width(1) [of b bs]
  by (auto simp: stringUnit_def escapedUnit_def simp del: DecodeRune.simps split: if_splits list.splits option.splits prod.splits)

function scanString :: "byte list \<Rightarrow> (gostring \<times> byte list) option" where
  "scanString [] = None"
| "scanString (b # bs) =
     (if b = 0x22 then Some ([], bs)
      else case stringUnit (b # bs) of
          None \<Rightarrow> None
        | Some (d, w) \<Rightarrow> map_option (\<lambda>(t, rest). (d @ t, rest)) (scanString (drop w (b # bs))))"
  by pat_completeness auto
termination
  by (relation "measure length") (use stringUnit_width in fastforce)+

definition isDigit :: "byte \<Rightarrow> bool" where
  "isDigit b = inRange 0x30 0x39 b"

fun scanInt :: "byte list \<Rightarrow> (byte list \<times> byte list) option" where
  "scanInt [] = None"
| "scanInt (b # bs) =
     (if b = 0x30 then Some ([b], bs)
      else if isDigit b then Some (b # takeWhile isDigit bs, dropWhile isDigit bs) else None)"

fun scanFrac :: "byte list \<Rightarrow> (byte list \<times> byte list) option" where
  "scanFrac [] = Some ([], [])"
| "scanFrac (b # bs) =
     (if b \<noteq> 0x2E then Some ([], b # bs)
      else if takeWhile isDigit bs = [] then None
      else Some (b # takeWhile isDigit bs, dropWhile isDigit bs))"

fun scanSign :: "byte list \<Rightarrow> byte list \<times> byte list" where
  "scanSign [] = ([], [])"
| "scanSign (b # bs) = (if b = 0x2B \<or> b = 0x2D then ([b], bs) else ([], b # bs))"

fun scanExp :: "byte list \<Rightarrow> (byte list \<times> byte list) option" where
  "scanExp [] = Some ([], [])"
| "scanExp (b # bs) =
     (if b \<noteq> 0x65 \<and> b \<noteq> 0x45 then Some ([], b # bs)
      else let (sg, rest) = scanSign bs in
           if takeWhile isDigit rest = [] then None
           else Some (b # sg @ takeWhile isDigit rest, dropWhile isDigit rest))"

fun scanMinus :: "byte list \<Rightarrow> byte list \<times> byte list" where
  "scanMinus [] = ([], [])"
| "scanMinus (b # bs) = (if b = 0x2D then ([b], bs) else ([], b # bs))"

definition scanNumber :: "byte list \<Rightarrow> (byte list \<times> byte list) option" where
  "scanNumber s =
     (let (m, s) = scanMinus s in
      Option.bind (scanInt s) (\<lambda>(i, s).
      Option.bind (scanFrac s) (\<lambda>(f, s).
      Option.bind (scanExp s) (\<lambda>(e, s). Some (m @ i @ f @ e, s)))))"

datatype token = TLBrace | TRBrace | TLBrack | TRBrack | TColon | TComma
  | TNull | TTrue | TFalse | TNum "byte list" | TStr gostring

definition blank :: "byte \<Rightarrow> bool" where
  "blank b \<longleftrightarrow> b = 0x20 \<or> b = 0x09 \<or> b = 0x0D \<or> b = 0x0A"

definition nextToken :: "byte list \<Rightarrow> (token \<times> byte list) option" where
  "nextToken s =
     (let b = hd s; bs = tl s in
      if b = 0x7B then Some (TLBrace, bs)
      else if b = 0x7D then Some (TRBrace, bs)
      else if b = 0x5B then Some (TLBrack, bs)
      else if b = 0x5D then Some (TRBrack, bs)
      else if b = 0x3A then Some (TColon, bs)
      else if b = 0x2C then Some (TComma, bs)
      else if b = 0x22 then map_option (\<lambda>(t, rest). (TStr t, rest)) (scanString bs)
      else if take 4 s = lit ''null'' then Some (TNull, drop 4 s)
      else if take 4 s = lit ''true'' then Some (TTrue, drop 4 s)
      else if take 5 s = lit ''false'' then Some (TFalse, drop 5 s)
      else map_option (\<lambda>(l, rest). (TNum l, rest)) (scanNumber s))"

lemma scanString_shorter: "scanString s = Some (t, rest) \<Longrightarrow> length rest < length s"
proof (induction s arbitrary: t rule: scanString.induct)
  case (2 b bs)
  show ?case
  proof (cases "b = 0x22")
    case False
    with 2(2) obtain d w t' where u: "stringUnit (b # bs) = Some (d, w)"
      and s: "scanString (drop w (b # bs)) = Some (t', rest)"
      by (auto split: option.splits)
    from 2(1) [OF False u refl s] show ?thesis using stringUnit_width [OF u] by simp
  qed (use 2(2) in auto)
qed simp

lemma scanNumber_shorter: "scanNumber s = Some (l, rest) \<Longrightarrow> length rest < length s"
proof -
  have d: "length (dropWhile isDigit xs) \<le> length xs" for xs by (rule length_dropWhile_le)
  have i: "length s2 < length s1" if "scanInt s1 = Some (i, s2)" for s1 i s2
    using that by (cases s1) (auto split: if_splits simp: le_imp_less_Suc d)
  have f: "length s2 \<le> length s1" if "scanFrac s1 = Some (i, s2)" for s1 i s2
    using that by (cases s1) (auto split: if_splits intro: le_SucI d)
  have g: "length (snd (scanSign xs)) \<le> length xs" for xs by (cases xs) auto
  have e: "length s2 \<le> length s1" if "scanExp s1 = Some (i, s2)" for s1 i s2
    using that g [of "tl s1"] d [of "snd (scanSign (tl s1))"]
    by (cases s1) (auto split: if_splits prod.splits)
  have m: "length (snd (scanMinus xs)) \<le> length xs" for xs by (cases xs) auto
  assume "scanNumber s = Some (l, rest)"
  then obtain i' s1 f' s2 e' where "scanInt (snd (scanMinus s)) = Some (i', s1)"
    "scanFrac s1 = Some (f', s2)" "scanExp s2 = Some (e', rest)"
    by (auto simp: scanNumber_def bind_eq_Some_conv split: prod.splits)
  from i [OF this(1)] f [OF this(2)] e [OF this(3)] m [of s] show ?thesis by simp
qed

lemma nextToken_shorter: "nextToken s = Some (t, rest) \<Longrightarrow> s \<noteq> [] \<Longrightarrow> length rest < length s"
  by (cases s) (auto simp: nextToken_def Let_def split: if_splits
      dest: scanString_shorter scanNumber_shorter intro: less_SucI)

function tokens :: "byte list \<Rightarrow> token list option" where
  "tokens s =
     (let s = dropWhile blank s in
      if s = [] then Some []
      else case nextToken s of
          None \<Rightarrow> None
        | Some (t, rest) \<Rightarrow> map_option ((#) t) (tokens rest))"
  by pat_completeness auto
termination
  by (relation "measure length")
     (auto dest!: nextToken_shorter intro: less_le_trans [OF _ length_dropWhile_le])

declare tokens.simps [simp del]

section \<open>The syntax check and the value\<close>

text \<open>
  What the scanner expects next (its step functions \<^verbatim>\<open>stateBeginValue\<close>,
  \<^verbatim>\<open>stateBeginValueOrEmpty\<close>, \<^verbatim>\<open>stateBeginString\<close>, \<^verbatim>\<open>stateBeginStringOrEmpty\<close> and
  \<^verbatim>\<open>stateEndValue\<close>), and the brackets that are open, with the values read inside them.
\<close>

datatype expect = EValue | EValueOrEnd | EKey | EKeyOrEnd | EColon gostring | EEnd json

datatype frame = FArr "json list" | FObj "(gostring \<times> json) list" | FMember "(gostring \<times> json) list" gostring

definition maxNestingDepth :: nat where "maxNestingDepth = 10000"

definition beginValue :: "frame list \<Rightarrow> token \<Rightarrow> (expect \<times> frame list) option" where
  "beginValue st t =
     (case t of
        TNull \<Rightarrow> Some (EEnd JNull, st)
      | TTrue \<Rightarrow> Some (EEnd (JBool True), st)
      | TFalse \<Rightarrow> Some (EEnd (JBool False), st)
      | TNum l \<Rightarrow> Some (EEnd (JNum l), st)
      | TStr s \<Rightarrow> Some (EEnd (JStr s), st)
      | TLBrack \<Rightarrow> if length st < maxNestingDepth then Some (EValueOrEnd, FArr [] # st) else None
      | TLBrace \<Rightarrow> if length st < maxNestingDepth then Some (EKeyOrEnd, FObj [] # st) else None
      | _ \<Rightarrow> None)"

definition endValue :: "json \<Rightarrow> frame list \<Rightarrow> token \<Rightarrow> (expect \<times> frame list) option" where
  "endValue v st t =
     (case st of
        FArr vs # st \<Rightarrow>
          (if t = TComma then Some (EValue, FArr (vs @ [v]) # st)
           else if t = TRBrack then Some (EEnd (JArr (vs @ [v])), st) else None)
      | FMember ms k # st \<Rightarrow>
          (if t = TComma then Some (EKey, FObj (ms @ [(k, v)]) # st)
           else if t = TRBrace then Some (EEnd (JObj (ms @ [(k, v)])), st) else None)
      | _ \<Rightarrow> None)"

definition beginKey :: "frame list \<Rightarrow> token \<Rightarrow> (expect \<times> frame list) option" where
  "beginKey st t = (case t of TStr k \<Rightarrow> Some (EColon k, st) | _ \<Rightarrow> None)"

definition emptyArray :: "frame list \<Rightarrow> (expect \<times> frame list) option" where
  "emptyArray st = (case st of FArr vs # st \<Rightarrow> Some (EEnd (JArr vs), st) | _ \<Rightarrow> None)"

definition emptyObject :: "frame list \<Rightarrow> (expect \<times> frame list) option" where
  "emptyObject st = (case st of FObj ms # st \<Rightarrow> Some (EEnd (JObj ms), st) | _ \<Rightarrow> None)"

definition beginMember :: "gostring \<Rightarrow> frame list \<Rightarrow> (expect \<times> frame list) option" where
  "beginMember k st = (case st of FObj ms # st \<Rightarrow> Some (EValue, FMember ms k # st) | _ \<Rightarrow> None)"

definition scanStep :: "expect \<Rightarrow> frame list \<Rightarrow> token \<Rightarrow> (expect \<times> frame list) option" where
  "scanStep e st t =
     (case e of
        EValue \<Rightarrow> beginValue st t
      | EValueOrEnd \<Rightarrow> if t = TRBrack then emptyArray st else beginValue st t
      | EKey \<Rightarrow> beginKey st t
      | EKeyOrEnd \<Rightarrow> if t = TRBrace then emptyObject st else beginKey st t
      | EColon k \<Rightarrow> if t = TColon then beginMember k st else None
      | EEnd v \<Rightarrow> endValue v st t)"

fun parse :: "expect \<Rightarrow> frame list \<Rightarrow> token list \<Rightarrow> json option" where
  "parse e st [] = (case (e, st) of (EEnd v, []) \<Rightarrow> Some v | _ \<Rightarrow> None)"
| "parse e st (t # ts) = (case scanStep e st t of None \<Rightarrow> None | Some (e, st) \<Rightarrow> parse e st ts)"

definition decodeText :: "byte list \<Rightarrow> json option" where
  "decodeText s = Option.bind (tokens s) (parse EValue [])"

section \<open>Assigning members to fields\<close>

text \<open>
  A member belongs to the field with its exact name or, failing that, with the same name up
  to case: ASCII letters, and the long s and the Kelvin sign that fold to \<open>S\<close> and \<open>K\<close>.
\<close>

fun foldName :: "byte list \<Rightarrow> byte list" where
  "foldName [] = []"
| "foldName (b # bs) =
     (if take 2 (b # bs) = [0xC5, 0xBF] then 0x53 # foldName (drop 1 bs)
      else if take 3 (b # bs) = [0xE2, 0x84, 0xAA] then 0x4B # foldName (drop 2 bs)
      else (if inRange 0x61 0x7A b then b - 32 else b) # foldName bs)"

type_synonym 'm fields = "(gostring \<times> (json \<Rightarrow> 'm \<Rightarrow> 'm)) list"

definition fieldFor :: "'m fields \<Rightarrow> gostring \<Rightarrow> (json \<Rightarrow> 'm \<Rightarrow> 'm) option" where
  "fieldFor fs k =
     (case map_of fs k of
        Some f \<Rightarrow> Some f
      | None \<Rightarrow> map_option snd (List.find (\<lambda>(n, _). foldName n = foldName k) fs))"

definition assignMember :: "'m fields \<Rightarrow> gostring \<times> json \<Rightarrow> 'm \<Rightarrow> 'm" where
  "assignMember fs = (\<lambda>(k, v) m. case fieldFor fs k of None \<Rightarrow> m | Some f \<Rightarrow> f v m)"

definition assignStruct :: "'m fields \<Rightarrow> json \<Rightarrow> 'm \<Rightarrow> 'm" where
  "assignStruct fs v m = (case v of JObj ms \<Rightarrow> fold (assignMember fs) ms m | _ \<Rightarrow> m)"

definition Unmarshal :: "'m fields \<Rightarrow> byte list \<Rightarrow> 'm \<Rightarrow> 'm" where
  "Unmarshal fs data m = (case decodeText data of None \<Rightarrow> m | Some v \<Rightarrow> assignStruct fs v m)"

definition ParseUint :: "byte list \<Rightarrow> nat option" where
  "ParseUint l =
     (let n = fold (\<lambda>b a. a * 10 + (unat b - 48)) l 0 in
      if l \<noteq> [] \<and> list_all isDigit l \<and> n < 2 ^ 64 then Some n else None)"

definition ParseInt :: "byte list \<Rightarrow> int option" where
  "ParseInt l =
     (case l of
        [] \<Rightarrow> None
      | b # bs \<Rightarrow>
          if b = 0x2D then (case ParseUint bs of Some n \<Rightarrow> if n \<le> 2 ^ 63 then Some (- int n) else None | None \<Rightarrow> None)
          else if b = 0x2B then (case ParseUint bs of Some n \<Rightarrow> if n < 2 ^ 63 then Some (int n) else None | None \<Rightarrow> None)
          else (case ParseUint l of Some n \<Rightarrow> if n < 2 ^ 63 then Some (int n) else None | None \<Rightarrow> None))"

definition setString :: "json \<Rightarrow> gostring \<Rightarrow> gostring" where
  "setString v old = (case v of JStr s \<Rightarrow> s | _ \<Rightarrow> old)"

definition setUint :: "json \<Rightarrow> 'a::len word \<Rightarrow> 'a word" where
  "setUint v old =
     (case v of
        JNum l \<Rightarrow> (case ParseUint l of Some n \<Rightarrow> if n < 2 ^ LENGTH('a) then of_nat n else old | None \<Rightarrow> old)
      | _ \<Rightarrow> old)"

definition setInt :: "json \<Rightarrow> u64 \<Rightarrow> u64" where
  "setInt v old =
     (case v of JNum l \<Rightarrow> (case ParseInt l of Some i \<Rightarrow> of_int i | None \<Rightarrow> old) | _ \<Rightarrow> old)"

text \<open>
  An array replaces a slice (\<open>None\<close> when nil); an element that was there before is decoded
  into.  A JSON null makes it nil.
\<close>

fun setElems :: "'e fields \<Rightarrow> 'e \<Rightarrow> json list \<Rightarrow> 'e list \<Rightarrow> 'e list" where
  "setElems fs z [] old = []"
| "setElems fs z (v # vs) [] = assignStruct fs v z # setElems fs z vs []"
| "setElems fs z (v # vs) (e # es) = assignStruct fs v e # setElems fs z vs es"

definition setSlice :: "'e fields \<Rightarrow> 'e \<Rightarrow> json \<Rightarrow> 'e list option \<Rightarrow> 'e list option" where
  "setSlice fs z v old =
     (case v of
        JArr vs \<Rightarrow> Some (setElems fs z vs (case old of None \<Rightarrow> [] | Some es \<Rightarrow> es))
      | JNull \<Rightarrow> None
      | _ \<Rightarrow> old)"

section \<open>Printing and parsing again\<close>

subsection \<open>Strings\<close>

lemma DecodeRune_cases:
  assumes "s \<noteq> []" and "DecodeRune s = (r, w)"
  obtains (ascii) "hd s < 0x80" "r = unat (hd s)" "w = 1" "r < 128"
    | (bad) "\<not> hd s < 0x80" "badRune s" "r = RuneError" "w = 1"
    | (two) b0 b1 bs where "s = b0 # b1 # bs" "inRange 0xC2 0xDF b0" "inRange 0x80 0xBF b1"
        "w = 2" "\<not> badRune s"
    | (three) b0 b1 b2 bs where "s = b0 # b1 # b2 # bs" "inRange 0xE0 0xEF b0" "acceptSecond b0 b1"
        "inRange 0x80 0xBF b2" "w = 3" "\<not> badRune s"
    | (four) b0 b1 b2 b3 bs where "s = b0 # b1 # b2 # b3 # bs" "inRange 0xF0 0xF4 b0" "acceptSecond b0 b1"
        "inRange 0x80 0xBF b2" "inRange 0x80 0xBF b3" "w = 4" "\<not> badRune s"
proof -
  obtain b0 bs where s: "s = b0 # bs" using assms(1) by (cases s) auto
  have "badRune s" if "\<not> b0 < 0x80" "\<not> inRange 0xC2 0xDF b0" "\<not> inRange 0xE0 0xEF b0" "\<not> inRange 0xF0 0xF4 b0"
    using that by (simp add: s badRune_def)
  then consider (low) "b0 < 0x80" | (err) "\<not> b0 < 0x80" "badRune s"
    | (2) "\<not> b0 < 0x80" "\<not> badRune s" "inRange 0xC2 0xDF b0"
    | (3) "\<not> b0 < 0x80" "\<not> badRune s" "\<not> inRange 0xC2 0xDF b0" "inRange 0xE0 0xEF b0"
    | (4) "\<not> b0 < 0x80" "\<not> badRune s" "\<not> inRange 0xC2 0xDF b0" "\<not> inRange 0xE0 0xEF b0" "inRange 0xF0 0xF4 b0"
    by blast
  then show ?thesis
  proof cases
    case low
    then show ?thesis using assms(2) by (intro ascii) (auto simp: s word_less_nat_alt)
  next
    case err
    then show ?thesis using assms(2) by (intro bad) (simp_all add: s badRune_def)
  next
    case 2
    then obtain b1 bs' where "bs = b1 # bs'" "inRange 0x80 0xBF b1"
      by (cases "(b0, bs)" rule: decode2.cases) (auto simp: s badRune_def split: if_splits)
    then show ?thesis using 2 assms(2) by (intro two [of b0 b1 bs']) (auto simp: s)
  next
    case 3
    then obtain b1 b2 bs' where "bs = b1 # b2 # bs'" "acceptSecond b0 b1" "inRange 0x80 0xBF b2"
      by (cases "(b0, bs)" rule: decode3.cases) (auto simp: s badRune_def split: if_splits)
    then show ?thesis using 3 assms(2) by (intro three [of b0 b1 b2 bs']) (auto simp: s)
  next
    case 4
    then obtain b1 b2 b3 bs' where "bs = b1 # b2 # b3 # bs'" "acceptSecond b0 b1"
      "inRange 0x80 0xBF b2" "inRange 0x80 0xBF b3"
      by (cases "(b0, bs)" rule: decode4.cases) (auto simp: s badRune_def split: if_splits)
    then show ?thesis using 4 assms(2) by (intro four [of b0 b1 b2 b3 bs']) (auto simp: s)
  qed
qed

lemma lead_byte: "inRange lo hi b \<Longrightarrow> 0x80 \<le> lo \<Longrightarrow> \<not> b < 0x80"
  by (auto simp: inRange_def)

lemma DecodeRune_prefix:
  assumes "s \<noteq> []" and "DecodeRune s = (r, w)" and "\<not> badRune s"
  shows "DecodeRune (take w s @ rest) = (r, w)" "0 < w" "w \<le> length s"
proof -
  have "DecodeRune (take w s @ rest) = (r, w) \<and> 0 < w \<and> w \<le> length s"
    using assms(1,2)
  proof (cases rule: DecodeRune_cases)
    case ascii
    then show ?thesis using assms(1) by (cases s) auto
  next
    case bad
    then show ?thesis using assms(3) by simp
  qed (use assms(2) in \<open>auto split: if_splits\<close>)
  then show "DecodeRune (take w s @ rest) = (r, w)" "0 < w" "w \<le> length s" by blast+
qed

lemma unhex_hexDigit: "n < 16 \<Longrightarrow> unhex (hexDigit n) = Some n"
proof -
  have "\<forall>n \<in> set [0..<16]. unhex (hexDigit n) = Some n" by code_simp
  then show "n < 16 \<Longrightarrow> unhex (hexDigit n) = Some n" by simp
qed

lemma EncodeRune_ascii: "r < 128 \<Longrightarrow> EncodeRune r = [of_nat r]"
  by (simp add: EncodeRune_def surrogate_def)

lemma unit_of_u4:
  assumes "hex4 [a, b, c, d] = Some r" and "\<not> surrogate r"
  shows "stringUnit ([0x5C, 0x75, a, b, c, d] @ rest) = Some (EncodeRune r, 6)"
  using assms by (simp add: stringUnit_def escapedUnit_def)

lemma hex4_constants:
  "hex4 [0x66, 0x66, 0x66, 0x64] = Some RuneError"
  "hex4 [0x32, 0x30, 0x32, hexDigit 8] = Some 0x2028" "hex4 [0x32, 0x30, 0x32, hexDigit 9] = Some 0x2029"
  "\<not> surrogate RuneError" "\<not> surrogate 0x2028" "\<not> surrogate 0x2029"
  by (simp_all add: unhex_hexDigit surrogate_def RuneError_def) (simp_all add: unhex_def inRange_def)

lemma unit_of_escapeByte:
  assumes "b < 0x80"
  shows "stringUnit (escapeByte b @ rest) = Some ([b], length (escapeByte b))"
    "\<exists>c cs. escapeByte b = c # cs \<and> c \<noteq> 0x22"
proof -
  have b: "unat b < 128" using assms by (simp add: word_less_nat_alt)
  then have "unat b div 16 < 16" by simp
  then have h: "hex4 [0x30, 0x30, hexDigit (unat b div 16), hexDigit (unat b mod 16)] = Some (unat b)"
    by (simp add: unhex_hexDigit) (simp add: unhex_def inRange_def)
  have "\<not> surrogate (unat b)" using b by (simp add: surrogate_def)
  from unit_of_u4 [OF h this] EncodeRune_ascii [OF b] assms b
  show "stringUnit (escapeByte b @ rest) = Some ([b], length (escapeByte b))"
    by (auto simp: escapeByte_def) (auto simp: stringUnit_def escapedUnit_def)
  show "\<exists>c cs. escapeByte b = c # cs \<and> c \<noteq> 0x22" by (simp add: escapeByte_def)
qed

lemma high_rune:
  assumes "s \<noteq> []" and "DecodeRune s = (r, w)" and "\<not> hd s < 0x80"
  shows "\<not> r < 128"
proof
  assume r: "r < 128"
  then have "\<not> badRune s" using assms(2) by (auto simp: badRune_def RuneError_def)
  from encode_decode [OF assms(2,1) this] have "take w s = [of_nat r]" by (simp add: EncodeRune_ascii r)
  then have "hd s = of_nat r" by (cases s; cases w) auto
  with assms(3) r show False by (simp add: word_less_nat_alt unat_of_nat_small)
qed

lemma unit_of_plain:
  assumes "s \<noteq> []" and d: "DecodeRune s = (r, w)" and "\<not> hd s < 0x80" and "\<not> badRune s"
  shows "stringUnit (take w s @ rest) = Some (EncodeRune r, length (take w s))" "\<exists>c cs. take w s = c # cs \<and> c \<noteq> 0x22"
proof -
  note p = DecodeRune_prefix [OF assms(1,2,4)]
  obtain b bs where s: "s = b # bs" using assms(1) by (cases s) auto
  have "\<not> b < 0x80" using assms(3) s by simp
  then have b: "b \<noteq> 0x5C" "\<not> b < 0x20" "b \<noteq> 0x22" by (auto simp: word_less_nat_alt)
  obtain n where w: "w = Suc n" using p(2) by (cases w) auto
  have "stringUnit (take w s @ rest) = Some (EncodeRune r, w)"
    using p(1) b unfolding stringUnit_def s w by (simp del: DecodeRune.simps)
  then show "stringUnit (take w s @ rest) = Some (EncodeRune r, length (take w s))" using p(3) by simp
  show "\<exists>c cs. take w s = c # cs \<and> c \<noteq> 0x22" using b by (simp add: s w)
qed

lemma unit_of_escapeRune:
  assumes "s \<noteq> []" and d: "DecodeRune s = (r, w)"
  shows "stringUnit (escapeRune s @ rest) = Some (EncodeRune r, length (escapeRune s)) \<and>
    (\<exists>c cs. escapeRune s = c # cs \<and> c \<noteq> 0x22)"
proof (cases "hd s < 0x80")
  case True
  with assms have r: "r = unat (hd s)" "r < 128" by (cases s; auto simp: word_less_nat_alt)+
  then have "escapeRune s = escapeByte (hd s)" using d by (simp add: escapeRune_def)
  with unit_of_escapeByte [OF True] r show ?thesis by (simp add: EncodeRune_ascii)
next
  case high: False
  note ge = high_rune [OF assms high]
  consider (bad) "badRune s" | (sep) "\<not> badRune s" "r = 0x2028 \<or> r = 0x2029"
    | (plain) "\<not> badRune s" "\<not> (r = 0x2028 \<or> r = 0x2029)" by blast
  then show ?thesis
  proof cases
    case bad
    then have "r = RuneError" using d by (simp add: badRune_def)
    moreover have "escapeRune s = [0x5C, 0x75, 0x66, 0x66, 0x66, 0x64]" using bad d ge by (simp add: escapeRune_def)
    ultimately show ?thesis using unit_of_u4 [OF hex4_constants(1,4)] by simp
  next
    case sep
    moreover have "escapeRune s = [0x5C, 0x75, 0x32, 0x30, 0x32, hexDigit (r mod 16)]"
      using sep d ge by (simp add: escapeRune_def)
    ultimately show ?thesis
      using unit_of_u4 [OF hex4_constants(2,5)] unit_of_u4 [OF hex4_constants(3,6)] by auto
  next
    case plain
    then have "escapeRune s = take w s" using d ge by (simp add: escapeRune_def)
    then show ?thesis using unit_of_plain [OF assms high plain(1)] by simp
  qed
qed

text \<open>A string that is printed and read again is coerced to valid UTF-8.\<close>

lemma scanString_quoteBody: "scanString (quoteBody s @ 0x22 # rest) = Some (coerce s, rest)"
proof (induction s rule: quoteBody.induct)
  case (2 b bs)
  obtain r w where d: "DecodeRune (b # bs) = (r, w)" by force
  let ?e = "escapeRune (b # bs)" and ?rest = "quoteBody (drop w (b # bs)) @ 0x22 # rest"
  obtain c cs where e: "?e = c # cs" and c: "c \<noteq> 0x22" using unit_of_escapeRune [OF _ d, of ?rest] by blast
  have u: "stringUnit (c # cs @ ?rest) = Some (EncodeRune r, length ?e)"
    using unit_of_escapeRune [OF _ d, of ?rest] e by simp
  have "quoteBody (b # bs) @ 0x22 # rest = c # cs @ ?rest" using d e by (simp del: DecodeRune.simps)
  then have "scanString (quoteBody (b # bs) @ 0x22 # rest) =
      map_option (\<lambda>(t, rest). (EncodeRune r @ t, rest)) (scanString ?rest)"
    using c u e by simp
  also have "\<dots> = Some (EncodeRune r @ coerce (drop w (b # bs)), rest)" using 2 d by simp
  finally show ?case using d by (simp del: DecodeRune.simps)
qed simp

subsection \<open>Numbers\<close>

definition delimited :: "byte list \<Rightarrow> bool" where
  "delimited rest \<longleftrightarrow> (case rest of [] \<Rightarrow> True | b # _ \<Rightarrow> \<not> isDigit b \<and> b \<noteq> 0x2E \<and> b \<noteq> 0x65 \<and> b \<noteq> 0x45)"

lemma digit_byte:
  assumes "n < 10"
  shows "isDigit (word_of_nat (48 + n))" "unat (word_of_nat (48 + n) :: byte) = 48 + n"
proof -
  show u: "unat (word_of_nat (48 + n) :: byte) = 48 + n" by (rule unat_of_nat_small) (use assms in simp)
  show "isDigit (word_of_nat (48 + n))" using assms u by (simp add: isDigit_def inRange_unat)
qed

lemma decimal_digits: "decimal n \<noteq> []" "list_all isDigit (decimal n)"
proof (induction n rule: decimal.induct)
  case (1 n)
  { case 1 then show ?case by (simp add: decimal.simps) }
  { case 2 then show ?case using "1.IH"(2) digit_byte(1) [of "n mod 10"] digit_byte(1) [of n]
      by (subst decimal.simps) auto }
qed

lemma decimal_leading: "n \<noteq> 0 \<Longrightarrow> hd (decimal n) \<noteq> 0x30"
proof (induction n rule: decimal.induct)
  case (1 n)
  have "word_of_nat (48 + n) \<noteq> (0x30 :: byte)" if "n < 10"
  proof
    assume "word_of_nat (48 + n) = (0x30 :: byte)"
    then have "unat (word_of_nat (48 + n) :: byte) = 48" by simp
    with digit_byte(2) [OF that] "1.prems" show False by simp
  qed
  then show ?case using 1 decimal_digits(1) by (subst decimal.simps) (auto simp: hd_append)
qed

lemma decimal_value: "fold (\<lambda>b a. a * 10 + (unat b - 48)) (decimal n) 0 = n"
proof (induction n rule: decimal.induct)
  case (1 n)
  then show ?case using digit_byte(2) [of n] digit_byte(2) [of "n mod 10"]
    by (subst decimal.simps) auto
qed

lemma ParseUint_decimal: "ParseUint (decimal n) = (if n < 2 ^ 64 then Some n else None)"
  using decimal_digits [of n] by (simp add: ParseUint_def decimal_value Let_def)

lemma scan_delimited: "delimited rest \<Longrightarrow> scanFrac rest = Some ([], rest) \<and> scanExp rest = Some ([], rest)"
  by (cases rest) (auto simp: delimited_def)

lemma scanInt_decimal:
  assumes "delimited rest"
  shows "scanInt (decimal n @ rest) = Some (decimal n, rest)"
proof (cases "n = 0")
  case True
  then show ?thesis by (simp add: decimal.simps)
next
  case False
  obtain b bs where d: "decimal n = b # bs" using decimal_digits(1) [of n] by (cases "decimal n") auto
  have "isDigit b" "\<forall>x\<in>set bs. isDigit x" "b \<noteq> 0x30"
    using decimal_digits(2) [of n] decimal_leading [OF False] by (auto simp: d list_all_iff)
  moreover have "takeWhile isDigit rest = []" "dropWhile isDigit rest = rest"
    using assms by (cases rest; simp add: delimited_def)+
  ultimately show ?thesis by (simp add: d)
qed

definition numLit :: "byte list \<Rightarrow> bool" where
  "numLit l \<longleftrightarrow> (\<exists>n. l = decimal n \<or> l = 0x2D # decimal n)"

lemma numLit_decimalInt: "numLit (decimalInt i)" "numLit (decimal n)"
  by (auto simp: numLit_def decimalInt_def)

lemma decimal_head:
  obtains b bs where "decimal n = b # bs" "isDigit b" "b \<noteq> 0x2D"
proof -
  obtain b bs where d: "decimal n = b # bs" using decimal_digits(1) [of n] by (cases "decimal n") auto
  then have "isDigit b" using decimal_digits(2) [of n] by simp
  moreover from this have "b \<noteq> 0x2D" by (auto simp: isDigit_def inRange_def)
  ultimately show thesis using that d by blast
qed

lemma scanNumber_numLit:
  assumes "numLit l" and "delimited rest"
  shows "scanNumber (l @ rest) = Some (l, rest)"
proof -
  obtain n where "l = decimal n \<or> l = 0x2D # decimal n" using assms(1) by (auto simp: numLit_def)
  moreover obtain b bs where "decimal n = b # bs" "isDigit b" "b \<noteq> 0x2D" by (rule decimal_head)
  ultimately show ?thesis
    using scanInt_decimal [OF assms(2), of n] scan_delimited [OF assms(2)]
    by (auto simp: scanNumber_def simp del: scanInt.simps)
qed

subsection \<open>Texts\<close>

text \<open>Values as \<^verbatim>\<open>Marshal\<close> prints them, their tokens, and the value that is read again.\<close>

fun printable :: "json \<Rightarrow> bool" where
  "printable (JNum l) = numLit l"
| "printable (JArr vs) = list_all printable vs"
| "printable (JObj ms) = list_all (\<lambda>(k, v). printable v) ms"
| "printable _ = True"

fun coerceJson :: "json \<Rightarrow> json" where
  "coerceJson (JStr s) = JStr (coerce s)"
| "coerceJson (JArr vs) = JArr (map coerceJson vs)"
| "coerceJson (JObj ms) = JObj (map (\<lambda>(k, v). (coerce k, coerceJson v)) ms)"
| "coerceJson v = v"

fun joinTokens :: "token list list \<Rightarrow> token list" where
  "joinTokens [] = []"
| "joinTokens [x] = x"
| "joinTokens (x # xs) = x @ TComma # joinTokens xs"

fun tokensOf :: "json \<Rightarrow> token list" where
  "tokensOf JNull = [TNull]"
| "tokensOf (JBool b) = [if b then TTrue else TFalse]"
| "tokensOf (JNum l) = [TNum l]"
| "tokensOf (JStr s) = [TStr s]"
| "tokensOf (JArr vs) = TLBrack # joinTokens (map tokensOf vs) @ [TRBrack]"
| "tokensOf (JObj ms) = TLBrace # joinTokens (map (\<lambda>(k, v). TStr k # TColon # tokensOf v) ms) @ [TRBrace]"

fun jsonDepth :: "json \<Rightarrow> nat" where
  "jsonDepth (JArr vs) = Suc (foldr max (map jsonDepth vs) 0)"
| "jsonDepth (JObj ms) = Suc (foldr max (map (\<lambda>(k, v). jsonDepth v) ms) 0)"
| "jsonDepth _ = 0"

definition prepends :: "byte list \<Rightarrow> token list \<Rightarrow> bool" where
  "prepends s ts \<longleftrightarrow> (\<forall>rest. delimited rest \<longrightarrow> tokens (s @ rest) = map_option ((@) ts) (tokens rest))"

lemma prepends_punct:
  assumes "nextToken (b # rest) = Some (t, rest)" and "\<not> blank b"
  shows "tokens (b # rest) = map_option ((#) t) (tokens rest)"
  using assms by (subst tokens.simps) simp

lemma punct:
  "tokens (0x7B # rest) = map_option ((#) TLBrace) (tokens rest)"
  "tokens (0x7D # rest) = map_option ((#) TRBrace) (tokens rest)"
  "tokens (0x5B # rest) = map_option ((#) TLBrack) (tokens rest)"
  "tokens (0x5D # rest) = map_option ((#) TRBrack) (tokens rest)"
  "tokens (0x3A # rest) = map_option ((#) TColon) (tokens rest)"
  "tokens (0x2C # rest) = map_option ((#) TComma) (tokens rest)"
  by (rule prepends_punct; simp add: nextToken_def blank_def)+

lemma tokens_quote: "tokens (quote s @ rest) = map_option ((#) (TStr (coerce s))) (tokens rest)"
  by (subst tokens.simps) (simp add: quote_def nextToken_def blank_def scanString_quoteBody)

lemma tokens_literal:
  "tokens (lit ''null'' @ rest) = map_option ((#) TNull) (tokens rest)"
  "tokens (lit ''true'' @ rest) = map_option ((#) TTrue) (tokens rest)"
  "tokens (lit ''false'' @ rest) = map_option ((#) TFalse) (tokens rest)"
  by (subst tokens.simps, simp add: lit_def nextToken_def blank_def)+

lemma tokens_number:
  assumes "numLit l" and "delimited rest"
  shows "tokens (l @ rest) = map_option ((#) (TNum l)) (tokens rest)"
proof -
  obtain n where "l = decimal n \<or> l = 0x2D # decimal n" using assms(1) by (auto simp: numLit_def)
  moreover obtain b bs where "decimal n = b # bs" "isDigit b" "b \<noteq> 0x2D" by (rule decimal_head)
  ultimately obtain c cs where l: "l = c # cs" "isDigit c \<or> c = 0x2D" by auto
  then have "inRange 0x2D 0x39 c" "c \<noteq> 0x2C" "c \<noteq> 0x3A" by (auto simp: isDigit_def inRange_unat)
  then have c: "\<not> blank c" "c \<notin> {0x7B, 0x7D, 0x5B, 0x5D, 0x3A, 0x2C, 0x22, 0x6E, 0x74, 0x66}"
    by (auto simp: blank_def inRange_def)
  have "nextToken (c # cs @ rest) = Some (TNum l, rest)"
    using c scanNumber_numLit [OF assms] l(1) by (simp add: nextToken_def Let_def lit_def)
  then show ?thesis using c(1) l(1) by (subst tokens.simps) simp
qed

lemma delimited_comma [simp]: "delimited (0x2C # s)" "delimited (0x5D # s)" "delimited (0x7D # s)" "delimited []"
  by (simp_all add: delimited_def isDigit_def inRange_def)

lemma append_eta: "(@) (x # xs) = (\<lambda>ys. x # xs @ ys)" "(@) (xs @ ys) = (\<lambda>zs. xs @ ys @ zs)"
  "(@) [] = (\<lambda>ys. ys)"
  by (simp_all add: fun_eq_iff)

lemma tokens_join:
  assumes "\<And>x. x \<in> set xs \<Longrightarrow> prepends (f x) (g x)" and "delimited rest"
  shows "tokens (joinComma (map f xs) @ rest) = map_option ((@) (joinTokens (map g xs))) (tokens rest)"
  using assms(1)
proof (induction xs rule: induct_list012)
  case (2 x)
  then show ?case using assms(2) by (simp add: prepends_def)
next
  case (3 x y zs)
  have "tokens (f x @ 0x2C # joinComma (map f (y # zs)) @ rest) =
      map_option ((@) (g x)) (tokens (0x2C # joinComma (map f (y # zs)) @ rest))"
    using 3(3) [of x] by (simp add: prepends_def)
  also have "\<dots> = map_option ((@) (g x @ TComma # joinTokens (map g (y # zs)))) (tokens rest)"
    using 3(2) [OF 3(3)] by (cases "tokens rest") (simp_all add: punct del: list.map)
  finally show ?case by (simp add: append_eta)
qed (simp add: append_eta option.map_ident)

lemma prepends_render: "printable v \<Longrightarrow> prepends (render v) (tokensOf (coerceJson v))"
proof (induction v)
  case (JArr vs)
  then have "prepends (render x) (tokensOf (coerceJson x))" if "x \<in> set vs" for x
    using that by (auto simp: list_all_iff)
  then have "tokens (joinComma (map render vs) @ 0x5D # rest) =
      map_option ((@) (joinTokens (map (\<lambda>v. tokensOf (coerceJson v)) vs))) (tokens (0x5D # rest))" for rest
    by (intro tokens_join) auto
  then show ?case by (simp add: prepends_def punct option.map_comp comp_def append_eta)
next
  case (JObj ms)
  have "prepends (case x of (k, v) \<Rightarrow> quote k @ 0x3A # render v)
      (case x of (k, v) \<Rightarrow> TStr (coerce k) # TColon # tokensOf (coerceJson v))" if "x \<in> set ms" for x
  proof (cases x)
    case (Pair k v)
    then have "prepends (render v) (tokensOf (coerceJson v))" using JObj that by (force simp: list_all_iff)
    then show ?thesis
      by (simp add: Pair prepends_def tokens_quote punct option.map_comp comp_def append_eta)
  qed
  then have "tokens (joinComma (map (\<lambda>(k, v). quote k @ 0x3A # render v) ms) @ 0x7D # rest) =
      map_option ((@) (joinTokens (map (\<lambda>(k, v). TStr (coerce k) # TColon # tokensOf (coerceJson v)) ms)))
        (tokens (0x7D # rest))" for rest
    by (intro tokens_join) auto
  then show ?case by (simp add: prepends_def punct option.map_comp comp_def append_eta case_prod_unfold)
qed (auto simp: prepends_def tokens_literal tokens_number tokens_quote append_eta)

lemma tokensOf_head: "\<exists>t ts. tokensOf v = t # ts \<and> t \<noteq> TRBrack"
  by (cases v) auto

lemma parse_EValueOrEnd: "parse EValueOrEnd st (tokensOf v @ ts) = parse EValue st (tokensOf v @ ts)"
  using tokensOf_head [of v] by (auto simp: scanStep_def)

lemma parse_elements:
  assumes "\<And>w us ts. w \<in> set ws \<Longrightarrow>
      parse EValue (FArr us # st) (tokensOf w @ ts) = parse (EEnd w) (FArr us # st) ts"
    and "ws \<noteq> []"
  shows "parse EValue (FArr us # st) (joinTokens (map tokensOf ws) @ TRBrack # ts) = parse (EEnd (JArr (us @ ws))) st ts"
  using assms
proof (induction ws arbitrary: us rule: induct_list012)
  case (2 w)
  then show ?case by (simp add: scanStep_def endValue_def)
next
  case (3 w x ws)
  show ?case using 3(2) [OF 3(3), of "us @ [w]"] 3(3) [of w]
    by (simp add: scanStep_def endValue_def)
qed simp

lemma parse_members:
  assumes "\<And>k w us ts. (k, w) \<in> set ms \<Longrightarrow>
      parse EValue (FMember us k # st) (tokensOf w @ ts) = parse (EEnd w) (FMember us k # st) ts"
    and "ms \<noteq> []"
  shows "parse EKey (FObj us # st) (joinTokens (map (\<lambda>(k, v). TStr k # TColon # tokensOf v) ms) @ TRBrace # ts) =
      parse (EEnd (JObj (us @ ms))) st ts"
  using assms
proof (induction ms arbitrary: us rule: induct_list012)
  case (2 m)
  then show ?case by (cases m) (simp add: scanStep_def endValue_def beginKey_def beginMember_def)
next
  case (3 m m' ms)
  obtain k w where m: "m = (k, w)" by force
  show ?case using 3(2) [OF 3(3), of "us @ [m]"] 3(3) [of k w]
    by (simp add: m scanStep_def endValue_def beginKey_def beginMember_def)
qed simp

lemma foldr_max_le: "foldr max ns 0 \<le> (n::nat) \<longleftrightarrow> (\<forall>m \<in> set ns. m \<le> n)"
  by (induction ns) auto

lemma parse_value:
  "length st + jsonDepth v \<le> maxNestingDepth \<Longrightarrow> parse EValue st (tokensOf v @ ts) = parse (EEnd v) st ts"
proof (induction v arbitrary: st ts)
  case (JArr vs)
  have d: "Suc (length st) + jsonDepth w \<le> maxNestingDepth" if "w \<in> set vs" for w
    using JArr.prems that foldr_max_le [of "map jsonDepth vs" "maxNestingDepth - Suc (length st)"] by force
  have "parse EValue st (tokensOf (JArr vs) @ ts) = parse EValueOrEnd (FArr [] # st) (joinTokens (map tokensOf vs) @ TRBrack # ts)"
    using JArr.prems by (simp add: scanStep_def beginValue_def)
  also have "\<dots> = parse (EEnd (JArr vs)) st ts"
  proof (cases vs)
    case Nil
    then show ?thesis by (simp add: scanStep_def emptyArray_def)
  next
    case (Cons w ws)
    obtain r where r: "joinTokens (map tokensOf vs) = tokensOf w @ r" by (cases ws) (auto simp: Cons)
    have "parse EValue (FArr [] # st) (joinTokens (map tokensOf vs) @ TRBrack # ts) = parse (EEnd (JArr ([] @ vs))) st ts"
      by (rule parse_elements) (use d JArr.IH Cons in auto)
    then show ?thesis using parse_EValueOrEnd by (simp add: r)
  qed
  finally show ?case .
next
  case (JObj ms)
  have d: "Suc (length st) + jsonDepth w \<le> maxNestingDepth" if "(k, w) \<in> set ms" for k w
    using JObj.prems that foldr_max_le [of "map (\<lambda>(k, v). jsonDepth v) ms" "maxNestingDepth - Suc (length st)"] by force
  have "parse EValue st (tokensOf (JObj ms) @ ts) =
      parse EKeyOrEnd (FObj [] # st) (joinTokens (map (\<lambda>(k, v). TStr k # TColon # tokensOf v) ms) @ TRBrace # ts)"
    using JObj.prems by (simp add: scanStep_def beginValue_def)
  also have "\<dots> = parse (EEnd (JObj ms)) st ts"
  proof (cases ms)
    case Nil
    then show ?thesis by (simp add: scanStep_def emptyObject_def)
  next
    case (Cons m ms')
    obtain k r where r: "joinTokens (map (\<lambda>(k, v). TStr k # TColon # tokensOf v) ms) = TStr k # r"
      by (cases ms'; cases m) (auto simp: Cons)
    have "parse EKey (FObj [] # st) (joinTokens (map (\<lambda>(k, v). TStr k # TColon # tokensOf v) ms) @ TRBrace # ts) =
        parse (EEnd (JObj ([] @ ms))) st ts"
      by (rule parse_members) (use d JObj.IH Cons in fastforce)+
    then show ?thesis by (simp add: r scanStep_def)
  qed
  finally show ?case .
qed (auto simp: scanStep_def beginValue_def)

text \<open>What \<^verbatim>\<open>Marshal\<close> prints is read back, with every string coerced to valid UTF-8.\<close>

lemma jsonDepth_coerceJson [simp]: "jsonDepth (coerceJson v) = jsonDepth v"
proof (induction v)
  case (JArr vs)
  then have "map (jsonDepth \<circ> coerceJson) vs = map jsonDepth vs" by simp
  then show ?case by (simp only: coerceJson.simps jsonDepth.simps list.map_comp)
next
  case (JObj ms)
  then have "map ((\<lambda>(k, v). jsonDepth v) \<circ> (\<lambda>(k, v). (coerce k, coerceJson v))) ms = map (\<lambda>(k, v). jsonDepth v) ms"
    by force
  then show ?case by (simp only: coerceJson.simps jsonDepth.simps list.map_comp)
qed simp_all

lemma decodeText_render:
  assumes "printable v" and "jsonDepth v \<le> maxNestingDepth"
  shows "decodeText (render v) = Some (coerceJson v)"
proof -
  have "tokens [] = Some []" by (simp add: tokens.simps)
  then have "tokens (render v) = Some (tokensOf (coerceJson v))"
    using prepends_render [OF assms(1)] by (auto simp: prepends_def dest!: spec [of _ "[]"])
  moreover have "parse EValue [] (tokensOf (coerceJson v) @ []) = Some (coerceJson v)"
    using parse_value [of "[]" "coerceJson v" "[]"] assms(2) by simp
  ultimately show ?thesis by (simp add: decodeText_def)
qed

subsection \<open>Fields\<close>

lemma ParseInt_decimalInt:
  assumes "- (2 ^ 63) \<le> i" and "i < 2 ^ 63"
  shows "ParseInt (decimalInt i) = Some i"
proof (cases "i < 0")
  case True
  then show ?thesis using assms by (simp add: ParseInt_def decimalInt_def ParseUint_decimal nat_le_iff)
next
  case False
  obtain b bs where d: "decimal (nat i) = b # bs" "isDigit b" "b \<noteq> 0x2D" by (rule decimal_head)
  then have "b \<noteq> 0x2B" by (auto simp: isDigit_def inRange_def)
  then have "ParseInt (decimal (nat i)) =
      (case ParseUint (decimal (nat i)) of Some n \<Rightarrow> if n < 2 ^ 63 then Some (int n) else None | None \<Rightarrow> None)"
    using d by (simp add: ParseInt_def)
  also have "\<dots> = Some i" using False assms by (simp add: ParseUint_decimal nat_less_iff)
  finally show ?thesis using False by (simp add: decimalInt_def)
qed

lemma setUint_decimal:
  assumes "LENGTH('a::len) \<le> 64"
  shows "setUint (JNum (decimal (unat (w :: 'a word)))) old = w"
proof -
  have "unat w < 2 ^ LENGTH('a)" by (rule unsigned_less)
  moreover have "(2::nat) ^ LENGTH('a) \<le> 2 ^ 64" by (rule power_increasing [OF assms]) simp
  ultimately have "unat w < 2 ^ 64" by (rule less_le_trans)
  then show ?thesis using unsigned_less [of w] by (simp add: setUint_def ParseUint_decimal)
qed

lemma setInt_decimalInt: "setInt (JNum (decimalInt (sint w))) old = w"
  using sint_greater_eq [of w] sint_less [of w] by (simp add: setInt_def ParseInt_decimalInt)

lemma coerce_ascii: "list_all (\<lambda>b. b < 0x80) s \<Longrightarrow> coerce s = s"
proof (induction s)
  case (Cons b s)
  have "unat b < 128" using Cons.prems by (simp add: word_less_nat_alt)
  then show ?case using Cons by (simp add: EncodeRune_ascii)
qed simp

lemma Unmarshal_render:
  assumes "printable (JObj ms)" and "jsonDepth (JObj ms) \<le> maxNestingDepth"
  shows "Unmarshal fs (render (JObj ms)) m =
    fold (assignMember fs) (map (\<lambda>(k, v). (coerce k, coerceJson v)) ms) m"
  using decodeText_render [OF assms] by (simp add: Unmarshal_def assignStruct_def)

section \<open>Length of what is printed\<close>

lemma length_escapeRune: "length (escapeRune (b # bs)) \<le> 6 * snd (DecodeRune (b # bs))"
  using DecodeRune_width(1) [of b bs] by (auto simp: escapeRune_def escapeByte_def split: prod.splits simp del: DecodeRune.simps)

lemma length_quoteBody: "length (quoteBody s) \<le> 6 * length s"
proof (induction s rule: quoteBody.induct)
  case (2 b bs)
  have "length (quoteBody (b # bs)) \<le> 6 * snd (DecodeRune (b # bs)) + 6 * length (drop (snd (DecodeRune (b # bs))) (b # bs))"
    using 2 length_escapeRune [of b bs] by (simp del: DecodeRune.simps)
  then show ?case using DecodeRune_width(2) [of b bs] by (simp del: DecodeRune.simps quoteBody.simps)
qed simp

lemma length_quote: "length (quote s) \<le> 6 * length s + 2"
  using length_quoteBody [of s] by (simp add: quote_def)

end
