(* ===== verification/Messages.thy ===== *)
theory Messages
  imports LittleEndian Json
begin

text \<open>
  The messages the nodes exchange: the sources in \<^verbatim>\<open>message\<close>.  \<^verbatim>\<open>PutMessage\<close> and
  \<^verbatim>\<open>GetRspMessage\<close> have a binary form with a sixteen-bit key length, the verify, sync, get
  request and delete messages are JSON, ping, pong and verify-ok have no body.  The locale
  \<open>node_message\<close> is the contract of the interface \<^verbatim>\<open>NodeMessage\<close> that the remote node
  relies on; each kind of message interprets it.
\<close>

section \<open>Wire messages and codes\<close>

definition MsgVERIFY :: u16 where "MsgVERIFY = 10"
definition MsgVERIFYOK :: u16 where "MsgVERIFYOK = 11"
definition MsgPING :: u16 where "MsgPING = 12"
definition MsgPONG :: u16 where "MsgPONG = 13"
definition MsgPUT :: u16 where "MsgPUT = 14"
definition MsgGETReq :: u16 where "MsgGETReq = 15"
definition MsgGETRsp :: u16 where "MsgGETRsp = 16"
definition MsgDEL :: u16 where "MsgDEL = 17"
definition MsgSyncReq :: u16 where "MsgSyncReq = 18"
definition MsgSyncRsp :: u16 where "MsgSyncRsp = 19"

lemmas msg_codes = MsgVERIFY_def MsgVERIFYOK_def MsgPING_def MsgPONG_def MsgPUT_def MsgGETReq_def
  MsgGETRsp_def MsgDEL_def MsgSyncReq_def MsgSyncRsp_def

record NodeWireMessage =
  wireCode :: u16
  wireData :: "byte list"

record ProposedPeer =
  peerId :: gostring
  peerIpAddress :: gostring

definition MsgCodeToString :: "u16 \<Rightarrow> gostring" where
  "MsgCodeToString code =
     (if code = MsgDEL then lit ''msgDelete''
      else if code = MsgSyncRsp then lit ''msgSyncRsp''
      else if code = MsgSyncReq then lit ''msgSyncReq''
      else if code = MsgPUT then lit ''msgPUT''
      else if code = MsgPONG then lit ''msgPONG''
      else if code = MsgPING then lit ''mgsPING''
      else if code = MsgVERIFYOK then lit ''msgVerifyOK''
      else if code = MsgVERIFY then lit ''msgVerify''
      else if code = MsgGETReq then lit ''msgGETReq''
      else if code = MsgGETRsp then lit ''msgGETRsp''
      else lit ''unknown'')"

text \<open>A slice expression \<^verbatim>\<open>b[lo:hi]\<close>; it panics unless \<open>lo \<le> hi \<le> len\<close>.\<close>

definition goSub :: "byte list \<Rightarrow> nat \<Rightarrow> nat \<Rightarrow> byte list outcome" where
  "goSub b lo hi = (if lo \<le> hi \<and> hi \<le> length b then Ret (segment lo (hi - lo) b) else Panic)"

section \<open>The binary messages\<close>

record PutMessage =
  putCode :: u16
  putKey :: gostring
  putExpiry :: u64
  putData :: "byte list"

definition put_Serialize :: "PutMessage \<Rightarrow> (NodeWireMessage \<times> PutMessage) outcome" where
  "put_Serialize pm =
     (let keyLen = length (putKey pm);
          data = replicate (keyLen + length (putData pm) + 2 + 8) 0
      in obind (of_opt (PutUint64 data 0 (putExpiry pm))) (\<lambda>data.
         obind (of_opt (PutUint16 data 8 (of_nat keyLen))) (\<lambda>data.
           let data = fst (goCopy data (8 + 2) (putKey pm));
               data = fst (goCopy data (8 + 2 + keyLen) (putData pm))
           in Ret (\<lparr> wireCode = MsgPUT, wireData = data \<rparr>, pm))))"

text \<open>The slice bounds are computed in sixteen bits, the type of \<open>keyLen\<close>.\<close>

definition put_DeSerialize :: "NodeWireMessage \<Rightarrow> PutMessage \<Rightarrow> PutMessage outcome" where
  "put_DeSerialize msg pm =
     (let data = wireData msg in
      obind (of_opt (Uint64 data)) (\<lambda>expiry.
      obind (goSub data 8 (length data)) (\<lambda>d.
      obind (of_opt (Uint16 d)) (\<lambda>keyLen.
      obind (goSub data (8 + 2) (unat (8 + 2 + keyLen))) (\<lambda>key.
      obind (goSub data (unat (8 + 2 + keyLen)) (length data)) (\<lambda>body.
        Ret (pm\<lparr> putCode := MsgPUT, putExpiry := expiry, putKey := key, putData := body \<rparr>)))))))"

record GetRspMessage =
  rspCode :: u16
  rspPendingKey :: gostring
  rspData :: "byte list"

definition getRsp_Serialize :: "GetRspMessage \<Rightarrow> (NodeWireMessage \<times> GetRspMessage) outcome" where
  "getRsp_Serialize gm =
     (let keyLen = length (rspPendingKey gm);
          data = replicate (keyLen + length (rspData gm) + 2) 0
      in obind (of_opt (PutUint16 data 0 (of_nat keyLen))) (\<lambda>data.
           let data = fst (goCopy data 2 (rspPendingKey gm));
               data = fst (goCopy data (2 + keyLen) (rspData gm))
           in Ret (\<lparr> wireCode = MsgGETRsp, wireData = data \<rparr>, gm)))"

definition getRsp_DeSerialize :: "NodeWireMessage \<Rightarrow> GetRspMessage \<Rightarrow> GetRspMessage outcome" where
  "getRsp_DeSerialize msg gm =
     (let data = wireData msg in
      obind (of_opt (Uint16 data)) (\<lambda>keyLen.
      obind (goSub data 2 (unat (2 + keyLen))) (\<lambda>key.
      obind (goSub data (unat (2 + keyLen)) (length data)) (\<lambda>body.
        Ret (gm\<lparr> rspCode := MsgGETRsp, rspPendingKey := key, rspData := body \<rparr>)))))"

section \<open>The JSON messages\<close>

text \<open>Each struct with its JSON object and its fields as \<^verbatim>\<open>Unmarshal\<close> sees them.\<close>

definition jsonUint :: "'a::len word \<Rightarrow> json" where
  "jsonUint w = JNum (decimal (unat w))"

record DeleteMessage =
  delCode :: u16
  delKey :: gostring

definition delJson :: "DeleteMessage \<Rightarrow> json" where
  "delJson dm = JObj [(lit ''code'', jsonUint (delCode dm)), (lit ''key'', JStr (delKey dm))]"

definition delFields :: "DeleteMessage fields" where
  "delFields = [(lit ''code'', \<lambda>v m. m\<lparr> delCode := setUint v (delCode m) \<rparr>),
                (lit ''key'', \<lambda>v m. m\<lparr> delKey := setString v (delKey m) \<rparr>)]"

definition del_Serialize :: "DeleteMessage \<Rightarrow> (NodeWireMessage \<times> DeleteMessage) outcome" where
  "del_Serialize dm =
     (let dm = dm\<lparr> delCode := MsgDEL \<rparr>
      in Ret (\<lparr> wireCode = MsgDEL, wireData = render (delJson dm) \<rparr>, dm))"

definition del_DeSerialize :: "NodeWireMessage \<Rightarrow> DeleteMessage \<Rightarrow> DeleteMessage outcome" where
  "del_DeSerialize msg dm = Ret (Unmarshal delFields (wireData msg) dm)"

record GetReqMessage =
  reqCode :: u16
  reqKey :: gostring
  reqPendingKey :: gostring

definition getReqJson :: "GetReqMessage \<Rightarrow> json" where
  "getReqJson gm = JObj [(lit ''code'', jsonUint (reqCode gm)), (lit ''key'', JStr (reqKey gm)),
                         (lit ''pending_key'', JStr (reqPendingKey gm))]"

definition getReqFields :: "GetReqMessage fields" where
  "getReqFields = [(lit ''code'', \<lambda>v m. m\<lparr> reqCode := setUint v (reqCode m) \<rparr>),
                   (lit ''key'', \<lambda>v m. m\<lparr> reqKey := setString v (reqKey m) \<rparr>),
                   (lit ''pending_key'', \<lambda>v m. m\<lparr> reqPendingKey := setString v (reqPendingKey m) \<rparr>)]"

definition getReq_Serialize :: "GetReqMessage \<Rightarrow> (NodeWireMessage \<times> GetReqMessage) outcome" where
  "getReq_Serialize gm =
     (let gm = gm\<lparr> reqCode := MsgGETReq \<rparr>
      in Ret (\<lparr> wireCode = MsgGETReq, wireData = render (getReqJson gm) \<rparr>, gm))"

definition getReq_DeSerialize :: "NodeWireMessage \<Rightarrow> GetReqMessage \<Rightarrow> GetReqMessage outcome" where
  "getReq_DeSerialize msg gm = Ret (Unmarshal getReqFields (wireData msg) gm)"

record SyncReqMessage =
  syncReqCode :: u16
  syncReqMode :: byte

definition syncReqJson :: "SyncReqMessage \<Rightarrow> json" where
  "syncReqJson sc = JObj [(lit ''code'', jsonUint (syncReqCode sc)), (lit ''mode'', jsonUint (syncReqMode sc))]"

definition syncReqFields :: "SyncReqMessage fields" where
  "syncReqFields = [(lit ''code'', \<lambda>v m. m\<lparr> syncReqCode := setUint v (syncReqCode m) \<rparr>),
                    (lit ''mode'', \<lambda>v m. m\<lparr> syncReqMode := setUint v (syncReqMode m) \<rparr>)]"

definition syncReq_Serialize :: "SyncReqMessage \<Rightarrow> (NodeWireMessage \<times> SyncReqMessage) outcome" where
  "syncReq_Serialize sc = Ret (\<lparr> wireCode = MsgSyncReq, wireData = render (syncReqJson sc) \<rparr>, sc)"

definition syncReq_DeSerialize :: "NodeWireMessage \<Rightarrow> SyncReqMessage \<Rightarrow> SyncReqMessage outcome" where
  "syncReq_DeSerialize msg sc = Ret (Unmarshal syncReqFields (wireData msg) sc)"

definition peerJson :: "ProposedPeer \<Rightarrow> json" where
  "peerJson p = JObj [(lit ''Id'', JStr (peerId p)), (lit ''IpAddress'', JStr (peerIpAddress p))]"

definition peerFields :: "ProposedPeer fields" where
  "peerFields = [(lit ''Id'', \<lambda>v p. p\<lparr> peerId := setString v (peerId p) \<rparr>),
                 (lit ''IpAddress'', \<lambda>v p. p\<lparr> peerIpAddress := setString v (peerIpAddress p) \<rparr>)]"

definition noPeer :: ProposedPeer where
  "noPeer = \<lparr> peerId = [], peerIpAddress = [] \<rparr>"

text \<open>The list of a sync response is a slice: \<open>None\<close> is nil, which prints as null.\<close>

record SyncRspMessage =
  syncRspCode :: u64
  syncRspReplicationFactor :: u64
  syncRspList :: "ProposedPeer list option"

definition syncRspJson :: "SyncRspMessage \<Rightarrow> json" where
  "syncRspJson sc =
     JObj [(lit ''code'', jsonUint (syncRspCode sc)),
           (lit ''replication_factor'', JNum (decimalInt (sint (syncRspReplicationFactor sc)))),
           (lit ''list'', case syncRspList sc of None \<Rightarrow> JNull | Some ps \<Rightarrow> JArr (map peerJson ps))]"

definition syncRspFields :: "SyncRspMessage fields" where
  "syncRspFields =
     [(lit ''code'', \<lambda>v m. m\<lparr> syncRspCode := setUint v (syncRspCode m) \<rparr>),
      (lit ''replication_factor'', \<lambda>v m. m\<lparr> syncRspReplicationFactor := setInt v (syncRspReplicationFactor m) \<rparr>),
      (lit ''list'', \<lambda>v m. m\<lparr> syncRspList := setSlice peerFields noPeer v (syncRspList m) \<rparr>)]"

definition syncRsp_Serialize :: "SyncRspMessage \<Rightarrow> (NodeWireMessage \<times> SyncRspMessage) outcome" where
  "syncRsp_Serialize sc =
     (let sc = sc\<lparr> syncRspCode := 19 \<rparr>
      in Ret (\<lparr> wireCode = MsgSyncRsp, wireData = render (syncRspJson sc) \<rparr>, sc))"

definition syncRsp_DeSerialize :: "NodeWireMessage \<Rightarrow> SyncRspMessage \<Rightarrow> SyncRspMessage outcome" where
  "syncRsp_DeSerialize msg sc = Ret (Unmarshal syncRspFields (wireData msg) sc)"

record VerifyMessage =
  verifyId :: gostring
  verifyVersion :: gostring
  verifyServicePort :: gostring
  verifyMode :: byte

definition verifyJson :: "VerifyMessage \<Rightarrow> json" where
  "verifyJson vm = JObj [(lit ''id'', JStr (verifyId vm)), (lit ''version'', JStr (verifyVersion vm)),
                         (lit ''service_port'', JStr (verifyServicePort vm)), (lit ''mode'', jsonUint (verifyMode vm))]"

definition verifyFields :: "VerifyMessage fields" where
  "verifyFields = [(lit ''id'', \<lambda>v m. m\<lparr> verifyId := setString v (verifyId m) \<rparr>),
                   (lit ''version'', \<lambda>v m. m\<lparr> verifyVersion := setString v (verifyVersion m) \<rparr>),
                   (lit ''service_port'', \<lambda>v m. m\<lparr> verifyServicePort := setString v (verifyServicePort m) \<rparr>),
                   (lit ''mode'', \<lambda>v m. m\<lparr> verifyMode := setUint v (verifyMode m) \<rparr>)]"

definition verify_Serialize :: "VerifyMessage \<Rightarrow> (NodeWireMessage \<times> VerifyMessage) outcome" where
  "verify_Serialize vm = Ret (\<lparr> wireCode = MsgVERIFY, wireData = render (verifyJson vm) \<rparr>, vm)"

definition verify_DeSerialize :: "NodeWireMessage \<Rightarrow> VerifyMessage \<Rightarrow> VerifyMessage outcome" where
  "verify_DeSerialize msg vm = Ret (Unmarshal verifyFields (wireData msg) vm)"

section \<open>The messages without a body\<close>

record PingMessage = pingCode :: u16
record PongMessage = pongCode :: u16

definition ping_Serialize :: "PingMessage \<Rightarrow> (NodeWireMessage \<times> PingMessage) outcome" where
  "ping_Serialize pm = Ret (\<lparr> wireCode = MsgPING, wireData = [] \<rparr>, pm)"

definition ping_DeSerialize :: "NodeWireMessage \<Rightarrow> PingMessage \<Rightarrow> PingMessage outcome" where
  "ping_DeSerialize msg pm = Ret (pm\<lparr> pingCode := wireCode msg \<rparr>)"

definition pong_Serialize :: "PongMessage \<Rightarrow> (NodeWireMessage \<times> PongMessage) outcome" where
  "pong_Serialize pm = Ret (\<lparr> wireCode = MsgPONG, wireData = [] \<rparr>, pm)"

definition pong_DeSerialize :: "NodeWireMessage \<Rightarrow> PongMessage \<Rightarrow> PongMessage outcome" where
  "pong_DeSerialize msg pm = Ret (pm\<lparr> pongCode := wireCode msg \<rparr>)"

datatype VerifyOKMessage = VerifyOKMessage

definition verifyOK_Serialize :: "VerifyOKMessage \<Rightarrow> (NodeWireMessage \<times> VerifyOKMessage) outcome" where
  "verifyOK_Serialize vm = Ret (\<lparr> wireCode = MsgVERIFYOK, wireData = [] \<rparr>, vm)"

definition verifyOK_DeSerialize :: "NodeWireMessage \<Rightarrow> VerifyOKMessage \<Rightarrow> VerifyOKMessage outcome" where
  "verifyOK_DeSerialize msg vm = Ret vm"

section \<open>The interface\<close>

datatype NodeMessage = PutM PutMessage | GetRspM GetRspMessage | DeleteM DeleteMessage
  | GetReqM GetReqMessage | SyncReqM SyncReqMessage | SyncRspM SyncRspMessage | VerifyM VerifyMessage
  | PingM PingMessage | PongM PongMessage | VerifyOKM VerifyOKMessage

fun Serialize :: "NodeMessage \<Rightarrow> NodeWireMessage outcome" where
  "Serialize (PutM m) = obind (put_Serialize m) (\<lambda>(w, _). Ret w)"
| "Serialize (GetRspM m) = obind (getRsp_Serialize m) (\<lambda>(w, _). Ret w)"
| "Serialize (DeleteM m) = obind (del_Serialize m) (\<lambda>(w, _). Ret w)"
| "Serialize (GetReqM m) = obind (getReq_Serialize m) (\<lambda>(w, _). Ret w)"
| "Serialize (SyncReqM m) = obind (syncReq_Serialize m) (\<lambda>(w, _). Ret w)"
| "Serialize (SyncRspM m) = obind (syncRsp_Serialize m) (\<lambda>(w, _). Ret w)"
| "Serialize (VerifyM m) = obind (verify_Serialize m) (\<lambda>(w, _). Ret w)"
| "Serialize (PingM m) = obind (ping_Serialize m) (\<lambda>(w, _). Ret w)"
| "Serialize (PongM m) = obind (pong_Serialize m) (\<lambda>(w, _). Ret w)"
| "Serialize (VerifyOKM m) = obind (verifyOK_Serialize m) (\<lambda>(w, _). Ret w)"

section \<open>Layout of the binary messages\<close>

definition putWire :: "PutMessage \<Rightarrow> byte list" where
  "putWire pm = le_put 8 (putExpiry pm) @ le_put 2 (of_nat (length (putKey pm)) :: u16) @ putKey pm @ putData pm"

definition getRspWire :: "GetRspMessage \<Rightarrow> byte list" where
  "getRspWire gm = le_put 2 (of_nat (length (rspPendingKey gm)) :: u16) @ rspPendingKey gm @ rspData gm"

lemma put_Serialize_wire: "put_Serialize pm = Ret (\<lparr> wireCode = MsgPUT, wireData = putWire pm \<rparr>, pm)"
proof -
  let ?k = "putKey pm" and ?d = "putData pm" and ?n = "length (putKey pm) + length (putData pm) + 2 + 8"
  let ?e = "le_put 8 (putExpiry pm)" and ?l = "le_put 2 (of_nat (length (putKey pm)) :: u16)"
  let ?z = "\<lambda>n. replicate n (0::byte)"
  have 1: "PutUint64 (?z ?n) 0 (putExpiry pm) = Some (?e @ ?z (?n - 8))"
    by (simp add: PutUint64_def overwrite_0)
  have 2: "PutUint16 (?e @ ?z (?n - 8)) 8 (of_nat (length ?k)) = Some (?e @ ?l @ ?z (?n - 10))"
    by (simp add: PutUint16_def overwrite_append_same)
  have 3: "goCopy (?e @ ?l @ ?z (?n - 10)) (8 + 2) ?k = (?e @ ?l @ ?k @ ?z (length ?d), length ?k)"
    using overwrite_append_same [of "?e @ ?l" 10 ?k "?z (?n - 10)"] by (simp add: goCopy_fits)
  have 4: "goCopy (?e @ ?l @ ?k @ ?z (length ?d)) (8 + 2 + length ?k) ?d = (?e @ ?l @ ?k @ ?d, length ?d)"
    using overwrite_append_same [of "?e @ ?l @ ?k" "10 + length ?k" ?d "?z (length ?d)"] by (simp add: goCopy_fits)
  show ?thesis
    unfolding put_Serialize_def Let_def 1 of_opt_simps obind.simps 2 3 fst_conv 4 by (simp add: putWire_def)
qed

lemma getRsp_Serialize_wire:
  "getRsp_Serialize gm = Ret (\<lparr> wireCode = MsgGETRsp, wireData = getRspWire gm \<rparr>, gm)"
proof -
  let ?k = "rspPendingKey gm" and ?d = "rspData gm" and ?n = "length (rspPendingKey gm) + length (rspData gm) + 2"
  let ?l = "le_put 2 (of_nat (length (rspPendingKey gm)) :: u16)" and ?z = "\<lambda>n. replicate n (0::byte)"
  have 1: "PutUint16 (?z ?n) 0 (of_nat (length ?k)) = Some (?l @ ?z (?n - 2))"
    by (simp add: PutUint16_def overwrite_0)
  have 2: "goCopy (?l @ ?z (?n - 2)) 2 ?k = (?l @ ?k @ ?z (length ?d), length ?k)"
    using overwrite_append_same [of ?l 2 ?k "?z (?n - 2)"] by (simp add: goCopy_fits)
  have 3: "goCopy (?l @ ?k @ ?z (length ?d)) (2 + length ?k) ?d = (?l @ ?k @ ?d, length ?d)"
    using overwrite_append_same [of "?l @ ?k" "2 + length ?k" ?d "?z (length ?d)"] by (simp add: goCopy_fits)
  show ?thesis
    unfolding getRsp_Serialize_def Let_def 1 of_opt_simps obind.simps 2 fst_conv 3 by (simp add: getRspWire_def)
qed

text \<open>
  The end of a key that starts at \<open>h\<close>, computed in sixteen bits.  A key that ends before
  65536 is cut out exactly.
\<close>

definition keyEnd :: "nat \<Rightarrow> nat \<Rightarrow> nat" where
  "keyEnd h n = (h + n mod 65536) mod 65536"

lemma keyEnd_eq:
  assumes "h \<le> 65536"
  shows "keyEnd h n = (if 65536 - h \<le> n mod 65536 then h + n mod 65536 - 65536 else h + n mod 65536)"
proof -
  have "n mod 65536 < 65536" by simp
  then have "h + n mod 65536 - 65536 < 65536" using assms by linarith
  then show ?thesis unfolding keyEnd_def using assms by (auto simp: le_mod_geq)
qed

lemma unat_keyEnd:
  "unat (8 + 2 + of_nat n :: u16) = keyEnd 10 n" "unat (2 + of_nat n :: u16) = keyEnd 2 n"
proof -
  have "(8 + 2 + of_nat n :: u16) = of_nat (10 + n)" "(2 + of_nat n :: u16) = of_nat (2 + n)" by simp_all
  then show "unat (8 + 2 + of_nat n :: u16) = keyEnd 10 n" "unat (2 + of_nat n :: u16) = keyEnd 2 n"
    unfolding keyEnd_def mod_add_right_eq by (simp_all only: unat_of_nat take_bit_eq_mod) simp_all
qed

lemma goSub_rest: "n \<le> length b \<Longrightarrow> goSub b n (length b) = Ret (drop n b)"
  by (simp add: goSub_def segment_def)

lemma put_DeSerialize_wire:
  assumes "wireData msg = putWire pm"
  shows "put_DeSerialize msg pm0 =
    (let e = keyEnd 10 (length (putKey pm)) in
     if e < 10 then Panic
     else Ret (pm0\<lparr> putCode := MsgPUT, putExpiry := putExpiry pm,
                    putKey := take (e - 10) (putKey pm), putData := drop (e - 10) (putKey pm) @ putData pm \<rparr>))"
proof -
  let ?n = "length (putKey pm)"
  have 1: "Uint64 (putWire pm) = Some (putExpiry pm)" by (simp add: putWire_def Uint64_put)
  have 2: "goSub (putWire pm) 8 (length (putWire pm)) =
      Ret (le_put 2 (of_nat ?n :: u16) @ putKey pm @ putData pm)"
    by (subst goSub_rest) (simp_all add: putWire_def)
  have e: "keyEnd 10 ?n < 10 \<or> keyEnd 10 ?n - 10 \<le> ?n"
    unfolding keyEnd_def by (cases "?n mod 65536 < 65526") (auto intro: le_trans [OF _ mod_less_eq_dividend])
  have 3: "goSub (putWire pm) 10 (keyEnd 10 ?n) = (if keyEnd 10 ?n < 10 then Panic else Ret (take (keyEnd 10 ?n - 10) (putKey pm)))"
    using e by (auto simp: goSub_def segment_def putWire_def)
  have 4: "goSub (putWire pm) (keyEnd 10 ?n) (length (putWire pm)) = Ret (drop (keyEnd 10 ?n - 10) (putKey pm) @ putData pm)"
    if "\<not> keyEnd 10 ?n < 10"
    using e that by (subst goSub_rest) (auto simp: putWire_def)
  show ?thesis
    unfolding put_DeSerialize_def assms Let_def 1 2 of_opt_simps obind.simps Uint16_put
    using 3 4 by (simp add: unat_keyEnd [simplified])
qed

lemma getRsp_DeSerialize_wire:
  assumes "wireData msg = getRspWire gm"
  shows "getRsp_DeSerialize msg gm0 =
    (let e = keyEnd 2 (length (rspPendingKey gm)) in
     if e < 2 then Panic
     else Ret (gm0\<lparr> rspCode := MsgGETRsp, rspPendingKey := take (e - 2) (rspPendingKey gm),
                    rspData := drop (e - 2) (rspPendingKey gm) @ rspData gm \<rparr>))"
proof -
  let ?n = "length (rspPendingKey gm)"
  have e: "keyEnd 2 ?n < 2 \<or> keyEnd 2 ?n - 2 \<le> ?n"
    unfolding keyEnd_def by (cases "?n mod 65536 < 65534") (auto intro: le_trans [OF _ mod_less_eq_dividend])
  have 3: "goSub (getRspWire gm) 2 (keyEnd 2 ?n) = (if keyEnd 2 ?n < 2 then Panic else Ret (take (keyEnd 2 ?n - 2) (rspPendingKey gm)))"
    using e by (auto simp: goSub_def segment_def getRspWire_def)
  have 4: "goSub (getRspWire gm) (keyEnd 2 ?n) (length (getRspWire gm)) = Ret (drop (keyEnd 2 ?n - 2) (rspPendingKey gm) @ rspData gm)"
    if "\<not> keyEnd 2 ?n < 2"
    using e that by (subst goSub_rest) (auto simp: getRspWire_def)
  have 1: "Uint16 (getRspWire gm) = Some (of_nat ?n)" by (simp add: getRspWire_def Uint16_put)
  show ?thesis
    unfolding getRsp_DeSerialize_def assms Let_def 1 of_opt_simps obind.simps
    using 3 4 by (simp add: unat_keyEnd)
qed

section \<open>Round trips of the JSON messages\<close>

lemma of_char_byte_inject: "of_char c = (of_char d :: byte) \<longleftrightarrow> c = d"
proof
  assume a: "of_char c = (of_char d :: byte)"
  have u: "unat (of_char c :: byte) = of_char c" for c
    using unat_of_nat_small [of "of_char c", where 'a = 8] nat_of_char_less_256 [of c]
    by (simp add: of_nat_of_char)
  from a have "unat (of_char c :: byte) = unat (of_char d :: byte)" by simp
  then show "c = d" unfolding u by simp
qed simp

lemma lit_inject: "lit s = lit t \<longleftrightarrow> s = t"
  unfolding lit_def by (rule inj_map_eq_map) (auto intro: injI simp: of_char_byte_inject)

text \<open>The names of the fields are ASCII.\<close>

definition fieldName :: "string \<Rightarrow> bool" where
  "fieldName s \<longleftrightarrow> list_all (\<lambda>b. b < (0x80 :: byte)) (lit s)"

lemma coerce_fieldName: "fieldName s \<Longrightarrow> coerce (lit s) = lit s"
  unfolding fieldName_def by (rule coerce_ascii)

lemma field_names:
  "fieldName ''code''" "fieldName ''key''" "fieldName ''pending_key''" "fieldName ''mode''" "fieldName ''id''"
  "fieldName ''version''" "fieldName ''service_port''" "fieldName ''replication_factor''" "fieldName ''list''"
  "fieldName ''Id''" "fieldName ''IpAddress''"
  by (simp_all add: fieldName_def lit_def)

lemma assignMember_known: "map_of fs k = Some f \<Longrightarrow> assignMember fs (k, v) m = f v m"
  by (simp add: assignMember_def fieldFor_def)

lemmas json_simps = jsonUint_def maxNestingDepth_def numLit_decimalInt assignMember_known
  setUint_decimal setString_def setInt_decimalInt field_names coerce_fieldName lit_inject

lemma delete_received:
  "Unmarshal delFields (render (delJson dm)) dm0 = dm\<lparr> delKey := coerce (delKey dm) \<rparr>"
  unfolding delJson_def
  by (subst Unmarshal_render) (simp_all add: json_simps delFields_def del: coerce.simps)

lemma getReq_received:
  "Unmarshal getReqFields (render (getReqJson gm)) gm0 =
   gm\<lparr> reqKey := coerce (reqKey gm), reqPendingKey := coerce (reqPendingKey gm) \<rparr>"
  unfolding getReqJson_def
  by (subst Unmarshal_render) (simp_all add: json_simps getReqFields_def del: coerce.simps)

lemma syncReq_received: "Unmarshal syncReqFields (render (syncReqJson sc)) sc0 = sc"
  unfolding syncReqJson_def
  by (subst Unmarshal_render) (simp_all add: json_simps syncReqFields_def del: coerce.simps)

lemma verify_received:
  "Unmarshal verifyFields (render (verifyJson vm)) vm0 =
   vm\<lparr> verifyId := coerce (verifyId vm), verifyVersion := coerce (verifyVersion vm),
       verifyServicePort := coerce (verifyServicePort vm) \<rparr>"
  unfolding verifyJson_def
  by (subst Unmarshal_render) (simp_all add: json_simps verifyFields_def del: coerce.simps)

definition coercePeer :: "ProposedPeer \<Rightarrow> ProposedPeer" where
  "coercePeer p = \<lparr> peerId = coerce (peerId p), peerIpAddress = coerce (peerIpAddress p) \<rparr>"

lemma assign_peer: "assignStruct peerFields (coerceJson (peerJson p)) p0 = coercePeer p"
  by (simp add: assignStruct_def peerJson_def coercePeer_def json_simps peerFields_def del: coerce.simps)

lemma setElems_peers: "setElems peerFields z (map (\<lambda>p. coerceJson (peerJson p)) ps) old = map coercePeer ps"
proof (induction ps arbitrary: old)
  case (Cons p ps)
  then show ?case by (cases old) (simp_all add: assign_peer)
qed simp

lemma peerJson_printable: "printable (peerJson p)" "jsonDepth (peerJson p) = 1"
  by (simp_all add: peerJson_def)

lemma syncRsp_received:
  "Unmarshal syncRspFields (render (syncRspJson sc)) sc0 =
   sc\<lparr> syncRspList := map_option (map coercePeer) (syncRspList sc) \<rparr>"
proof -
  have "foldr max (map jsonDepth (map peerJson ps)) 0 \<le> 1" for ps
    by (induction ps) (auto simp: peerJson_printable)
  then have "jsonDepth (syncRspJson sc) \<le> maxNestingDepth"
    by (auto simp: syncRspJson_def json_simps max_def intro: order_trans [of _ 1] split: option.split)
  moreover have "printable (syncRspJson sc)"
    by (simp add: syncRspJson_def json_simps list_all_iff peerJson_printable split: option.split)
  ultimately show ?thesis
    unfolding syncRspJson_def
    by (subst Unmarshal_render)
       (auto simp: json_simps syncRspFields_def setSlice_def setElems_peers comp_def
         simp del: coerce.simps split: option.split)
qed

section \<open>The contract of a message\<close>

text \<open>
  What a remote node relies on: serialising succeeds and carries the code of the kind, and a
  message whose keys are short enough arrives as \<open>arrives m m0\<close> in a receiver \<open>m0\<close>.
\<close>

locale node_message =
  fixes kind :: u16
    and ser :: "'m \<Rightarrow> (NodeWireMessage \<times> 'm) outcome"
    and deser :: "NodeWireMessage \<Rightarrow> 'm \<Rightarrow> 'm outcome"
    and short :: "'m \<Rightarrow> bool"
    and arrives :: "'m \<Rightarrow> 'm \<Rightarrow> 'm"
  assumes ser_law: "\<exists>w m'. ser m = Ret (w, m') \<and> wireCode w = kind"
    and round_law: "short m \<Longrightarrow> ser m = Ret (w, m') \<Longrightarrow> deser w m0 = Ret (arrives m m0)"
begin

lemma transported: "short m \<Longrightarrow> obind (ser m) (\<lambda>(w, _). deser w m0) = Ret (arrives m m0)"
  using ser_law [of m] round_law [of m] by auto

lemma on_the_wire:
  assumes "short m"
  obtains d where "obind (ser m) (\<lambda>(w, _). Ret w) = Ret \<lparr> wireCode = kind, wireData = d \<rparr>"
    and "deser \<lparr> wireCode = kind, wireData = d \<rparr> m0 = Ret (arrives m m0)"
proof -
  obtain w m' where "ser m = Ret (w, m')" "wireCode w = kind" using ser_law by blast
  with round_law [OF assms this(1)] that [of "wireData w"] show ?thesis by (cases w) simp
qed

end

definition putShort :: "PutMessage \<Rightarrow> bool" where
  "putShort pm \<longleftrightarrow> length (putKey pm) < 65526"

definition getRspShort :: "GetRspMessage \<Rightarrow> bool" where
  "getRspShort gm \<longleftrightarrow> length (rspPendingKey gm) < 65534"

interpretation putM: node_message MsgPUT put_Serialize put_DeSerialize putShort "\<lambda>m _. m\<lparr> putCode := MsgPUT \<rparr>"
  by unfold_locales (auto simp: put_Serialize_wire put_DeSerialize_wire putShort_def keyEnd_def)

interpretation getRspM: node_message MsgGETRsp getRsp_Serialize getRsp_DeSerialize getRspShort
    "\<lambda>m _. m\<lparr> rspCode := MsgGETRsp \<rparr>"
  by unfold_locales (auto simp: getRsp_Serialize_wire getRsp_DeSerialize_wire getRspShort_def keyEnd_def)

interpretation delM: node_message MsgDEL del_Serialize del_DeSerialize "\<lambda>_. True"
    "\<lambda>m _. m\<lparr> delCode := MsgDEL, delKey := coerce (delKey m) \<rparr>"
  by unfold_locales (auto simp: del_Serialize_def del_DeSerialize_def delete_received Let_def)

interpretation getReqM: node_message MsgGETReq getReq_Serialize getReq_DeSerialize "\<lambda>_. True"
    "\<lambda>m _. m\<lparr> reqCode := MsgGETReq, reqKey := coerce (reqKey m), reqPendingKey := coerce (reqPendingKey m) \<rparr>"
  by unfold_locales (auto simp: getReq_Serialize_def getReq_DeSerialize_def getReq_received Let_def)

interpretation syncReqM: node_message MsgSyncReq syncReq_Serialize syncReq_DeSerialize "\<lambda>_. True" "\<lambda>m _. m"
  by unfold_locales (auto simp: syncReq_Serialize_def syncReq_DeSerialize_def syncReq_received)

interpretation syncRspM: node_message MsgSyncRsp syncRsp_Serialize syncRsp_DeSerialize "\<lambda>_. True"
    "\<lambda>m _. m\<lparr> syncRspCode := 19, syncRspList := map_option (map coercePeer) (syncRspList m) \<rparr>"
  by unfold_locales (auto simp: syncRsp_Serialize_def syncRsp_DeSerialize_def syncRsp_received Let_def)

interpretation verifyM: node_message MsgVERIFY verify_Serialize verify_DeSerialize "\<lambda>_. True"
    "\<lambda>m _. m\<lparr> verifyId := coerce (verifyId m), verifyVersion := coerce (verifyVersion m),
             verifyServicePort := coerce (verifyServicePort m) \<rparr>"
  by unfold_locales (auto simp: verify_Serialize_def verify_DeSerialize_def verify_received)

interpretation pingM: node_message MsgPING ping_Serialize ping_DeSerialize "\<lambda>_. True" "\<lambda>_ m0. m0\<lparr> pingCode := MsgPING \<rparr>"
  by unfold_locales (auto simp: ping_Serialize_def ping_DeSerialize_def)

interpretation pongM: node_message MsgPONG pong_Serialize pong_DeSerialize "\<lambda>_. True" "\<lambda>_ m0. m0\<lparr> pongCode := MsgPONG \<rparr>"
  by unfold_locales (auto simp: pong_Serialize_def pong_DeSerialize_def)

interpretation verifyOKM: node_message MsgVERIFYOK verifyOK_Serialize verifyOK_DeSerialize "\<lambda>_. True" "\<lambda>_ m0. m0"
  by unfold_locales (auto simp: verifyOK_Serialize_def verifyOK_DeSerialize_def)

section \<open>Properties\<close>

text \<open>
  C28. A put message that is serialised and deserialised, for every length of the key and
  whatever the receiver held: up to 65525 bytes the key, the expiry time and the data arrive
  unchanged.  When the length modulo 65536 is 65526 or more, the sixteen-bit end of the key
  wraps below its start and deserialising panics.  A key of 65536 bytes or more is cut to its
  length modulo 65536 and the rest of it is taken for data.
\<close>

theorem put_message_wire:
  "obind (put_Serialize pm) (\<lambda>(msg, _). put_DeSerialize msg pm0) =
     (let n = length (putKey pm) mod 65536 in
      if 65526 \<le> n then Panic
      else Ret \<lparr> putCode = MsgPUT, putKey = take n (putKey pm), putExpiry = putExpiry pm,
                 putData = drop n (putKey pm) @ putData pm \<rparr>)"
  by (auto simp: put_Serialize_wire put_DeSerialize_wire Let_def keyEnd_eq)

text \<open>
  The same for a get response and its pending key, with 65533 bytes as the longest key.
\<close>

lemma get_response_wire:
  "obind (getRsp_Serialize gm) (\<lambda>(msg, _). getRsp_DeSerialize msg gm0) =
     (let n = length (rspPendingKey gm) mod 65536 in
      if 65534 \<le> n then Panic
      else Ret \<lparr> rspCode = MsgGETRsp, rspPendingKey = take n (rspPendingKey gm),
                 rspData = drop n (rspPendingKey gm) @ rspData gm \<rparr>)"
  by (auto simp: getRsp_Serialize_wire getRsp_DeSerialize_wire Let_def keyEnd_eq)

text \<open>
  A delete message that is serialised to JSON and parsed again arrives with its key
  coerced to valid UTF-8: every byte that starts no valid encoding has become the replacement
  character.  The key is unchanged exactly when it was valid UTF-8.
\<close>

lemma delete_message_coerces_key:
  "obind (del_Serialize dm) (\<lambda>(msg, _). del_DeSerialize msg dm0) =
     Ret \<lparr> delCode = MsgDEL, delKey = coerce (delKey dm) \<rparr>
   \<and> (coerce (delKey dm) = delKey dm \<longleftrightarrow> validString (delKey dm))"
  using delM.transported [of dm dm0] by (cases dm) (simp add: coerce_id_iff)

end
