(* ===== verification/Connection.thy ===== *)
theory Connection
  imports Messages GoTime
begin

text \<open>
  A connection to a peer, \<^verbatim>\<open>comms/connection.go\<close>, with the part of \<^verbatim>\<open>bufio.Reader\<close> and
  \<^verbatim>\<open>io.ReadFull\<close> it uses.  What the network will deliver is the list \<open>incoming\<close>: pieces of
  the byte stream as the operating system hands them over, and failures.  What the operating
  system accepts of a write is an argument.  Reading when nothing more will ever arrive
  blocks.
\<close>

section \<open>State\<close>

datatype netError = EOF | UnexpectedEOF | Unusable | NetErr gostring

definition errTimeout :: netError where
  "errTimeout = NetErr (lit ''i/o timeout'')"

datatype arrival = Bytes "byte list" | Fault netError

text \<open>\<open>buffered\<close> is what the buffered reader holds; it is nil (\<open>None\<close>) after a shutdown.\<close>

record Connection =
  Remote :: gostring
  Uid :: gostring
  incoming :: "arrival list"
  outgoing :: "byte list"
  buffReader :: "byte list option"
  readTimeout :: duration
  isUsable :: bool

definition WrapConnection :: "gostring \<Rightarrow> gostring \<Rightarrow> arrival list \<Rightarrow> Connection" where
  "WrapConnection local remote arrivals =
     \<lparr> Remote = remote, Uid = local, incoming = arrivals, outgoing = [], buffReader = Some [],
       readTimeout = 0, isUsable = True \<rparr>"

text \<open>\<open>dial\<close> is what \<^verbatim>\<open>net.DialTimeout\<close> returns: an error or the local address.\<close>

definition NewConnection :: "gostring \<Rightarrow> netError + gostring \<Rightarrow> arrival list \<Rightarrow> netError + Connection" where
  "NewConnection endpoint dial arrivals =
     (case dial of Inl err \<Rightarrow> Inl err | Inr local \<Rightarrow> Inr (WrapConnection local endpoint arrivals))"

definition SetReadTimeout :: "duration \<Rightarrow> Connection \<Rightarrow> Connection" where
  "SetReadTimeout timeout c = c\<lparr> readTimeout := timeout \<rparr>"

section \<open>Reading\<close>

text \<open>One read of the socket into a buffer of \<open>n\<close> bytes; an end of file stays.\<close>

definition sockRead :: "nat \<Rightarrow> Connection \<Rightarrow> ((byte list \<times> netError option) \<times> Connection) outcome" where
  "sockRead n c =
     (case incoming c of
        [] \<Rightarrow> Blocked
      | Bytes bs # r \<Rightarrow>
          Ret ((take n bs, None), c\<lparr> incoming := (if length bs \<le> n then r else Bytes (drop n bs) # r) \<rparr>)
      | Fault e # r \<Rightarrow> Ret (([], Some e), c\<lparr> incoming := (if e = EOF then Fault e # r else r) \<rparr>))"

definition contains :: "gostring \<Rightarrow> gostring \<Rightarrow> bool" where
  "contains sub s \<longleftrightarrow> list_ex (\<lambda>i. take (length sub) (drop i s) = sub) [0..<Suc (length s)]"

definition readError :: "netError \<Rightarrow> netError" where
  "readError err =
     (case err of
        NetErr m \<Rightarrow> if contains (lit ''timeout'') m then errTimeout else err
      | _ \<Rightarrow> err)"

definition conn_Read :: "nat \<Rightarrow> Connection \<Rightarrow> ((byte list \<times> netError option) \<times> Connection) outcome" where
  "conn_Read n c =
     (if \<not> isUsable c then Ret (([], Some Unusable), c)
      else obind (sockRead n c) (\<lambda>((bs, err), c).
        Ret ((bs, map_option readError err), if err = Some EOF then c\<lparr> isUsable := False \<rparr> else c)))"

definition bufSize :: nat where "bufSize = 4096"

text \<open>\<^verbatim>\<open>bufio.Reader.Read\<close> into a buffer of \<open>n > 0\<close> bytes.\<close>

definition bufRead :: "nat \<Rightarrow> Connection \<Rightarrow> ((byte list \<times> netError option) \<times> Connection) outcome" where
  "bufRead n c =
     (case buffReader c of
        None \<Rightarrow> Panic
      | Some buf \<Rightarrow>
          if buf \<noteq> [] then Ret ((take n buf, None), c\<lparr> buffReader := Some (drop n buf) \<rparr>)
          else if bufSize \<le> n then conn_Read n c
          else obind (conn_Read bufSize c) (\<lambda>((bs, err), c).
            if bs = [] then Ret (([], err), c)
            else Ret ((take n bs, None), c\<lparr> buffReader := Some (drop n bs) \<rparr>)))"

definition same_peer :: "Connection \<Rightarrow> Connection \<Rightarrow> bool" where
  "same_peer c c' \<longleftrightarrow> Remote c' = Remote c \<and> Uid c' = Uid c \<and> outgoing c' = outgoing c \<and> readTimeout c' = readTimeout c"

lemma sockRead_progress:
  assumes "sockRead n c = Ret ((bs, None), c')"
  shows "length bs \<le> n" "bs = [] \<and> 0 < n \<Longrightarrow> length (incoming c') < length (incoming c)"
    "length (incoming c') \<le> length (incoming c)" "buffReader c' = buffReader c"
  using assms by (auto simp: sockRead_def split: list.splits arrival.splits if_splits)

lemma conn_Read_ok:
  assumes "conn_Read n c = Ret ((bs, None), c')"
  shows "isUsable c" "sockRead n c = Ret ((bs, None), c')"
proof -
  show u: "isUsable c" using assms by (simp add: conn_Read_def split: if_splits)
  obtain as err d where s: "sockRead n c = Ret ((as, err), d)"
    using assms u by (cases "sockRead n c") (auto simp: conn_Read_def)
  with assms u show "sockRead n c = Ret ((bs, None), c')" by (cases err) (simp_all add: conn_Read_def)
qed

lemma conn_Read_shrinks:
  assumes "conn_Read n c = Ret ((bs, err), c')"
  shows "length (incoming c') \<le> length (incoming c)"
proof (cases "isUsable c")
  case True
  then obtain as err' d where "sockRead n c = Ret ((as, err'), d)" "incoming c' = incoming d"
    using assms by (cases "sockRead n c") (auto simp: conn_Read_def split: if_splits)
  then show ?thesis by (auto simp: sockRead_def split: list.splits arrival.splits if_splits)
qed (use assms in \<open>auto simp: conn_Read_def\<close>)

lemma bufRead_progress:
  assumes "bufRead n c = Ret ((bs, None), c')" and "0 < n"
  shows "length bs \<le> n" "length (incoming c') \<le> length (incoming c)"
    "bs = [] \<Longrightarrow> length (incoming c') < length (incoming c)"
proof -
  from assms(1) obtain buf where b: "buffReader c = Some buf" by (auto simp: bufRead_def split: option.splits)
  consider (buf) "buf \<noteq> []" | (direct) "buf = []" "bufSize \<le> n" | (fill) "buf = []" "n < bufSize" by linarith
  then have "length bs \<le> n \<and> length (incoming c') \<le> length (incoming c) \<and>
    (bs = [] \<longrightarrow> length (incoming c') < length (incoming c))"
  proof cases
    case buf
    then show ?thesis using assms b by (auto simp: bufRead_def)
  next
    case direct
    then have "conn_Read n c = Ret ((bs, None), c')" using assms(1) b by (simp add: bufRead_def)
    from sockRead_progress [OF conn_Read_ok(2) [OF this]] assms(2) show ?thesis by auto
  next
    case fill
    then obtain as err d where r: "conn_Read bufSize c = Ret ((as, err), d)"
      and e: "(if as = [] then Ret (([], err), d) else Ret ((take n as, None), d\<lparr> buffReader := Some (drop n as) \<rparr>))
        = Ret ((bs, None), c')"
      using assms(1) b by (auto simp: bufRead_def obind_eq_Ret)
    show ?thesis
    proof (cases "as = []")
      case True
      with e r have "conn_Read bufSize c = Ret (([], None), c')" "bs = []" by auto
      from sockRead_progress [OF conn_Read_ok(2) [OF this(1)]] this(2) show ?thesis
        by (simp add: bufSize_def)
    next
      case False
      then show ?thesis using e conn_Read_shrinks [OF r] assms(2) by auto
    qed
  qed
  then show "length bs \<le> n" "length (incoming c') \<le> length (incoming c)"
    "bs = [] \<Longrightarrow> length (incoming c') < length (incoming c)" by blast+
qed

text \<open>\<^verbatim>\<open>io.ReadFull\<close>: \<open>acc\<close> has been read, \<open>want\<close> bytes are missing.\<close>

function readFull :: "nat \<Rightarrow> byte list \<Rightarrow> Connection \<Rightarrow> ((byte list \<times> netError option) \<times> Connection) outcome" where
  "readFull want acc c =
     (if want = 0 then Ret ((acc, None), c)
      else case bufRead want c of
          Blocked \<Rightarrow> Blocked
        | Panic \<Rightarrow> Panic
        | Ret ((bs, None), c') \<Rightarrow> readFull (want - length bs) (acc @ bs) c'
        | Ret ((bs, Some e), c') \<Rightarrow>
            Ret ((acc @ bs, if want \<le> length bs then None
                            else Some (if acc @ bs \<noteq> [] \<and> e = EOF then UnexpectedEOF else e)), c'))"
  by pat_completeness auto
termination
proof (relation "measure (\<lambda>(want, acc, c). want + length (incoming c))", goal_cases)
  case (2 want acc c x p c' bs)
  then have "bufRead want c = Ret ((bs, None), c')" by simp
  from bufRead_progress [OF this] 2(1) show ?case by (cases bs) auto
qed simp

declare readFull.simps [simp del]

text \<open>
  \<^verbatim>\<open>ReadData\<close>.  With a timeout the read runs in a goroutine of its own, and \<open>late\<close> says
  that the timer fires first; the goroutine then goes on reading and finally sends on a
  channel that \<^verbatim>\<open>ReadData\<close> has closed (\<open>abandonedRead\<close>).
\<close>

definition readInto :: "nat \<Rightarrow> Connection \<Rightarrow> ((byte list \<times> netError option) \<times> Connection) outcome" where
  "readInto sz c =
     obind (readFull sz [] c) (\<lambda>((bs, err), c). Ret ((bs @ replicate (sz - length bs) 0, err), c))"

definition ReadData :: "nat \<Rightarrow> duration \<Rightarrow> bool \<Rightarrow> Connection \<Rightarrow> ((byte list \<times> netError option) \<times> Connection) outcome" where
  "ReadData sz timeout late c =
     (let tmp = readTimeout c; c = SetReadTimeout timeout c in
      if timeout \<noteq> 0 \<and> late then Ret (([], Some errTimeout), SetReadTimeout tmp c)
      else obind (readInto sz c) (\<lambda>(r, c). Ret (r, SetReadTimeout tmp c)))"

definition abandonedRead :: "nat \<Rightarrow> Connection \<Rightarrow> Connection outcome" where
  "abandonedRead sz c = obind (readInto sz c) (\<lambda>_. Panic)"

definition Shutdown :: "Connection \<Rightarrow> Connection" where
  "Shutdown c = c\<lparr> buffReader := None, isUsable := False \<rparr>"

definition conn_Close :: "Connection \<Rightarrow> Connection" where
  "conn_Close c = Shutdown c"

section \<open>Writing\<close>

text \<open>
  Each element of \<open>writes\<close> is the result of one write to the socket: how many bytes it took
  and whether it failed.  The loop goes on until everything is written.
\<close>

fun writeLoop :: "(nat \<times> netError option) list \<Rightarrow> nat \<Rightarrow> byte list \<Rightarrow> Connection \<Rightarrow> ((nat \<times> netError option) \<times> Connection) outcome" where
  "writeLoop [] count data c = (if count < length data then Blocked else Ret ((count, None), c))"
| "writeLoop ((n, err) # ws) count data c =
     (if count < length data then
        (let c = c\<lparr> outgoing := outgoing c @ take n (drop count data) \<rparr> in
         case err of
           None \<Rightarrow> writeLoop ws (count + min n (length data - count)) data c
         | Some e \<Rightarrow> Ret ((count, Some e), if e = EOF then c\<lparr> isUsable := False \<rparr> else c))
      else Ret ((count, None), c))"

definition conn_Write :: "(nat \<times> netError option) list \<Rightarrow> byte list \<Rightarrow> Connection \<Rightarrow> ((nat \<times> netError option) \<times> Connection) outcome" where
  "conn_Write ws data c =
     (if \<not> isUsable c then Ret ((0, Some Unusable), c) else writeLoop ws 0 data c)"

definition SendData :: "(nat \<times> netError option) list \<Rightarrow> byte list \<Rightarrow> Connection \<Rightarrow> (netError option \<times> Connection) outcome" where
  "SendData ws data c =
     (if \<not> isUsable c then Ret (Some Unusable, c)
      else obind (writeLoop ws 0 data c) (\<lambda>((_, err), c). Ret (err, c)))"

section \<open>The byte stream\<close>

text \<open>The bytes still to be delivered before the first failure, and that failure.\<close>

fun arriving :: "arrival list \<Rightarrow> byte list" where
  "arriving [] = []"
| "arriving (Bytes bs # r) = bs @ arriving r"
| "arriving (Fault e # r) = []"

fun firstFault :: "arrival list \<Rightarrow> netError option" where
  "firstFault [] = None"
| "firstFault (Bytes bs # r) = firstFault r"
| "firstFault (Fault e # r) = Some e"

definition pending :: "Connection \<Rightarrow> byte list" where
  "pending c = (case buffReader c of None \<Rightarrow> [] | Some b \<Rightarrow> b) @ arriving (incoming c)"

definition conn_ok :: "Connection \<Rightarrow> bool" where
  "conn_ok c \<longleftrightarrow> isUsable c \<and> buffReader c \<noteq> None"

definition reads :: "byte list \<Rightarrow> Connection \<Rightarrow> Connection \<Rightarrow> bool" where
  "reads bs c c' \<longleftrightarrow> pending c = bs @ pending c' \<and> conn_ok c' \<and> same_peer c c' \<and>
     firstFault (incoming c') = firstFault (incoming c)"

lemma reads_trans: "reads as a b \<Longrightarrow> reads bs b c \<Longrightarrow> reads (as @ bs) a c"
  by (simp add: reads_def same_peer_def)

lemma sockRead_cases:
  assumes "conn_ok c" and "buffReader c = Some []"
  obtains (data) bs c' where "sockRead n c = Ret ((bs, None), c')" "reads bs c c'" "length bs \<le> n" "buffReader c' = Some []"
    | (block) "sockRead n c = Blocked" "pending c = []" "firstFault (incoming c) = None"
    | (fault) e c' where "sockRead n c = Ret (([], Some e), c')" "pending c = []" "firstFault (incoming c) = Some e"
proof (cases "incoming c")
  case Nil
  then show ?thesis using assms by (intro block) (simp_all add: sockRead_def pending_def)
next
  case (Cons x r)
  show ?thesis
  proof (cases x)
    case (Bytes bs)
    then show ?thesis using assms Cons
      by (intro data [of "take n bs" "c\<lparr> incoming := (if length bs \<le> n then r else Bytes (drop n bs) # r) \<rparr>"])
         (auto simp: sockRead_def reads_def pending_def conn_ok_def same_peer_def)
  next
    case (Fault e)
    then show ?thesis using assms Cons by (intro fault [of e]) (auto simp: sockRead_def pending_def)
  qed
qed

lemma bufRead_cases:
  assumes "conn_ok c" and "0 < n"
  obtains (data) bs c' where "bufRead n c = Ret ((bs, None), c')" "reads bs c c'"
    | (block) "bufRead n c = Blocked" "pending c = []" "firstFault (incoming c) = None"
    | (fault) e c' where "bufRead n c = Ret (([], Some (readError e)), c')" "pending c = []" "firstFault (incoming c) = Some e"
proof -
  obtain buf where b: "buffReader c = Some buf" using assms(1) by (auto simp: conn_ok_def)
  have u: "isUsable c" using assms(1) by (simp add: conn_ok_def)
  consider (buf) "buf \<noteq> []" | (direct) "buf = []" "bufSize \<le> n" | (fill) "buf = []" "n < bufSize" by linarith
  then show ?thesis
  proof cases
    case buf
    then show ?thesis using b assms(1)
      by (intro data [of "take n buf" "c\<lparr> buffReader := Some (drop n buf) \<rparr>"])
         (auto simp: bufRead_def reads_def pending_def conn_ok_def same_peer_def)
  next
    case direct
    with b assms(1) have e: "bufRead n c = conn_Read n c" "buffReader c = Some []" by (simp_all add: bufRead_def)
    from assms(1) e(2) show ?thesis
    proof (cases rule: sockRead_cases [of c n])
      case (data bs c')
      then show ?thesis using that(1) e(1) u by (simp add: conn_Read_def)
    next
      case block
      then show ?thesis using that(2) e(1) u by (simp add: conn_Read_def)
    next
      case (fault e' c')
      then show ?thesis using that(3) e(1) u by (simp add: conn_Read_def)
    qed
  next
    case fill
    with b have e: "buffReader c = Some []" by simp
    from assms(1) e show ?thesis
    proof (cases rule: sockRead_cases [of c bufSize])
      case (data bs c')
      have r: "reads (take n bs) c (c'\<lparr> buffReader := Some (drop n bs) \<rparr>)"
        using data(2,4) by (auto simp: reads_def pending_def conn_ok_def same_peer_def)
      show ?thesis
      proof (cases "bs = []")
        case True
        then show ?thesis using data fill e u that(1) [of "[]" c'] by (simp add: bufRead_def conn_Read_def)
      next
        case False
        then show ?thesis using data(1) fill e u that(1) [OF _ r] by (simp add: bufRead_def conn_Read_def)
      qed
    next
      case block
      then show ?thesis using that(2) fill e u by (simp add: bufRead_def conn_Read_def)
    next
      case (fault e' c')
      then show ?thesis using that(3) fill e u by (simp add: bufRead_def conn_Read_def)
    qed
  qed
qed

lemma readFull_enough:
  assumes "conn_ok c" and "want \<le> length (pending c)"
  shows "\<exists>c'. readFull want acc c = Ret ((acc @ take want (pending c), None), c') \<and> reads (take want (pending c)) c c'"
  using assms
proof (induction want acc c rule: readFull.induct)
  case (1 want acc c)
  show ?case
  proof (cases "want = 0")
    case True
    then show ?thesis using "1.prems"(1) by (simp add: readFull.simps reads_def same_peer_def)
  next
    case False
    with "1.prems"(1) have "conn_ok c" "0 < want" by auto
    then show ?thesis
    proof (cases rule: bufRead_cases)
      case (data bs c1)
      have n: "length bs \<le> want" by (rule bufRead_progress(1) [OF data(1)]) (use False in simp)
      have p: "pending c = bs @ pending c1" "conn_ok c1" using data(2) by (simp_all add: reads_def)
      have "\<exists>c'. readFull (want - length bs) (acc @ bs) c1 =
          Ret (((acc @ bs) @ take (want - length bs) (pending c1), None), c') \<and>
          reads (take (want - length bs) (pending c1)) c1 c'"
        using False data(1) p "1.prems"(2) n by (intro "1.IH") auto
      moreover have "readFull want acc c = readFull (want - length bs) (acc @ bs) c1"
        using False data(1) by (subst readFull.simps) simp
      moreover have "take want (pending c) = bs @ take (want - length bs) (pending c1)"
        using n p(1) by simp
      ultimately show ?thesis using reads_trans [OF data(2)] by auto
    qed (use "1.prems"(2) False in auto)
  qed
qed

lemma readFull_short:
  assumes "conn_ok c" and "length (pending c) < want"
  shows "case firstFault (incoming c) of
      None \<Rightarrow> readFull want acc c = Blocked
    | Some e \<Rightarrow> \<exists>c' e'. readFull want acc c = Ret ((acc @ pending c, Some e'), c')"
  using assms
proof (induction want acc c rule: readFull.induct)
  case (1 want acc c)
  then have "conn_ok c" "0 < want" by auto
  then show ?case
  proof (cases rule: bufRead_cases)
    case (data bs c1)
    have n: "length bs \<le> want" by (rule bufRead_progress(1) [OF data(1)]) (use \<open>0 < want\<close> in simp)
    have p: "pending c = bs @ pending c1" "conn_ok c1" "firstFault (incoming c1) = firstFault (incoming c)"
      using data(2) by (simp_all add: reads_def)
    have "case firstFault (incoming c1) of
        None \<Rightarrow> readFull (want - length bs) (acc @ bs) c1 = Blocked
      | Some e \<Rightarrow> \<exists>c' e'. readFull (want - length bs) (acc @ bs) c1 = Ret (((acc @ bs) @ pending c1, Some e'), c')"
      using \<open>0 < want\<close> data(1) p "1.prems"(2) by (intro "1.IH") auto
    moreover have "readFull want acc c = readFull (want - length bs) (acc @ bs) c1"
      using \<open>0 < want\<close> data(1) by (subst readFull.simps) simp
    ultimately show ?thesis using p by (simp split: option.splits)
  next
    case block
    then show ?thesis using \<open>0 < want\<close> by (simp add: readFull.simps)
  next
    case (fault e c')
    then show ?thesis using \<open>0 < want\<close> by (simp add: readFull.simps)
  qed
qed

lemma same_peer_timeout: "conn_ok (SetReadTimeout t c) = conn_ok c" "pending (SetReadTimeout t c) = pending c"
    "incoming (SetReadTimeout t c) = incoming c"
  by (simp_all add: SetReadTimeout_def conn_ok_def pending_def)

lemma reads_timeout:
  "reads bs (SetReadTimeout t c) c' \<Longrightarrow> reads bs c (SetReadTimeout (readTimeout c) c')"
  by (auto simp: reads_def same_peer_def SetReadTimeout_def pending_def conn_ok_def)

lemma ReadData_enough:
  assumes "conn_ok c" and "n \<le> length (pending c)" and "timeout = 0 \<or> \<not> late"
  shows "\<exists>c'. ReadData n timeout late c = Ret ((take n (pending c), None), c') \<and> reads (take n (pending c)) c c'"
proof -
  obtain c' where "readFull n [] (SetReadTimeout timeout c) = Ret ((take n (pending c), None), c')"
    "reads (take n (pending c)) (SetReadTimeout timeout c) c'"
    using readFull_enough [of "SetReadTimeout timeout c" n "[]"] assms by (auto simp: same_peer_timeout)
  then show ?thesis using assms(2,3) reads_timeout by (auto simp: ReadData_def readInto_def Let_def)
qed

lemma ReadData_short:
  assumes "conn_ok c" and "length (pending c) < n" and "timeout = 0 \<or> \<not> late"
  shows "case firstFault (incoming c) of
      None \<Rightarrow> ReadData n timeout late c = Blocked
    | Some e \<Rightarrow> \<exists>bs e' c'. ReadData n timeout late c = Ret ((bs, Some e'), c')"
  using readFull_short [of "SetReadTimeout timeout c" n "[]"] assms
  by (auto simp: same_peer_timeout ReadData_def readInto_def Let_def split: option.splits)

text \<open>Writing: whatever the pieces, the bytes leave in order, and all of them on success.\<close>

lemma writeLoop_sound:
  assumes "writeLoop ws count data c = Ret ((n, err), c')" and "count \<le> length data"
  shows "\<exists>sent. outgoing c' = outgoing c @ take sent (drop count data) \<and> (err = None \<longrightarrow> n = length data \<and> sent = length data - count)"
  using assms
proof (induction ws count data c rule: writeLoop.induct)
  case (1 count data c)
  then show ?case by (auto split: if_splits intro!: exI [of _ 0])
next
  case (2 k e ws count data c)
  show ?case
  proof (cases "count < length data")
    case False
    with 2 show ?thesis by (auto intro!: exI [of _ 0])
  next
    case True
    let ?c = "c\<lparr> outgoing := outgoing c @ take k (drop count data) \<rparr>"
    show ?thesis
    proof (cases e)
      case None
      let ?m = "min k (length data - count)"
      have "writeLoop ws (count + ?m) data ?c = Ret ((n, err), c')" "count + ?m \<le> length data"
        using "2.prems"(1) True None by simp_all
      from "2.IH" [OF True refl None this]
      obtain sent where s: "outgoing c' = outgoing ?c @ take sent (drop (count + ?m) data)"
        "err = None \<longrightarrow> n = length data \<and> sent = length data - (count + ?m)" by blast
      have "take k (drop count data) = take ?m (drop count data)" by (simp add: min_def)
      then have "outgoing c' = outgoing c @ take (?m + sent) (drop count data)"
        using s(1) by (simp add: take_add add.commute [of ?m count])
      moreover have "err = None \<longrightarrow> n = length data \<and> ?m + sent = length data - count" using s(2) True by auto
      ultimately show ?thesis by blast
    next
      case (Some e')
      then show ?thesis using "2.prems"(1) True by (auto simp: Let_def split: if_splits)
    qed
  qed
qed

section \<open>The contract of a byte source\<close>

text \<open>
  What the network consumer relies on: a read of \<open>n\<close> bytes returns the next \<open>n\<close> bytes of the
  stream and leaves the others, whatever the pieces they arrived in; it blocks or fails when
  the stream has fewer.
\<close>

locale byte_source =
  fixes stream :: "'c \<Rightarrow> byte list"
    and open_src :: "'c \<Rightarrow> bool"
    and broken :: "'c \<Rightarrow> bool"
    and rd :: "nat \<Rightarrow> 'c \<Rightarrow> ((byte list \<times> 'e option) \<times> 'c) outcome"
  assumes rd_enough: "open_src c \<Longrightarrow> n \<le> length (stream c) \<Longrightarrow>
      \<exists>c'. rd n c = Ret ((take n (stream c), None), c') \<and> stream c' = drop n (stream c) \<and> open_src c' \<and> broken c' = broken c"
    and rd_short: "open_src c \<Longrightarrow> length (stream c) < n \<Longrightarrow>
      (if broken c then \<exists>bs e c'. rd n c = Ret ((bs, Some e), c') else rd n c = Blocked)"
begin

lemma rd_prefix:
  assumes "open_src c" and "stream c = xs @ ys" and "length xs = n"
  obtains c' where "rd n c = Ret ((xs, None), c')" "stream c' = ys" "open_src c'" "broken c' = broken c"
  using rd_enough [OF assms(1), of n] assms by auto

end

definition conn_broken :: "Connection \<Rightarrow> bool" where
  "conn_broken c \<longleftrightarrow> firstFault (incoming c) \<noteq> None"

interpretation conn_src: byte_source pending conn_ok conn_broken "\<lambda>n. ReadData n 0 late" for late
proof
  fix c n
  assume "conn_ok c" "n \<le> length (pending c)"
  from ReadData_enough [OF this, of 0 late] obtain c' where
    c': "ReadData n 0 late c = Ret ((take n (pending c), None), c')" "reads (take n (pending c)) c c'" by auto
  then have "pending c' = drop n (pending c)" by (metis reads_def take_append_eq_iff)
  with c' show "\<exists>c'. ReadData n 0 late c = Ret ((take n (pending c), None), c')
      \<and> pending c' = drop n (pending c) \<and> conn_ok c' \<and> conn_broken c' = conn_broken c"
    by (auto simp: reads_def conn_broken_def)
next
  fix c n
  assume "conn_ok c" "length (pending c) < n"
  from ReadData_short [OF this, of 0 late] show "if conn_broken c
      then \<exists>bs e c'. ReadData n 0 late c = Ret ((bs, Some e), c') else ReadData n 0 late c = Blocked"
    by (auto simp: conn_broken_def split: option.splits)
qed

section \<open>Properties\<close>

text \<open>
  C31. Reading \<open>n\<close> bytes from a connection in use depends only on the byte stream, not on the
  pieces the network delivers it in: with at least \<open>n\<close> bytes before the first failure it
  returns exactly the next \<open>n\<close> bytes and leaves the rest for later reads; with fewer it
  waits for ever, or fails when the failure comes.
\<close>

theorem read_ignores_pieces:
  assumes "conn_ok c" and "conn_ok d" and "pending c = pending d" and "conn_broken c = conn_broken d"
  shows "if n \<le> length (pending c) then
      \<exists>c' d'. ReadData n 0 late c = Ret ((take n (pending c), None), c') \<and>
              ReadData n 0 late d = Ret ((take n (pending c), None), d') \<and>
              pending c' = drop n (pending c) \<and> pending d' = drop n (pending c) \<and> conn_ok c' \<and> conn_ok d'
    else if conn_broken c then
      \<exists>bs e c' bs' e' d'. ReadData n 0 late c = Ret ((bs, Some e), c') \<and> ReadData n 0 late d = Ret ((bs', Some e'), d')
    else ReadData n 0 late c = Blocked \<and> ReadData n 0 late d = Blocked"
  using conn_src.rd_enough [OF assms(1), of n late] conn_src.rd_enough [OF assms(2), of n late]
    conn_src.rd_short [OF assms(1), of n late] conn_src.rd_short [OF assms(2), of n late] assms(3,4)
  by (auto simp: not_le)

definition onePiece :: Connection where
  "onePiece = WrapConnection [] [] [Bytes [1, 2, 3, 4], Fault EOF]"

definition threePieces :: Connection where
  "threePieces = WrapConnection [] [] [Bytes [1], Bytes [2, 3], Bytes [4], Fault (NetErr [])]"

theorem read_ignores_pieces_witness:
  "(\<exists>c' d'. ReadData 3 0 False onePiece = Ret (([1, 2, 3], None), c') \<and> ReadData 3 0 False threePieces = Ret (([1, 2, 3], None), d')
     \<and> pending c' = [4] \<and> pending d' = [4] \<and> conn_ok c' \<and> conn_ok d')
   \<and> (\<exists>bs e c' bs' e' d'. ReadData 5 0 False onePiece = Ret ((bs, Some e), c') \<and> ReadData 5 0 False threePieces = Ret ((bs', Some e'), d'))"
proof -
  have f: "conn_ok onePiece" "conn_ok threePieces" "pending onePiece = [1, 2, 3, 4]"
    "pending onePiece = pending threePieces" "conn_broken onePiece = conn_broken threePieces" "conn_broken onePiece"
    by (simp_all add: onePiece_def threePieces_def WrapConnection_def conn_ok_def pending_def conn_broken_def)
  show ?thesis
    using read_ignores_pieces [OF f(1,2,4,5), of 3 False] read_ignores_pieces [OF f(1,2,4,5), of 5 False] f(3,6)
    by simp
qed

text \<open>
  Sending is in order and, when it reports success, complete: what a connection has sent
  grows by a prefix of the data whatever the socket takes at a time, and by all of it when no
  error is returned.
\<close>

lemma send_is_complete_prefix:
  assumes "SendData ws data c = Ret (err, c')"
  shows "\<exists>sent. outgoing c' = outgoing c @ take sent data \<and> (err = None \<longrightarrow> sent = length data)"
proof (cases "isUsable c")
  case True
  then obtain n where "writeLoop ws 0 data c = Ret ((n, err), c')" using assms by (auto simp: SendData_def obind_eq_Ret)
  from writeLoop_sound [OF this] show ?thesis by auto
next
  case False
  then show ?thesis using assms by (auto simp: SendData_def intro!: exI [of _ 0])
qed

end
