(* ===== verification/RemoteNode.thy ===== *)
theory RemoteNode
  imports Channels Connection CacheConfig "HOL-Library.Multiset"
begin

text \<open>
  What a remote node does on its own (\<^verbatim>\<open>Cluster/remoteNode.go\<close>): its configuration and
  state, framing messages for the network and reading them back, the queues between its
  goroutines, and the ping timers.  The handlers that reach into the local node are in
  \<open>ClusterNode\<close>.

  A step of a goroutine is one function; it is atomic, and a step that would wait is
  \<open>Blocked\<close>, that is, not enabled.
\<close>

section \<open>State\<close>

datatype remoteNodeState = nodeStateConnecting | nodeStateConnected | nodeStateDisconnected | nodeStateHandshake

record nodeMetrics =
  pingSent :: u64
  pingRecieved :: u64
  pongSent :: u64
  pongRecieved :: u64
  dropedMsg :: u64

record remoteNodeConfig =
  rcId :: gostring
  rcIpAddress :: gostring
  rcPingFailureThreshHold :: "32 word"
  rcPingInterval :: goint
  rcPingTimeout :: goint
  rcConnectRetries :: goint
  rcServicePort :: gostring
  rcSync :: bool
  rcReconnectOnDisconnect :: bool

text \<open>
  \<open>doneClosed\<close> is the channel \<^verbatim>\<open>done\<close>; \<open>stopping\<close> says that the actor waiting on it was
  told to end.  \<open>pickSend\<close> resolves the next select with several ready cases.  Pending
  get requests are numbers of requests of the local node; nil is \<open>None\<close>.
\<close>

record remoteNode =
  rconfig :: remoteNodeConfig
  rmetrics :: nodeMetrics
  rconnection :: "Connection option"
  inboundMsgQueue :: "NodeWireMessage chan"
  outboundMsgQueue :: "NodeMessage chan"
  rstate :: remoteNodeState
  doneClosed :: bool
  stopping :: bool
  pingTimer :: "timer option"
  pingTimeout :: "timer option"
  pingFailure :: "32 word"
  pendingGet :: "(gostring \<times> nat) list option"
  rmode :: byte
  pickSend :: bool

definition CHAN_SIZE :: nat where "CHAN_SIZE = 65536"

definition checkConfig :: "remoteNodeConfig \<Rightarrow> remoteNodeConfig" where
  "checkConfig c =
     (let c = (if sint (rcPingInterval c) < 1 then c\<lparr> rcPingInterval := 5 \<rparr> else c);
          c = (if sint (rcPingTimeout c) < 1 then c\<lparr> rcPingTimeout := 3 \<rparr> else c)
      in if rcPingFailureThreshHold c = 0 then c\<lparr> rcPingFailureThreshHold := 5 \<rparr> else c)"

definition newRemoteNode :: "remoteNodeConfig \<Rightarrow> remoteNode" where
  "newRemoteNode c =
     \<lparr> rconfig = checkConfig c,
       rmetrics = \<lparr> pingSent = 0, pingRecieved = 0, pongSent = 0, pongRecieved = 0, dropedMsg = 0 \<rparr>,
       rconnection = None, inboundMsgQueue = makeChan CHAN_SIZE, outboundMsgQueue = makeChan CHAN_SIZE,
       rstate = nodeStateDisconnected, doneClosed = False, stopping = False,
       pingTimer = None, pingTimeout = None, pingFailure = 0, pendingGet = Some [], rmode = 0, pickSend = True \<rparr>"

definition setState :: "remoteNodeState \<Rightarrow> remoteNode \<Rightarrow> remoteNode" where
  "setState st r = r\<lparr> rstate := st \<rparr>"

definition setConnection :: "Connection \<Rightarrow> remoteNode \<Rightarrow> remoteNode" where
  "setConnection conn r = r\<lparr> rconnection := Some conn \<rparr>"

text \<open>
  \<^verbatim>\<open>shutDown\<close>: a non-blocking send to the actor that waits on \<^verbatim>\<open>done\<close>; after the channel is
  closed the send panics and is recovered.
\<close>

definition rn_shutDown :: "remoteNode \<Rightarrow> remoteNode" where
  "rn_shutDown r = (if doneClosed r then r else r\<lparr> stopping := True \<rparr>)"

text \<open>\<^verbatim>\<open>connect\<close>: \<open>dial\<close> is the answer of the network, \<open>arrivals\<close> what it will deliver.\<close>

definition rn_connect :: "netError + gostring \<Rightarrow> arrival list \<Rightarrow> remoteNode \<Rightarrow> netError option \<times> remoteNode" where
  "rn_connect dial arrivals r =
     (case NewConnection (rcIpAddress (rconfig r)) dial arrivals of
        Inl err \<Rightarrow> (Some err, r\<lparr> rconnection := None \<rparr>)
      | Inr conn \<Rightarrow> (None, setState nodeStateHandshake (r\<lparr> rconnection := Some conn \<rparr>)))"

section \<open>Queues\<close>

definition sendMessage :: "NodeMessage \<Rightarrow> remoteNode \<Rightarrow> remoteNode outcome" where
  "sendMessage msg r =
     (if rstate r = nodeStateDisconnected then Ret r
      else obind (selectSend (doneClosed r) (pickSend r) msg (outboundMsgQueue r)) (\<lambda>ch.
        Ret (r\<lparr> outboundMsgQueue := ch \<rparr>)))"

definition queueInboundMessage :: "NodeWireMessage \<Rightarrow> remoteNode \<Rightarrow> remoteNode outcome" where
  "queueInboundMessage msg r =
     (if rstate r = nodeStateHandshake \<and> wireCode msg \<noteq> MsgVERIFY \<and> wireCode msg \<noteq> MsgVERIFYOK
      then Ret (r\<lparr> rmetrics := (rmetrics r)\<lparr> dropedMsg := dropedMsg (rmetrics r) + 1 \<rparr> \<rparr>)
      else if rstate r \<noteq> nodeStateDisconnected
      then obind (selectSend (doneClosed r) (pickSend r) msg (inboundMsgQueue r)) (\<lambda>ch.
             Ret (r\<lparr> inboundMsgQueue := ch \<rparr>))
      else Ret r)"

section \<open>The network\<close>

text \<open>The bytes of a message on the network.\<close>

definition frameBytes :: "NodeWireMessage \<Rightarrow> byte list outcome" where
  "frameBytes msg =
     (let data = replicate (6 + length (wireData msg)) 0 in
      obind (of_opt (PutUint32 data 0 (of_nat (length (wireData msg) + 2)))) (\<lambda>data.
      obind (of_opt (PutUint16 data 4 (wireCode msg))) (\<lambda>data.
        Ret (fst (goCopy data 6 (wireData msg))))))"

text \<open>
  One round of \<^verbatim>\<open>networkSender\<close>; \<open>writes\<close> is what the socket accepts.  The result says
  whether the loop goes on.
\<close>

definition networkSender :: "(nat \<times> netError option) list \<Rightarrow> remoteNode \<Rightarrow> (bool \<times> remoteNode) outcome" where
  "networkSender writes r =
     obind (chanRecv (outboundMsgQueue r)) (\<lambda>(m, ch).
       let r = r\<lparr> outboundMsgQueue := ch \<rparr> in
       case m of
         None \<Rightarrow> Ret (False, r)
       | Some m \<Rightarrow>
           if rstate r = nodeStateDisconnected then Ret (True, r)
           else obind (Serialize m) (\<lambda>msg.
                obind (frameBytes msg) (\<lambda>data.
                  case rconnection r of
                    None \<Rightarrow> Panic
                  | Some conn \<Rightarrow>
                      obind (SendData writes data conn) (\<lambda>(err, conn).
                        Ret (err = None, r\<lparr> rconnection := Some conn \<rparr>)))))"

text \<open>One round of \<^verbatim>\<open>networkConsumer\<close>.\<close>

definition networkConsumer :: "remoteNode \<Rightarrow> (bool \<times> remoteNode) outcome" where
  "networkConsumer r =
     (if rstate r \<noteq> nodeStateConnected \<and> rstate r \<noteq> nodeStateHandshake then Ret (False, r)
      else case rconnection r of
          None \<Rightarrow> Panic
        | Some conn \<Rightarrow>
            obind (ReadData 6 0 False conn) (\<lambda>((header, err), conn).
              let r = r\<lparr> rconnection := Some conn \<rparr> in
              if err \<noteq> None then Ret (False, r)
              else obind (of_opt (Uint32 header)) (\<lambda>len.
                   obind (of_opt (Uint16 (drop 4 header))) (\<lambda>msgCode.
                     let dataLength = len - 2 in
                     if dataLength > 0 then
                       obind (ReadData (unat dataLength) 0 False conn) (\<lambda>((data, err), conn).
                         let r = r\<lparr> rconnection := Some conn \<rparr> in
                         if err \<noteq> None then Ret (False, r)
                         else obind (queueInboundMessage \<lparr> wireCode = msgCode, wireData = data \<rparr> r) (\<lambda>r. Ret (True, r)))
                     else obind (queueInboundMessage \<lparr> wireCode = msgCode, wireData = [] \<rparr> r) (\<lambda>r. Ret (True, r))))))"

section \<open>Ping\<close>

definition pingMessage :: NodeMessage where
  "pingMessage = PingM \<lparr> pingCode = 0 \<rparr>"

text \<open>The actors start: each creates its timer; the ping actor sends the first ping.\<close>

definition startPingTimer :: "u64 \<Rightarrow> remoteNode \<Rightarrow> remoteNode outcome" where
  "startPingTimer now r =
     sendMessage pingMessage (r\<lparr> pingTimer := Some (NewTimer now (seconds (rcPingInterval (rconfig r)))) \<rparr>)"

definition startPingTimeout :: "u64 \<Rightarrow> remoteNode \<Rightarrow> remoteNode" where
  "startPingTimeout now r = r\<lparr> pingTimeout := Some (NewTimer now (seconds (rcPingTimeout (rconfig r)))) \<rparr>"

definition stopAndDrain :: "timer \<Rightarrow> timer" where
  "stopAndDrain t = (case timer_Stop t of (stopped, t) \<Rightarrow> if stopped then t else timer_drain t)"

text \<open>A tick of the ping timer; a nil \<^verbatim>\<open>pingTimeout\<close> panics.\<close>

definition onPingTick :: "u64 \<Rightarrow> remoteNode \<Rightarrow> remoteNode outcome" where
  "onPingTick now r =
     (let r = r\<lparr> rmetrics := (rmetrics r)\<lparr> pingSent := pingSent (rmetrics r) + 1 \<rparr> \<rparr> in
      case pingTimeout r of
        None \<Rightarrow> Panic
      | Some t \<Rightarrow>
          sendMessage pingMessage
            (r\<lparr> pingTimeout := Some (timer_Reset now (seconds (rcPingTimeout (rconfig r))) (stopAndDrain t)) \<rparr>))"

text \<open>
  The ping timeout has fired and its value is received; the result says whether the node is
  given up.  The handler is enabled only when the channel holds a value.
\<close>

definition onPingTimeout :: "remoteNode \<Rightarrow> (bool \<times> remoteNode) outcome" where
  "onPingTimeout r =
     (case pingTimeout r of
        None \<Rightarrow> Blocked
      | Some t \<Rightarrow>
          if \<not> tick t then Blocked
          else let r = r\<lparr> pingTimeout := Some (timer_drain t), pingFailure := pingFailure r + 1 \<rparr> in
               if rcPingFailureThreshHold (rconfig r) \<le>s pingFailure r
               then Ret (True, r\<lparr> pingTimeout := Some (snd (timer_Stop (timer_drain t))) \<rparr>)
               else Ret (False, r))"

definition handlePing :: "remoteNode \<Rightarrow> remoteNode outcome" where
  "handlePing r =
     obind (sendMessage (PongM \<lparr> pongCode = 0 \<rparr>)
              (r\<lparr> rmetrics := (rmetrics r)\<lparr> pingRecieved := pingRecieved (rmetrics r) + 1 \<rparr> \<rparr>)) (\<lambda>r.
       Ret (r\<lparr> rmetrics := (rmetrics r)\<lparr> pongSent := pongSent (rmetrics r) + 1 \<rparr> \<rparr>))"

definition handlePong :: "remoteNode \<Rightarrow> remoteNode outcome" where
  "handlePong r =
     (case pingTimeout r of
        None \<Rightarrow> Panic
      | Some t \<Rightarrow>
          Ret (r\<lparr> rmetrics := (rmetrics r)\<lparr> pongRecieved := pongRecieved (rmetrics r) + 1 \<rparr>,
                 pingTimeout := Some (stopAndDrain t), pingFailure := 0 \<rparr>))"

section \<open>Ending\<close>

text \<open>
  The interrupt functions of the seven actors of \<^verbatim>\<open>start\<close>, which the group calls once each
  when the first actor has returned.  The two ping actors only close a channel of their own.
\<close>

definition interruptDone :: "remoteNode \<Rightarrow> remoteNode outcome" where
  "interruptDone r = (if doneClosed r then Panic else Ret (r\<lparr> doneClosed := True \<rparr>))"

definition interruptPing :: "remoteNode \<Rightarrow> remoteNode outcome" where
  "interruptPing r = Ret r"

definition interruptConsumer :: "remoteNode \<Rightarrow> remoteNode outcome" where
  "interruptConsumer r = Ret (setState nodeStateDisconnected r)"

definition interruptHandler :: "remoteNode \<Rightarrow> remoteNode outcome" where
  "interruptHandler r =
     obind (chanClose (inboundMsgQueue r)) (\<lambda>ch.
       Ret (setState nodeStateDisconnected (r\<lparr> inboundMsgQueue := ch \<rparr>)))"

definition interruptSender :: "remoteNode \<Rightarrow> remoteNode outcome" where
  "interruptSender r =
     obind (chanClose (outboundMsgQueue r)) (\<lambda>ch.
       Ret (setState nodeStateDisconnected (r\<lparr> outboundMsgQueue := ch \<rparr>)))"

definition interruptTearDown :: "remoteNode \<Rightarrow> remoteNode outcome" where
  "interruptTearDown r =
     (case rconnection r of
        None \<Rightarrow> Panic
      | Some conn \<Rightarrow> Ret (setState nodeStateDisconnected (r\<lparr> rconnection := Some (conn_Close conn) \<rparr>)))"

definition interrupts :: "(remoteNode \<Rightarrow> remoteNode outcome) list" where
  "interrupts = [interruptDone, interruptPing, interruptPing, interruptConsumer, interruptHandler,
                 interruptSender, interruptTearDown]"

fun runInterrupts :: "(remoteNode \<Rightarrow> remoteNode outcome) list \<Rightarrow> remoteNode \<Rightarrow> remoteNode outcome" where
  "runInterrupts [] r = Ret r"
| "runInterrupts (f # fs) r = obind (f r) (runInterrupts fs)"

section \<open>Frames\<close>

definition frameOf :: "NodeWireMessage \<Rightarrow> byte list" where
  "frameOf msg = le_put 4 (of_nat (length (wireData msg) + 2) :: u32) @ le_put 2 (wireCode msg) @ wireData msg"

definition framable :: "NodeWireMessage \<Rightarrow> bool" where
  "framable msg \<longleftrightarrow> length (wireData msg) + 2 < 2 ^ 32"

lemma frameBytes_frameOf: "frameBytes msg = Ret (frameOf msg)"
proof -
  let ?d = "wireData msg" and ?z = "\<lambda>n. replicate n (0::byte)"
  let ?l = "le_put 4 (of_nat (length ?d + 2) :: u32)" and ?c = "le_put 2 (wireCode msg)"
  have 1: "PutUint32 (?z (6 + length ?d)) 0 (of_nat (length ?d + 2)) = Some (?l @ ?z (2 + length ?d))"
    by (simp add: PutUint32_def overwrite_0)
  have 2: "PutUint16 (?l @ ?z (2 + length ?d)) 4 (wireCode msg) = Some (?l @ ?c @ ?z (length ?d))"
    using overwrite_append_same [of ?l 4 ?c "?z (2 + length ?d)"] by (simp add: PutUint16_def)
  have 3: "goCopy (?l @ ?c @ ?z (length ?d)) 6 ?d = (?l @ ?c @ ?d, length ?d)"
    using overwrite_append_same [of "?l @ ?c" 6 ?d "?z (length ?d)"] by (simp add: goCopy_fits)
  show ?thesis unfolding frameBytes_def Let_def 1 of_opt_simps obind.simps 2 3 by (simp add: frameOf_def)
qed

text \<open>The consumer takes one frame off the stream and queues its message.\<close>

lemma networkConsumer_frame:
  assumes st: "rstate r = nodeStateConnected \<or> rstate r = nodeStateHandshake"
    and c: "rconnection r = Some c" "conn_ok c" "pending c = frameOf msg @ rest" and f: "framable msg"
  obtains c' where "conn_ok c'" "pending c' = rest" "conn_broken c' = conn_broken c"
    and "networkConsumer r =
      obind (queueInboundMessage msg (r\<lparr> rconnection := Some c' \<rparr>)) (\<lambda>r. Ret (True, r))"
proof -
  let ?d = "wireData msg" and ?n = "of_nat (length (wireData msg) + 2) :: u32"
  let ?h = "le_put 4 ?n @ le_put 2 (wireCode msg)"
  have p: "pending c = ?h @ ?d @ rest" using c(3) by (simp add: frameOf_def)
  obtain c1 where r1: "ReadData 6 0 False c = Ret ((?h, None), c1)" and
    c1: "pending c1 = ?d @ rest" "conn_ok c1" "conn_broken c1 = conn_broken c"
    using conn_src.rd_prefix [OF c(2) p, of 6 False] by auto
  have u: "Uint32 ?h = Some ?n" "Uint16 (drop 4 ?h) = Some (wireCode msg)"
    using Uint32_put [of ?n] Uint16_put [of "wireCode msg" "[]"] by simp_all
  have n: "?n - 2 = of_nat (length ?d)" "unat (of_nat (length ?d) :: u32) = length ?d"
    using f by (simp_all add: framable_def unat_of_nat_small)
  show ?thesis
  proof (cases "?d = []")
    case True
    have "networkConsumer r = obind (queueInboundMessage msg (r\<lparr> rconnection := Some c1 \<rparr>)) (\<lambda>r. Ret (True, r))"
      unfolding networkConsumer_def using st c(1) r1 u n True by (cases msg) auto
    then show ?thesis using that c1 True by simp
  next
    case False
    obtain c2 where r2: "ReadData (length ?d) 0 False c1 = Ret ((?d, None), c2)" and
      c2: "pending c2 = rest" "conn_ok c2" "conn_broken c2 = conn_broken c1"
      using conn_src.rd_prefix [OF c1(2,1), of "length ?d" False] by auto
    have "(0::u32) < of_nat (length ?d)" using False n(2) by (simp add: word_less_nat_alt)
    then have "networkConsumer r = obind (queueInboundMessage msg (r\<lparr> rconnection := Some c2 \<rparr>)) (\<lambda>r. Ret (True, r))"
      unfolding networkConsumer_def using st c(1) r1 u n r2 by (cases msg) auto
    then show ?thesis using that c1 c2 by simp
  qed
qed

fun consumeRounds :: "nat \<Rightarrow> remoteNode \<Rightarrow> remoteNode outcome" where
  "consumeRounds 0 r = Ret r"
| "consumeRounds (Suc n) r = obind (networkConsumer r) (\<lambda>(goOn, r). if goOn then consumeRounds n r else Ret r)"

definition room :: "nat \<Rightarrow> 'a chan \<Rightarrow> bool" where
  "room n ch \<longleftrightarrow> \<not> chanClosed ch \<and> length (chanItems ch) + n \<le> chanCap ch"

definition queued :: "'a list \<Rightarrow> 'a chan \<Rightarrow> 'a chan" where
  "queued xs ch = ch\<lparr> chanItems := chanItems ch @ xs \<rparr>"

lemma queued_simps [simp]: "queued [] ch = ch" "queued ys (queued xs ch) = queued (xs @ ys) ch"
    "room n (queued xs ch) \<longleftrightarrow> room (length xs + n) ch"
  by (simp_all add: queued_def room_def add.assoc)

lemma selectSend_room: "room (Suc n) ch \<Longrightarrow> selectSend False p x ch = Ret (queued [x] ch)"
  by (simp add: room_def queued_def selectSend_def)

lemma queueInbound_connected:
  assumes "rstate r = nodeStateConnected" "\<not> doneClosed r" "room (Suc n) (inboundMsgQueue r)"
  shows "queueInboundMessage msg r = Ret (r\<lparr> inboundMsgQueue := queued [msg] (inboundMsgQueue r) \<rparr>)"
  using assms by (simp add: queueInboundMessage_def selectSend_room)

lemma consume_frames:
  assumes "rstate r = nodeStateConnected" "\<not> doneClosed r" "room (length ws) (inboundMsgQueue r)"
    and "rconnection r = Some c" "conn_ok c" "pending c = concat (map frameOf ws) @ rest" "list_all framable ws"
  shows "\<exists>c'. consumeRounds (length ws) r =
      Ret (r\<lparr> rconnection := Some c', inboundMsgQueue := queued ws (inboundMsgQueue r) \<rparr>) \<and>
    conn_ok c' \<and> pending c' = rest"
  using assms
proof (induction ws arbitrary: r c)
  case Nil
  have "r\<lparr> rconnection := Some c, inboundMsgQueue := inboundMsgQueue r \<rparr> = r" using Nil.prems(4) by (cases r) simp
  then show ?case using Nil.prems(5,6) by (intro exI [of _ c]) simp
next
  case (Cons w ws)
  obtain c1 where c1: "conn_ok c1" "pending c1 = concat (map frameOf ws) @ rest"
    and e: "networkConsumer r = obind (queueInboundMessage w (r\<lparr> rconnection := Some c1 \<rparr>)) (\<lambda>r. Ret (True, r))"
    by (rule networkConsumer_frame [of r c w "concat (map frameOf ws) @ rest"]) (use Cons.prems in auto)
  let ?r = "r\<lparr> rconnection := Some c1, inboundMsgQueue := queued [w] (inboundMsgQueue r) \<rparr>"
  have "queueInboundMessage w (r\<lparr> rconnection := Some c1 \<rparr>) = Ret ?r"
    using queueInbound_connected [of "r\<lparr> rconnection := Some c1 \<rparr>" "length ws" w] Cons.prems(1-3) by simp
  then have "consumeRounds (length (w # ws)) r = consumeRounds (length ws) ?r" by (simp add: e)
  moreover have "\<exists>c'. consumeRounds (length ws) ?r =
      Ret (?r\<lparr> rconnection := Some c', inboundMsgQueue := queued ws (inboundMsgQueue ?r) \<rparr>) \<and>
    conn_ok c' \<and> pending c' = rest"
    by (rule Cons.IH [of _ c1]) (use Cons.prems c1 in auto)
  ultimately show ?case by simp
qed

text \<open>The sender: one message leaves as its frame when the socket takes everything.\<close>

definition accepts :: "(nat \<times> netError option) list \<Rightarrow> nat \<Rightarrow> bool" where
  "accepts ws n \<longleftrightarrow> list_all (\<lambda>(k, e). e = None) ws \<and> n \<le> sum_list (map fst ws)"

lemma accepts_mono: "accepts ws n \<Longrightarrow> m \<le> n \<Longrightarrow> accepts ws m"
  by (simp add: accepts_def)

lemma writeLoop_accepts:
  assumes "list_all (\<lambda>(k, e). e = None) ws" and "length data - i \<le> sum_list (map fst ws)" and "i \<le> length data"
  shows "writeLoop ws i data c = Ret ((length data, None), c\<lparr> outgoing := outgoing c @ drop i data \<rparr>)"
  using assms
proof (induction ws i data c rule: writeLoop.induct)
  case (2 n e ws i data c)
  show ?case
  proof (cases "i < length data")
    case True
    let ?m = "min n (length data - i)"
    have "writeLoop ws (i + ?m) data (c\<lparr> outgoing := outgoing c @ take n (drop i data) \<rparr>) =
        Ret ((length data, None), c\<lparr> outgoing := (outgoing c @ take n (drop i data)) @ drop (i + ?m) data \<rparr>)"
      using "2.IH" [OF True refl] "2.prems" True by auto
    moreover have "take n (drop i data) @ drop (i + ?m) data = drop i data"
      using append_take_drop_id [of n "drop i data"] True
      by (cases "n \<le> length data - i") (auto simp: min_def add.commute)
    ultimately show ?thesis using True "2.prems"(1) by simp
  qed (use "2.prems" in simp)
qed simp

lemma networkSender_frame:
  assumes "rstate r \<noteq> nodeStateDisconnected" and "chanItems (outboundMsgQueue r) = m # ms"
    and "Serialize m = Ret w" and "rconnection r = Some c" "isUsable c" and "accepts ws (length (frameOf w))"
  shows "networkSender ws r = Ret (True, r\<lparr> outboundMsgQueue := (outboundMsgQueue r)\<lparr> chanItems := ms \<rparr>,
    rconnection := Some (c\<lparr> outgoing := outgoing c @ frameOf w \<rparr>) \<rparr>)"
  using assms writeLoop_accepts [of ws "frameOf w" 0 c]
  by (simp add: networkSender_def chanRecv_def frameBytes_frameOf SendData_def accepts_def)

section \<open>The handshake\<close>

definition verifying :: "NodeWireMessage \<Rightarrow> bool" where
  "verifying msg \<longleftrightarrow> wireCode msg = MsgVERIFY \<or> wireCode msg = MsgVERIFYOK"

lemma queueInbound_handshake:
  assumes "rstate r = nodeStateHandshake" and "queueInboundMessage msg r = Ret r'"
  shows "rstate r' = nodeStateHandshake"
    "chanItems (inboundMsgQueue r') = chanItems (inboundMsgQueue r) \<or>
     verifying msg \<and> chanItems (inboundMsgQueue r') = chanItems (inboundMsgQueue r) @ [msg]"
  using assms
  by (auto simp: queueInboundMessage_def verifying_def obind_eq_Ret dest!: selectSend_Ret split: if_splits)

section \<open>Interrupts\<close>

definition andThen :: "(remoteNode \<Rightarrow> remoteNode outcome) \<Rightarrow> remoteNode outcome \<Rightarrow> remoteNode outcome" where
  "andThen f o' = obind o' f"

lemma runInterrupts_fold: "runInterrupts fs r = fold andThen fs (Ret r)"
proof -
  have "fold andThen fs o' = obind o' (runInterrupts fs)" for o'
  proof (induction fs arbitrary: o')
    case Nil
    show ?case by (cases o') simp_all
  next
    case (Cons f fs)
    then show ?case by (cases o') (simp_all add: andThen_def)
  qed
  then show ?thesis by simp
qed

lemma interrupts_commute:
  assumes "f \<in> set interrupts" and "g \<in> set interrupts"
  shows "andThen f \<circ> andThen g = andThen g \<circ> andThen f"
proof
  fix x
  show "(andThen f \<circ> andThen g) x = (andThen g \<circ> andThen f) x"
    using assms
    by (cases x)
       (auto simp: interrupts_def andThen_def interruptDone_def interruptPing_def interruptConsumer_def
         interruptHandler_def interruptSender_def interruptTearDown_def setState_def chanClose_def split: option.splits)
qed

lemma interrupts_order: "mset fs = mset interrupts \<Longrightarrow> runInterrupts fs r = runInterrupts interrupts r"
  unfolding runInterrupts_fold
  by (rule fun_cong [OF fold_multiset_equiv]) (auto dest: mset_eq_setD simp: interrupts_commute)

section \<open>Pings\<close>

text \<open>A peer that does not answer: a tick arms the timeout, the timeout fires and is handled.\<close>

definition unansweredPing :: "u64 \<Rightarrow> remoteNode \<Rightarrow> (bool \<times> remoteNode) outcome" where
  "unansweredPing now r =
     obind (onPingTick now r) (\<lambda>r. onPingTimeout (r\<lparr> pingTimeout := map_option timer_fire (pingTimeout r) \<rparr>))"

fun unansweredPings :: "(nat \<Rightarrow> u64) \<Rightarrow> nat \<Rightarrow> remoteNode \<Rightarrow> (bool \<times> remoteNode) outcome" where
  "unansweredPings now 0 r = Ret (False, r)"
| "unansweredPings now (Suc n) r =
     obind (unansweredPings now n r) (\<lambda>(dead, r). if dead then Ret (True, r) else unansweredPing (now n) r)"

lemma sendMessage_room:
  assumes "rstate r \<noteq> nodeStateDisconnected" "\<not> doneClosed r" "room (Suc n) (outboundMsgQueue r)"
  shows "sendMessage msg r = Ret (r\<lparr> outboundMsgQueue := queued [msg] (outboundMsgQueue r) \<rparr>)"
  using assms by (simp add: sendMessage_def selectSend_room)

lemma unansweredPing_counts:
  assumes "rstate r \<noteq> nodeStateDisconnected" "\<not> doneClosed r" "room (Suc n) (outboundMsgQueue r)" "pingTimeout r = Some t"
  shows "\<exists>r' t'. unansweredPing now r = Ret (rcPingFailureThreshHold (rconfig r) \<le>s pingFailure r + 1, r') \<and>
    pingFailure r' = pingFailure r + 1 \<and> rstate r' = rstate r \<and> doneClosed r' = doneClosed r \<and> rconfig r' = rconfig r \<and>
    outboundMsgQueue r' = queued [pingMessage] (outboundMsgQueue r) \<and> pingTimeout r' = Some t'"
  using assms sendMessage_room [of _ n]
  by (auto simp: unansweredPing_def onPingTick_def onPingTimeout_def timer_fire_def Let_def)

lemma sint_of_nat32: "m < 2 ^ 31 \<Longrightarrow> sint (of_nat m :: 32 word) = int m"
proof -
  assume "m < 2 ^ 31"
  then have "signed_take_bit 31 (int m) = int m" by (intro signed_take_bit_int_eq_self) simp_all
  moreover have "(of_nat m :: 32 word) = word_of_int (int m)" by simp
  ultimately show ?thesis by (simp only: sint_sbintrunc') simp
qed

lemma unansweredPings_count:
  assumes st: "rstate r \<noteq> nodeStateDisconnected" "\<not> doneClosed r" "pingTimeout r = Some t" "pingFailure r = 0"
    and th: "0 < sint (rcPingFailureThreshHold (rconfig r))"
    and room: "room k (outboundMsgQueue r)"
  shows "\<exists>r'. unansweredPings now k r = Ret (nat (sint (rcPingFailureThreshHold (rconfig r))) \<le> k, r') \<and>
    (k < nat (sint (rcPingFailureThreshHold (rconfig r))) \<longrightarrow>
      pingFailure r' = of_nat k \<and> rstate r' = rstate r \<and> doneClosed r' = doneClosed r \<and> rconfig r' = rconfig r \<and>
      outboundMsgQueue r' = queued (replicate k pingMessage) (outboundMsgQueue r) \<and> (\<exists>t'. pingTimeout r' = Some t'))"
  using room
proof (induction k)
  case 0
  then show ?case using st th by simp
next
  case (Suc k)
  let ?th = "nat (sint (rcPingFailureThreshHold (rconfig r)))"
  have "room k (outboundMsgQueue r)" using Suc.prems by (simp add: room_def)
  from Suc.IH [OF this] obtain r1 where r1: "unansweredPings now k r = Ret (?th \<le> k, r1)"
    "k < ?th \<longrightarrow> pingFailure r1 = of_nat k \<and> rstate r1 = rstate r \<and> doneClosed r1 = doneClosed r \<and> rconfig r1 = rconfig r \<and>
      outboundMsgQueue r1 = queued (replicate k pingMessage) (outboundMsgQueue r) \<and> (\<exists>t'. pingTimeout r1 = Some t')"
    by blast
  show ?case
  proof (cases "?th \<le> k")
    case True
    then show ?thesis using r1(1) by auto
  next
    case False
    with r1(2) obtain t' where f: "pingFailure r1 = of_nat k" "rstate r1 = rstate r" "doneClosed r1 = doneClosed r"
      "rconfig r1 = rconfig r" "outboundMsgQueue r1 = queued (replicate k pingMessage) (outboundMsgQueue r)"
      "pingTimeout r1 = Some t'" by auto
    have "room (Suc 0) (outboundMsgQueue r1)" using Suc.prems by (simp add: f)
    with unansweredPing_counts [of r1 0 t' "now k"] st f obtain r2 t2 where
      r2: "unansweredPing (now k) r1 = Ret (rcPingFailureThreshHold (rconfig r) \<le>s of_nat k + 1, r2)"
      "pingFailure r2 = of_nat k + 1" "rstate r2 = rstate r" "doneClosed r2 = doneClosed r" "rconfig r2 = rconfig r"
      "outboundMsgQueue r2 = queued (replicate k pingMessage @ [pingMessage]) (outboundMsgQueue r)" "pingTimeout r2 = Some t2"
      by auto
    have "sint (rcPingFailureThreshHold (rconfig r)) < 2 ^ 31" using sint_less [of "rcPingFailureThreshHold (rconfig r)"] by simp
    then have k: "Suc k < 2 ^ 31" using False by simp
    have "rcPingFailureThreshHold (rconfig r) \<le>s of_nat k + 1 \<longleftrightarrow> ?th \<le> Suc k"
      using sint_of_nat32 [OF k] th by (simp add: word_sle_eq add.commute nat_le_iff)
    then show ?thesis using r1(1) r2 False by (auto simp: add.commute replicate_append_same)
  qed
qed

section \<open>Properties\<close>

text \<open>
  C13. Whatever messages are put on the stream as frames, one after the other, the network
  consumer of a connected node queues exactly these messages, in order and without a byte
  lost or added, and leaves what follows on the stream.
\<close>

theorem frames_reproduce_messages:
  assumes "rstate r = nodeStateConnected" and "\<not> doneClosed r" and "room (length ws) (inboundMsgQueue r)"
    and "rconnection r = Some c" and "conn_ok c" and "list_all framable ws"
    and "list_all2 (\<lambda>w bs. frameBytes w = Ret bs) ws frames" and "pending c = concat frames @ rest"
  shows "\<exists>c'. consumeRounds (length ws) r =
      Ret (r\<lparr> rconnection := Some c', inboundMsgQueue := queued ws (inboundMsgQueue r) \<rparr>) \<and>
    conn_ok c' \<and> pending c' = rest"
proof -
  have "frames = map frameOf ws"
    using assms(7) by (induction ws frames rule: list_all2_induct) (auto simp: frameBytes_frameOf)
  then show ?thesis using consume_frames [OF assms(1-5), of rest] assms(6,8) by simp
qed

definition sampleMessages :: "NodeWireMessage list" where
  "sampleMessages = [\<lparr> wireCode = MsgPING, wireData = [] \<rparr>, \<lparr> wireCode = MsgPUT, wireData = [1, 2, 3] \<rparr>]"

definition sampleNode :: remoteNode where
  "sampleNode = setState nodeStateConnected (setConnection
     (WrapConnection [] [] [Bytes [2, 0, 0, 0, 12], Bytes [0, 5, 0, 0], Bytes [0, 14, 0, 1, 2, 3, 99]])
     (newRemoteNode \<lparr> rcId = [], rcIpAddress = [], rcPingFailureThreshHold = 0, rcPingInterval = 0, rcPingTimeout = 0,
        rcConnectRetries = 0, rcServicePort = [], rcSync = False, rcReconnectOnDisconnect = False \<rparr>))"

theorem frames_reproduce_messages_witness:
  "\<exists>c'. consumeRounds 2 sampleNode =
      Ret (sampleNode\<lparr> rconnection := Some c', inboundMsgQueue := queued sampleMessages (inboundMsgQueue sampleNode) \<rparr>) \<and>
    conn_ok c' \<and> pending c' = [99]"
proof -
  let ?c = "WrapConnection [] [] [Bytes [2, 0, 0, 0, 12], Bytes [0, 5, 0, 0], Bytes [0, 14, 0, 1, 2, 3, 99]]"
  have "list_all2 (\<lambda>w bs. frameBytes w = Ret bs) sampleMessages [[2, 0, 0, 0, 12, 0], [5, 0, 0, 0, 14, 0, 1, 2, 3]]"
    by code_simp
  then have "\<exists>c'. consumeRounds (length sampleMessages) sampleNode =
      Ret (sampleNode\<lparr> rconnection := Some c', inboundMsgQueue := queued sampleMessages (inboundMsgQueue sampleNode) \<rparr>) \<and>
    conn_ok c' \<and> pending c' = [99]"
    by (rule frames_reproduce_messages [where c = ?c, rotated 6])
       (simp_all add: sampleNode_def sampleMessages_def setState_def setConnection_def newRemoteNode_def room_def
         makeChan_def CHAN_SIZE_def framable_def WrapConnection_def conn_ok_def pending_def)
  then show ?thesis by (simp add: sampleMessages_def numeral_2_eq_2)
qed



text \<open>
  When a remote node ends, the interrupt functions of its actors may be called in any
  order: nothing panics, and afterwards the node is disconnected, its channels are closed and
  its connection is shut down.
\<close>

lemma interrupts_any_order:
  assumes "mset fs = mset interrupts" and "\<not> doneClosed r" and "\<not> chanClosed (inboundMsgQueue r)"
    and "\<not> chanClosed (outboundMsgQueue r)" and "rconnection r = Some c"
  shows "runInterrupts fs r = Ret (r\<lparr> doneClosed := True, rstate := nodeStateDisconnected,
    inboundMsgQueue := (inboundMsgQueue r)\<lparr> chanClosed := True \<rparr>,
    outboundMsgQueue := (outboundMsgQueue r)\<lparr> chanClosed := True \<rparr>, rconnection := Some (Shutdown c) \<rparr>)"
  unfolding interrupts_order [OF assms(1)]
  using assms(2-)
  by (simp add: interrupts_def interruptDone_def interruptPing_def interruptConsumer_def interruptHandler_def
      interruptSender_def interruptTearDown_def setState_def chanClose_def conn_Close_def)

end
