(* ===== verification/SliceList.thy ===== *)
theory SliceList
  imports Prelude "HOL-Library.AList" "HOL-Library.Multiset"
begin

text \<open>
  The list of connected nodes, \<^verbatim>\<open>utils/sliceList.go\<close>: a \<^verbatim>\<open>sync.Map\<close> with a separate
  counter.  The map is an association list with distinct keys; \<^verbatim>\<open>Range\<close> visits the pairs in
  an order the library leaves open, a parameter here.  A nil value is \<open>None\<close>.
\<close>

record 'v SliceList =
  items :: "(gostring \<times> 'v) list"
  listSize :: "32 word"

definition NewSliceList :: "'v SliceList" where
  "NewSliceList = \<lparr> items = [], listSize = 0 \<rparr>"

definition list_Add :: "gostring \<Rightarrow> 'v option \<Rightarrow> 'v SliceList \<Rightarrow> 'v SliceList" where
  "list_Add k value l =
     (case value of
        None \<Rightarrow> l
      | Some v \<Rightarrow> l\<lparr> listSize := listSize l + 1, items := AList.update k v (items l) \<rparr>)"

definition list_Contains :: "gostring \<Rightarrow> 'v SliceList \<Rightarrow> bool" where
  "list_Contains k l \<longleftrightarrow> map_of (items l) k \<noteq> None"

definition list_Size :: "'v SliceList \<Rightarrow> 32 word" where
  "list_Size l = listSize l"

definition list_Remove :: "gostring \<Rightarrow> 'v SliceList \<Rightarrow> 'v SliceList" where
  "list_Remove k l =
     (if map_of (items l) k \<noteq> None
      then l\<lparr> items := AList.delete k (items l), listSize := listSize l - 1 \<rparr> else l)"

definition list_Get :: "gostring \<Rightarrow> 'v SliceList \<Rightarrow> 'v option" where
  "list_Get k l = map_of (items l) k"

definition list_Values :: "((gostring \<times> 'v) list \<Rightarrow> (gostring \<times> 'v) list) \<Rightarrow> 'v SliceList \<Rightarrow> 'v list" where
  "list_Values order l = map snd (order (items l))"

definition list_Keys :: "'v SliceList \<Rightarrow> (gostring \<times> 'v) list" where
  "list_Keys l = items l"

section \<open>Refinement of a map\<close>

definition list_abs :: "'v SliceList \<Rightarrow> gostring \<rightharpoonup> 'v" where
  "list_abs l = map_of (items l)"

definition list_ok :: "'v SliceList \<Rightarrow> bool" where
  "list_ok l \<longleftrightarrow> distinct (map fst (items l))"

lemma list_ok_new: "list_ok NewSliceList" "list_abs NewSliceList = Map.empty"
  by (simp_all add: list_ok_def list_abs_def NewSliceList_def)

lemma list_ok_Add: "list_ok l \<Longrightarrow> list_ok (list_Add k v l)"
  by (simp add: list_ok_def list_Add_def distinct_update split: option.split)

lemma list_ok_Remove: "list_ok l \<Longrightarrow> list_ok (list_Remove k l)"
  by (simp add: list_ok_def list_Remove_def distinct_delete)

lemma list_Add_nil: "list_Add k None l = l"
  by (simp add: list_Add_def)

lemma list_abs_Add: "list_abs (list_Add k (Some v) l) = (list_abs l)(k \<mapsto> v)"
  by (simp add: list_abs_def list_Add_def update_conv')

lemma list_abs_Remove: "list_abs (list_Remove k l) = (list_abs l)(k := None)"
  by (auto simp: list_abs_def list_Remove_def delete_conv' fun_eq_iff)

lemma list_Get_abs: "list_Get k l = list_abs l k" "list_Contains k l \<longleftrightarrow> k \<in> dom (list_abs l)"
  by (auto simp: list_Get_def list_abs_def list_Contains_def)

lemma list_Values_ran:
  assumes "list_ok l" and "mset (order (items l)) = mset (items l)"
  shows "mset (list_Values order l) = image_mset (the \<circ> list_abs l) (mset_set (dom (list_abs l)))"
proof -
  have d: "distinct (map fst (items l))" using assms(1) by (simp add: list_ok_def)
  have "image_mset (the \<circ> list_abs l) (mset (map fst (items l))) = image_mset snd (mset (items l))"
    unfolding list_abs_def mset_map [symmetric] map_map
    by (rule arg_cong [of _ _ mset]) (use d in \<open>auto intro!: map_cong\<close>)
  moreover have "mset (map fst (items l)) = mset_set (dom (list_abs l))"
    using mset_set_set [OF d] by (simp add: list_abs_def dom_map_of_conv_image_fst)
  ultimately show ?thesis
    unfolding list_Values_def mset_map assms(2) by simp
qed

section \<open>Histories\<close>

datatype 'v listCall = CAdd gostring "'v option" | CRemove gostring

fun list_call :: "'v listCall \<Rightarrow> 'v SliceList \<Rightarrow> 'v SliceList" where
  "list_call (CAdd k v) = list_Add k v"
| "list_call (CRemove k) = list_Remove k"

text \<open>How often a call stored under a key that was there.\<close>

fun overwrites :: "'v listCall list \<Rightarrow> 'v SliceList \<Rightarrow> nat" where
  "overwrites [] l = 0"
| "overwrites (c # cs) l =
     (case c of CAdd k (Some v) \<Rightarrow> if list_Contains k l then 1 else 0 | _ \<Rightarrow> 0) + overwrites cs (list_call c l)"

lemma length_update: "distinct (map fst xs) \<Longrightarrow> length (AList.update k v xs) = (if map_of xs k = None then Suc (length xs) else length xs)"
  by (induction xs) auto

lemma length_delete:
  "distinct (map fst xs) \<Longrightarrow> map_of xs k \<noteq> None \<Longrightarrow> Suc (length (AList.delete k xs)) = length xs"
proof (induction xs)
  case (Cons x xs)
  show ?case
  proof (cases "fst x = k")
    case True
    with Cons.prems have "k \<notin> fst ` set xs" by auto
    then show ?thesis using True by (cases x) (simp add: delete_idem)
  next
    case False
    with Cons show ?thesis by (cases x) simp
  qed
qed simp

lemma list_Size_call:
  assumes "list_ok l" and "listSize l = of_nat (length (items l)) + d"
  shows "listSize (list_call c l) = of_nat (length (items (list_call c l))) + d + of_nat (overwrites [c] l)"
proof (cases c)
  case (CAdd k v)
  then show ?thesis using assms
    by (cases v) (auto simp: list_Add_def list_ok_def length_update list_Contains_def)
next
  case (CRemove k)
  show ?thesis
  proof (cases "map_of (items l) k = None")
    case False
    with length_delete [of "items l" k] assms(1) have "length (items l) = Suc (length (AList.delete k (items l)))"
      by (simp add: list_ok_def)
    then show ?thesis using CRemove False assms(2) by (simp add: list_Remove_def)
  qed (use CRemove assms in \<open>simp add: list_Remove_def\<close>)
qed

lemma list_ok_call: "list_ok l \<Longrightarrow> list_ok (list_call c l)"
  by (cases c) (simp_all add: list_ok_Add list_ok_Remove)

lemma list_Size_history:
  assumes "list_ok l" and "listSize l = of_nat (length (items l)) + d"
  shows "listSize (fold list_call cs l) =
      of_nat (length (items (fold list_call cs l))) + d + of_nat (overwrites cs l)"
  using assms
proof (induction cs arbitrary: l d)
  case (Cons c cs)
  from Cons.IH [OF list_ok_call [OF Cons.prems(1), of c] list_Size_call [OF Cons.prems, of c, unfolded add.assoc]]
  show ?case by (simp add: algebra_simps)
qed simp

section \<open>Property\<close>

text \<open>
  C29. After any history of calls to Add and Remove on a new list, Get answers like a map that
  was updated by the same calls, and Size is the number of keys plus the number of calls that
  stored under a key already present.  So the counter is exact as long as Add is called only
  for absent keys, and stays too high for ever after one that is not.
\<close>

fun map_call :: "'v listCall \<Rightarrow> (gostring \<rightharpoonup> 'v) \<Rightarrow> gostring \<rightharpoonup> 'v" where
  "map_call (CAdd k None) m = m"
| "map_call (CAdd k (Some v)) m = m(k \<mapsto> v)"
| "map_call (CRemove k) m = m(k := None)"

lemma list_abs_history: "list_abs (fold list_call cs l) = fold map_call cs (list_abs l)"
proof (induction cs arbitrary: l)
  case (Cons c cs)
  have "list_abs (list_call c l) = map_call c (list_abs l)"
    by (cases "(c, list_abs l)" rule: map_call.cases)
       (simp_all add: list_abs_Add list_abs_Remove list_Add_nil)
  with Cons show ?case by simp
qed simp

theorem list_refines_map_size_drifts:
  "list_Get k (fold list_call cs NewSliceList) = fold map_call cs Map.empty k
   \<and> list_Size (fold list_call cs NewSliceList) =
       of_nat (card (dom (fold map_call cs (Map.empty :: gostring \<rightharpoonup> 'v)))) + of_nat (overwrites cs NewSliceList)"
proof -
  let ?l = "fold list_call cs NewSliceList"
  have ok: "list_ok ?l" by (rule fold_invariant [where Q = "\<lambda>_. True"]) (auto simp: list_ok_new list_ok_call)
  have abs: "list_abs ?l = fold map_call cs Map.empty" by (simp add: list_abs_history list_ok_new)
  have "length (items ?l) = card (dom (list_abs ?l))"
    using ok distinct_card [of "map fst (items ?l)"]
    by (simp add: list_ok_def list_abs_def dom_map_of_conv_image_fst)
  moreover have "listSize ?l = of_nat (length (items ?l)) + of_nat (overwrites cs NewSliceList)"
    using list_Size_history [OF list_ok_new(1), of 0 cs] by (simp add: NewSliceList_def)
  ultimately show ?thesis by (simp add: list_Get_abs abs list_Size_def)
qed

end
