(* ===== verification/NodeId.thy ===== *)
theory NodeId
  imports Prelude
begin

text \<open>
  Random identifiers, \<^verbatim>\<open>utils/utils.go\<close>.  The pseudo-random source is a parameter: the
  stream of the values \<^verbatim>\<open>Int63\<close> returns.  The loop ends only when the stream has offered
  enough usable groups of six bits, so it is a partial function.
\<close>

unbundle bit_operations_syntax

definition letterBytes :: gostring where
  "letterBytes = map of_nat ([97..<123] @ [65..<91])"

definition letterIdxBits :: nat where "letterIdxBits = 6"
definition letterIdxMask :: u64 where "letterIdxMask = 63"
definition letterIdxMax :: nat where "letterIdxMax = 10"

text \<open>
  \<open>i\<close> positions are left to fill, from the right; \<open>cache\<close> has \<open>remain\<close> unused
  groups; \<open>pos\<close> values of the source have been drawn.
\<close>

partial_function (option) genLoop ::
    "(nat \<Rightarrow> u64) \<Rightarrow> nat \<Rightarrow> u64 \<Rightarrow> nat \<Rightarrow> nat \<Rightarrow> byte list \<Rightarrow> (byte list \<times> nat) option" where
  "genLoop src i cache remain pos b =
     (if i = 0 then Some (b, pos)
      else
        (let (cache, remain, pos) =
               (if remain = 0 then (src pos, letterIdxMax, Suc pos) else (cache, remain, pos));
             idx = unat (cache AND letterIdxMask)
         in if idx < length letterBytes
            then genLoop src (i - 1) (drop_bit letterIdxBits cache) (remain - 1) pos (b[i - 1 := letterBytes ! idx])
            else genLoop src i (drop_bit letterIdxBits cache) (remain - 1) pos b))"

declare genLoop.simps [code]

definition GenerateNodeId :: "(nat \<Rightarrow> u64) \<Rightarrow> nat \<Rightarrow> (gostring \<times> nat) option" where
  "GenerateNodeId src n = genLoop src n (src 0) letterIdxMax 1 (replicate n 0)"

section \<open>The groups of the source\<close>

text \<open>Group \<open>g\<close> of the source, and the letters of the first usable groups from \<open>g\<close> on.\<close>

definition sourceGroup :: "(nat \<Rightarrow> u64) \<Rightarrow> nat \<Rightarrow> nat" where
  "sourceGroup src g = unat (drop_bit (6 * (g mod 10)) (src (g div 10)) AND 63)"

definition usable :: "(nat \<Rightarrow> u64) \<Rightarrow> nat \<Rightarrow> bool" where
  "usable src g \<longleftrightarrow> sourceGroup src g < 52"

definition letterAt :: "(nat \<Rightarrow> u64) \<Rightarrow> nat \<Rightarrow> byte" where
  "letterAt src g = letterBytes ! sourceGroup src g"

lemma letterBytes_facts: "length letterBytes = 52" "set letterBytes \<subseteq> {97..122} \<union> {65..90}"
proof -
  show "length letterBytes = 52" by (simp add: letterBytes_def)
  have "list_all (\<lambda>b. 97 \<le> b \<and> b \<le> (122::byte) \<or> 65 \<le> b \<and> b \<le> 90) letterBytes" by code_simp
  then show "set letterBytes \<subseteq> {97..122} \<union> {65..90}" by (auto simp: list_all_iff)
qed

text \<open>The state of the loop before group \<open>g\<close>.\<close>

definition at_group :: "(nat \<Rightarrow> u64) \<Rightarrow> nat \<Rightarrow> u64 \<Rightarrow> nat \<Rightarrow> nat \<Rightarrow> bool" where
  "at_group src g cache remain pos \<longleftrightarrow>
     (if remain = 0 then g = 10 * pos
      else remain \<le> 10 \<and> 0 < pos \<and> g = 10 * (pos - 1) + (10 - remain) \<and> cache = drop_bit (6 * (10 - remain)) (src (pos - 1)))"

lemma genLoop_step:
  assumes "at_group src g cache remain pos" and "0 < i"
  obtains cache' remain' pos' where "at_group src (Suc g) cache' remain' pos'"
    and "genLoop src i cache remain pos b =
      (if usable src g then genLoop src (i - 1) cache' remain' pos' (b[i - 1 := letterAt src g])
       else genLoop src i cache' remain' pos' b)"
proof -
  obtain c r p where e: "(if remain = 0 then (src pos, letterIdxMax, Suc pos) else (cache, remain, pos)) = (c, r, p)"
    by (metis prod_cases3)
  then have r: "0 < r" "r \<le> 10" "0 < p" and g: "g = 10 * (p - 1) + (10 - r)"
    and c: "c = drop_bit (6 * (10 - r)) (src (p - 1))"
    using assms(1) by (auto simp: at_group_def letterIdxMax_def split: if_splits)
  have "10 - r < 10" using r by simp
  then have "g div 10 = p - 1" "g mod 10 = 10 - r" unfolding g by simp_all
  then have grp: "sourceGroup src g = unat (c AND letterIdxMask)"
    by (simp add: sourceGroup_def c letterIdxMask_def)
  have "at_group src (Suc g) (drop_bit letterIdxBits c) (r - 1) p"
    using r by (cases "r = 1") (auto simp: at_group_def g c letterIdxBits_def Suc_diff_le drop_bit_drop_bit algebra_simps)
  moreover have "genLoop src i cache remain pos b =
      (if usable src g then genLoop src (i - 1) (drop_bit letterIdxBits c) (r - 1) p (b[i - 1 := letterAt src g])
       else genLoop src i (drop_bit letterIdxBits c) (r - 1) p b)"
    using assms(2) by (subst genLoop.simps) (simp add: e grp usable_def letterAt_def letterBytes_facts)
  ultimately show ?thesis by (rule that)
qed

text \<open>The groups \<open>gs\<close> are the first usable ones from \<open>g\<close> on.\<close>

fun picked :: "(nat \<Rightarrow> u64) \<Rightarrow> nat \<Rightarrow> nat list \<Rightarrow> bool" where
  "picked src g [] \<longleftrightarrow> True"
| "picked src g (h # hs) \<longleftrightarrow> g \<le> h \<and> usable src h \<and> list_all (\<lambda>x. \<not> usable src x) [g..<h] \<and> picked src (Suc h) hs"

lemma picked_exists:
  assumes "\<forall>g. \<exists>h\<ge>g. usable src h"
  shows "\<exists>gs. length gs = n \<and> picked src g gs"
proof (induction n arbitrary: g)
  case (Suc n)
  define h where "h = (LEAST h. g \<le> h \<and> usable src h)"
  have "\<exists>h. g \<le> h \<and> usable src h" using assms by blast
  then have h: "g \<le> h" "usable src h" unfolding h_def by (metis (mono_tags, lifting) LeastI_ex)+
  have "\<not> usable src x" if "g \<le> x" "x < h" for x
    using not_less_Least [of x "\<lambda>h. g \<le> h \<and> usable src h"] that unfolding h_def by blast
  moreover obtain gs where "length gs = n" "picked src (Suc h) gs" using Suc.IH by blast
  ultimately have "picked src g (h # gs)" using h by (auto simp: list_all_iff)
  with \<open>length gs = n\<close> show ?case by (intro exI [of _ "h # gs"]) simp
qed simp

lemma genLoop_skip:
  assumes "at_group src g cache remain pos" and "0 < i" and "list_all (\<lambda>x. \<not> usable src x) [g..<h]" and "g \<le> h"
  shows "\<exists>cache' remain' pos'. at_group src h cache' remain' pos' \<and>
    genLoop src i cache remain pos b = genLoop src i cache' remain' pos' b"
  using assms
proof (induction "h - g" arbitrary: g cache remain pos)
  case 0
  then show ?case by auto
next
  case (Suc k)
  then have "g < h" by simp
  with Suc.prems(3) have u: "\<not> usable src g" and rest: "list_all (\<lambda>x. \<not> usable src x) [Suc g..<h]"
    by (auto simp: list_all_iff)
  obtain c r p where n: "at_group src (Suc g) c r p"
    and e: "genLoop src i cache remain pos b = genLoop src i c r p b"
    using genLoop_step [OF Suc.prems(1,2), of b] u by metis
  show ?case unfolding e by (rule Suc.hyps(1)) (use Suc.hyps(2) \<open>g < h\<close> n rest Suc.prems(2) in auto)
qed

lemma genLoop_picked:
  assumes "at_group src g cache remain pos" and "picked src g gs" and "length gs \<le> length b"
  shows "\<exists>pos'. genLoop src (length gs) cache remain pos b =
    Some (rev (map (letterAt src) gs) @ drop (length gs) b, pos')"
  using assms
proof (induction gs arbitrary: g cache remain pos b)
  case Nil
  show ?case by (subst genLoop.simps) simp
next
  case (Cons h gs)
  let ?i = "length (h # gs)"
  obtain c r p where n: "at_group src h c r p"
    and e: "genLoop src ?i cache remain pos b = genLoop src ?i c r p b"
    using genLoop_skip [OF Cons.prems(1), of ?i h b] Cons.prems(2) by auto
  obtain c' r' p' where n': "at_group src (Suc h) c' r' p'"
    and s: "genLoop src ?i c r p b =
      (if usable src h then genLoop src (?i - 1) c' r' p' (b[?i - 1 := letterAt src h]) else genLoop src ?i c' r' p' b)"
    by (rule genLoop_step [OF n, of ?i b]) simp_all
  have e': "genLoop src ?i c r p b = genLoop src (length gs) c' r' p' (b[length gs := letterAt src h])"
    unfolding s using Cons.prems(2) by simp
  have "drop (length gs) (b[length gs := letterAt src h]) = letterAt src h # drop (Suc (length gs)) b"
    using Cons.prems(3) by (simp add: Cons_nth_drop_Suc [symmetric] drop_update_cancel)
  moreover have "\<exists>pos'. genLoop src (length gs) c' r' p' (b[length gs := letterAt src h]) =
      Some (rev (map (letterAt src) gs) @ drop (length gs) (b[length gs := letterAt src h]), pos')"
    by (rule Cons.IH [OF n']) (use Cons.prems in auto)
  ultimately show ?case unfolding e e' by simp
qed

lemma at_group_start: "at_group src 0 (src 0) letterIdxMax 1"
  by (simp add: at_group_def letterIdxMax_def)

section \<open>Property\<close>

text \<open>
  C30. Provided the source keeps offering usable groups (six bits with a value below 52), the
  generator ends.  The identifier it returns has the requested length, consists of letters
  only, and is, read from the right, the letters of the first usable groups of the source.
\<close>

theorem node_id_generated:
  assumes "\<forall>g. \<exists>h\<ge>g. usable src h"
  shows "\<exists>gs pos. GenerateNodeId src n = Some (rev (map (letterAt src) gs), pos) \<and> picked src 0 gs \<and>
    length gs = n \<and> set (map (letterAt src) gs) \<subseteq> {97..122} \<union> {65..90}"
proof -
  obtain gs where gs: "length gs = n" "picked src 0 gs" using picked_exists [OF assms] by blast
  obtain pos where "GenerateNodeId src n = Some (rev (map (letterAt src) gs), pos)"
    using genLoop_picked [OF at_group_start gs(2), of "replicate n 0"] gs(1) by (auto simp: GenerateNodeId_def)
  moreover have "\<forall>h \<in> set gs. usable src h" using gs(2)
    by (induction gs arbitrary: n rule: picked.induct) auto
  then have "set (map (letterAt src) gs) \<subseteq> set letterBytes"
    by (auto simp: letterAt_def usable_def letterBytes_facts(1) [symmetric])
  ultimately show ?thesis using gs letterBytes_facts(2) by blast
qed

theorem node_id_generated_witness:
  "\<exists>gs pos. GenerateNodeId (\<lambda>k. if even k then 1 else 63) 3 = Some (rev (map (letterAt (\<lambda>k. if even k then 1 else 63)) gs), pos)
     \<and> picked (\<lambda>k. if even k then 1 else 63) 0 gs \<and> length gs = 3
     \<and> set (map (letterAt (\<lambda>k. if even k then 1 else 63)) gs) \<subseteq> {97..122} \<union> {65..90}"
proof (rule node_id_generated, intro allI)
  fix g :: nat
  have "usable (\<lambda>k. if even k then 1 else 63) (20 * g)"
    by (simp add: usable_def sourceGroup_def)
  then show "\<exists>h\<ge>g. usable (\<lambda>k. if even k then 1 else 63) h" by (intro exI [of _ "20 * g"]) simp
qed

end
