(* ===== verification/ClusterNode.thy ===== *)
theory ClusterNode
  imports RemoteNode SliceList NodeId BigCache
begin

text \<open>
  The local node of the cluster (\<^verbatim>\<open>Cluster/clusteredBigCache.go\<close>, \<^verbatim>\<open>Cluster/config.go\<close>) and
  the handlers of \<^verbatim>\<open>Cluster/remoteNode.go\<close> that act on it.  Remote nodes are shared through
  pointers, so they live in a store and the registry, the channels and the pending requests
  hold their positions in it; requests of \<^verbatim>\<open>Get\<close> likewise.

  Every handler, and every round of a goroutine's loop, is one function on the node.  What
  the environment decides (the clock, the order in which a map is visited, what the network
  answers, the random source) is an argument.
\<close>

section \<open>State\<close>

definition REPLICATION_MODE_FULL_REPLICATE :: byte where "REPLICATION_MODE_FULL_REPLICATE = 0"
definition clusterStateStarting :: byte where "clusterStateStarting = 2"
definition clusterStateStarted :: byte where "clusterStateStarted = 3"
definition clusterStateEnded :: byte where "clusterStateEnded = 4"
definition clusterModeACTIVE :: byte where "clusterModeACTIVE = 5"
definition clusterModePASSIVE :: byte where "clusterModePASSIVE = 6"

lemmas cluster_consts = clusterStateStarting_def clusterStateStarted_def clusterStateEnded_def
  clusterModeACTIVE_def clusterModePASSIVE_def

datatype clusterError = ErrNotFound | ErrTimedOut | ErrNotStarted | CacheErr cacheError

record ClusteredBigCacheConfig =
  ccId :: gostring
  ccJoin :: bool
  ccJoinIp :: gostring
  ccLocalAddresses :: "gostring list"
  ccLocalPort :: goint
  ccBindAll :: bool
  ccConnectRetries :: goint
  ccTerminateOnListenerExit :: bool
  ccReplicationMode :: byte
  ccReplicationFactor :: goint
  ccWriteAck :: bool
  ccDebugMode :: bool
  ccDebugPort :: goint
  ccReconnectOnDisconnect :: bool
  ccPingFailureThreshHold :: "32 word"
  ccPingInterval :: goint
  ccPingTimeout :: goint
  ccShardSize :: goint

definition DefaultClusterConfig :: ClusteredBigCacheConfig where
  "DefaultClusterConfig =
     \<lparr> ccId = [], ccJoin = False, ccJoinIp = [], ccLocalAddresses = [], ccLocalPort = 9911, ccBindAll = True,
       ccConnectRetries = 5, ccTerminateOnListenerExit = False, ccReplicationMode = REPLICATION_MODE_FULL_REPLICATE,
       ccReplicationFactor = 1, ccWriteAck = True, ccDebugMode = False, ccDebugPort = 0, ccReconnectOnDisconnect = False,
       ccPingFailureThreshHold = 0, ccPingInterval = 0, ccPingTimeout = 0, ccShardSize = 0 \<rparr>"

text \<open>
  A request of \<^verbatim>\<open>Get\<close>: \<open>grWaiting\<close> says that the caller is at its select, \<open>grReply\<close> is
  what it received there, \<open>grDone\<close> that it has closed the channel \<^verbatim>\<open>done\<close>.
\<close>

record getRequestData =
  grKey :: gostring
  grRandStr :: gostring
  grWaiting :: bool
  grReply :: "byte list option"
  grDone :: bool

record ('t, 'u, 'h) ClusteredBigCache =
  nodeConfig :: ClusteredBigCacheConfig
  nodeCache :: "('t, 'u, 'h) BigCache option"
  remoteNodes :: "nat SliceList"
  rnHeap :: "remoteNode list"
  joinQueue :: "ProposedPeer chan"
  pendingConn :: "(gostring \<times> gostring) list"
  getRequestChan :: "(nat \<times> nat) chan"
  replicationChan :: "(nat \<times> NodeMessage) chan"
  clusterState :: byte
  clusterMode :: byte
  serverUp :: bool
  requests :: "getRequestData list"

type_synonym visit_order = "(gostring \<times> nat) list \<Rightarrow> (gostring \<times> nat) list"

definition emptyNode ::
    "ClusteredBigCacheConfig \<Rightarrow> ('t, 'u, 'h) BigCache option \<Rightarrow> byte \<Rightarrow> ('t, 'u, 'h) ClusteredBigCache" where
  "emptyNode c cache mode =
     \<lparr> nodeConfig = c, nodeCache = cache, remoteNodes = NewSliceList, rnHeap = [], joinQueue = makeChan 512,
       pendingConn = [], getRequestChan = makeChan CHAN_SIZE, replicationChan = makeChan CHAN_SIZE,
       clusterState = clusterStateStarting, clusterMode = mode, serverUp = False, requests = [] \<rparr>"

definition cluster_New ::
    "(int, nat, 't) avltree \<Rightarrow> (u64, 'h, 'u) avltree \<Rightarrow> (gostring, 'h) hashset \<Rightarrow> (nat \<Rightarrow> u64) \<Rightarrow> ClusteredBigCacheConfig
     \<Rightarrow> ('t, 'u, 'h) ClusteredBigCache outcome" where
  "cluster_New T U H now c =
     (let cfg = DefaultConfig;
          cfg = cfg\<lparr> Shards := (if sint (ccShardSize c) < 16 then 16 else ccShardSize c) \<rparr>
      in obind (newBigCache T U H now cfg) (\<lambda>r. case r of
          Inl err \<Rightarrow> Panic
        | Inr cache \<Rightarrow> Ret (emptyNode c (Some cache) clusterModeACTIVE)))"

definition NewPassiveClient ::
    "gostring \<Rightarrow> gostring \<Rightarrow> goint \<Rightarrow> goint \<Rightarrow> goint \<Rightarrow> 32 word \<Rightarrow> ('t, 'u, 'h) ClusteredBigCache" where
  "NewPassiveClient id' serverEndpoint localPort pingInterval' pingTimeout' pingFailureThreashold =
     emptyNode (DefaultClusterConfig\<lparr> ccId := id', ccJoin := True, ccJoinIp := serverEndpoint, ccReconnectOnDisconnect := True,
                  ccLocalPort := localPort, ccPingInterval := pingInterval', ccPingTimeout := pingTimeout',
                  ccPingFailureThreshHold := pingFailureThreashold \<rparr>)
       None clusterModePASSIVE"

text \<open>Acting on one remote node in the store.\<close>

definition rn :: "nat \<Rightarrow> ('t, 'u, 'h) ClusteredBigCache \<Rightarrow> remoteNode" where
  "rn r n = rnHeap n ! r"

definition rn_update :: "nat \<Rightarrow> remoteNode \<Rightarrow> ('t, 'u, 'h) ClusteredBigCache \<Rightarrow> ('t, 'u, 'h) ClusteredBigCache" where
  "rn_update r x n = n\<lparr> rnHeap := (rnHeap n)[r := x] \<rparr>"

definition onRn ::
    "(remoteNode \<Rightarrow> remoteNode outcome) \<Rightarrow> nat \<Rightarrow> ('t, 'u, 'h) ClusteredBigCache \<Rightarrow> ('t, 'u, 'h) ClusteredBigCache outcome" where
  "onRn f r n = obind (f (rn r n)) (\<lambda>x. Ret (rn_update r x n))"

definition addRn :: "remoteNode \<Rightarrow> ('t, 'u, 'h) ClusteredBigCache \<Rightarrow> nat \<times> ('t, 'u, 'h) ClusteredBigCache" where
  "addRn x n = (length (rnHeap n), n\<lparr> rnHeap := rnHeap n @ [x] \<rparr>)"

section \<open>Configuration and events\<close>

definition node_checkConfig :: "('t, 'u, 'h) ClusteredBigCache \<Rightarrow> ('t, 'u, 'h) ClusteredBigCache outcome" where
  "node_checkConfig n =
     (let c = nodeConfig n in
      if sint (ccLocalPort c) < 1 then Panic
      else let c = (if sint (ccConnectRetries c) < 1 then c\<lparr> ccConnectRetries := 5 \<rparr> else c)
           in Ret (n\<lparr> nodeConfig := c\<lparr> ccReplicationMode := REPLICATION_MODE_FULL_REPLICATE \<rparr> \<rparr>))"

definition setReplicationFactor :: "goint \<Rightarrow> ('t, 'u, 'h) ClusteredBigCache \<Rightarrow> ('t, 'u, 'h) ClusteredBigCache" where
  "setReplicationFactor rf n =
     (let rf = (if sint rf < 1 then 1 else rf)
      in n\<lparr> nodeConfig := (nodeConfig n)\<lparr> ccReplicationFactor := rf \<rparr> \<rparr>)"

definition eventRemoteNodeDisconneced :: "nat \<Rightarrow> ('t, 'u, 'h) ClusteredBigCache \<Rightarrow> ('t, 'u, 'h) ClusteredBigCache" where
  "eventRemoteNodeDisconneced r n = n\<lparr> remoteNodes := list_Remove (rcId (rconfig (rn r n))) (remoteNodes n) \<rparr>"

definition getRemoteNodes :: "visit_order \<Rightarrow> ('t, 'u, 'h) ClusteredBigCache \<Rightarrow> nat list" where
  "getRemoteNodes order n = list_Values order (remoteNodes n)"

definition eventVerifyRemoteNode :: "nat \<Rightarrow> ('t, 'u, 'h) ClusteredBigCache \<Rightarrow> bool \<times> ('t, 'u, 'h) ClusteredBigCache" where
  "eventVerifyRemoteNode r n =
     (let id' = rcId (rconfig (rn r n)) in
      if list_Contains id' (remoteNodes n) then (False, n)
      else (True, n\<lparr> remoteNodes := list_Add id' (Some r) (remoteNodes n),
                     pendingConn := AList.delete id' (pendingConn n) \<rparr>))"

definition eventUnableToConnect :: "remoteNodeConfig \<Rightarrow> ('t, 'u, 'h) ClusteredBigCache \<Rightarrow> ('t, 'u, 'h) ClusteredBigCache" where
  "eventUnableToConnect c n = n\<lparr> pendingConn := AList.delete (rcId c) (pendingConn n) \<rparr>"

section \<open>Handlers of a remote node\<close>

definition sendVerify :: "nat \<Rightarrow> ('t, 'u, 'h) ClusteredBigCache \<Rightarrow> ('t, 'u, 'h) ClusteredBigCache outcome" where
  "sendVerify r n =
     onRn (sendMessage (VerifyM \<lparr> verifyId = ccId (nodeConfig n), verifyVersion = [],
             verifyServicePort = decimalInt (sint (ccLocalPort (nodeConfig n))), verifyMode = clusterMode n \<rparr>)) r n"

text \<open>
  \<^verbatim>\<open>start\<close> hands the actors to the group and sends the verify message; the actors' own
  steps are \<open>startPingTimer\<close>, \<open>startPingTimeout\<close> and the rounds of the loops.
\<close>

definition rn_start :: "nat \<Rightarrow> ('t, 'u, 'h) ClusteredBigCache \<Rightarrow> ('t, 'u, 'h) ClusteredBigCache outcome" where
  "rn_start r n = sendVerify r n"

text \<open>The goroutine of \<^verbatim>\<open>join\<close>; each element of \<open>dials\<close> answers one attempt to connect.\<close>

fun joinLoop ::
    "((netError + gostring) \<times> arrival list) list \<Rightarrow> goint \<Rightarrow> nat \<Rightarrow> ('t, 'u, 'h) ClusteredBigCache
     \<Rightarrow> ('t, 'u, 'h) ClusteredBigCache outcome" where
  "joinLoop [] tries r n = Blocked"
| "joinLoop ((dial, arrivals) # dials) tries r n =
     (let (err, x) = rn_connect dial arrivals (rn r n); n = rn_update r x n in
      if err = None then rn_start r n
      else if 0 <s rcConnectRetries (rconfig x) then
        (let tries = tries + 1 in
         if rcConnectRetries (rconfig x) \<le>s tries then Ret (eventUnableToConnect (rconfig x) n)
         else joinLoop dials tries r n)
      else joinLoop dials tries r n)"

definition rn_join ::
    "((netError + gostring) \<times> arrival list) list \<Rightarrow> nat \<Rightarrow> ('t, 'u, 'h) ClusteredBigCache
     \<Rightarrow> ('t, 'u, 'h) ClusteredBigCache outcome" where
  "rn_join dials r n = joinLoop dials 0 r (rn_update r (setState nodeStateConnecting (rn r n)) n)"

definition handleVerify ::
    "NodeWireMessage \<Rightarrow> nat \<Rightarrow> ('t, 'u, 'h) ClusteredBigCache \<Rightarrow> (bool \<times> ('t, 'u, 'h) ClusteredBigCache) outcome" where
  "handleVerify msg r n =
     obind (verify_DeSerialize msg \<lparr> verifyId = [], verifyVersion = [], verifyServicePort = [], verifyMode = 0 \<rparr>) (\<lambda>v.
       let x = rn r n;
           x = x\<lparr> rconfig := (rconfig x)\<lparr> rcId := verifyId v, rcServicePort := verifyServicePort v \<rparr>, rmode := verifyMode v \<rparr>;
           n = rn_update r x n
       in if verifyMode v = clusterModePASSIVE \<and> clusterMode n = clusterModePASSIVE then Ret (False, n)
          else let (ok, n) = eventVerifyRemoteNode r n in
               if \<not> ok then Ret (False, n)
               else let x = rn r n;
                        x = (if verifyMode v = clusterModePASSIVE
                             then x\<lparr> rconfig := (rconfig x)\<lparr> rcReconnectOnDisconnect := False \<rparr> \<rparr> else x);
                        x = setState nodeStateConnected x
                    in obind (sendMessage (VerifyOKM VerifyOKMessage) x) (\<lambda>x. Ret (True, rn_update r x n)))"

text \<open>
  The goroutine of \<^verbatim>\<open>handleVerifyOK\<close>: \<open>obs k\<close> is the state it sees at its \<open>k\<close>-th look.  The
  counter when it stops looking is at most five.
\<close>

fun waitHandshake :: "(nat \<Rightarrow> remoteNodeState) \<Rightarrow> nat \<Rightarrow> nat \<Rightarrow> nat" where
  "waitHandshake obs cnt 0 = cnt"
| "waitHandshake obs cnt (Suc left) =
     (if obs cnt \<noteq> nodeStateHandshake then cnt else waitHandshake obs (Suc cnt) left)"

definition handleVerifyOK ::
    "(nat \<Rightarrow> remoteNodeState) \<Rightarrow> nat \<Rightarrow> ('t, 'u, 'h) ClusteredBigCache \<Rightarrow> ('t, 'u, 'h) ClusteredBigCache outcome" where
  "handleVerifyOK obs r n =
     (if waitHandshake obs 0 5 < 5 \<and> rcSync (rconfig (rn r n))
      then onRn (sendMessage (SyncReqM \<lparr> syncReqCode = 0, syncReqMode = clusterMode n \<rparr>)) r n
      else Ret n)"

text \<open>\<^verbatim>\<open>net.SplitHostPort\<close>: the host, empty on an error; \<^verbatim>\<open>net.JoinHostPort\<close>.\<close>

definition lastColon :: "gostring \<Rightarrow> nat option" where
  "lastColon s = List.find (\<lambda>i. s ! i = 0x3A) (rev [0..<length s])"

definition firstByte :: "byte \<Rightarrow> gostring \<Rightarrow> nat option" where
  "firstByte b s = List.find (\<lambda>i. s ! i = b) [0..<length s]"

definition splitHost :: "gostring \<Rightarrow> gostring" where
  "splitHost s =
     (case lastColon s of
        None \<Rightarrow> []
      | Some i \<Rightarrow>
          if s ! 0 = 0x5B then
            (case firstByte 0x5D s of
               None \<Rightarrow> []
             | Some e \<Rightarrow>
                 if Suc e = i \<and> firstByte 0x5B (drop 1 s) = None \<and> firstByte 0x5D (drop (Suc e) s) = None
                 then take (e - 1) (drop 1 s) else [])
          else if firstByte 0x3A (take i s) = None \<and> firstByte 0x5B s = None \<and> firstByte 0x5D s = None
          then take i s else [])"

definition joinHostPort :: "gostring \<Rightarrow> gostring \<Rightarrow> gostring" where
  "joinHostPort host port =
     (if firstByte 0x3A host \<noteq> None then [0x5B] @ host @ [0x5D, 0x3A] @ port else host @ [0x3A] @ port)"

fun proposedPeers :: "('t, 'u, 'h) ClusteredBigCache \<Rightarrow> nat \<Rightarrow> byte \<Rightarrow> nat list \<Rightarrow> ProposedPeer list" where
  "proposedPeers n r mode [] = []"
| "proposedPeers n r mode (v # vs) =
     (let c = rconfig (rn v n) in
      if rcId c = rcId (rconfig (rn r n)) then proposedPeers n r mode vs
      else if rmode (rn v n) = clusterModePASSIVE \<and> mode = clusterModePASSIVE then proposedPeers n r mode vs
      else \<lparr> peerId = rcId c, peerIpAddress = joinHostPort (splitHost (rcIpAddress c)) (rcServicePort c) \<rparr>
           # proposedPeers n r mode vs)"

definition sendSyncResponse ::
    "visit_order \<Rightarrow> SyncReqMessage \<Rightarrow> nat \<Rightarrow> ('t, 'u, 'h) ClusteredBigCache \<Rightarrow> ('t, 'u, 'h) ClusteredBigCache outcome" where
  "sendSyncResponse order msg r n =
     (let nodeList = proposedPeers n r (syncReqMode msg) (getRemoteNodes order n) in
      if nodeList \<noteq> []
      then onRn (sendMessage (SyncRspM \<lparr> syncRspCode = 0, syncRspReplicationFactor = ccReplicationFactor (nodeConfig n),
                                        syncRspList = Some nodeList \<rparr>)) r n
      else Ret n)"

definition handleSyncRequest ::
    "visit_order \<Rightarrow> NodeWireMessage \<Rightarrow> nat \<Rightarrow> ('t, 'u, 'h) ClusteredBigCache \<Rightarrow> ('t, 'u, 'h) ClusteredBigCache outcome" where
  "handleSyncRequest order msg r n =
     obind (syncReq_DeSerialize msg \<lparr> syncReqCode = 0, syncReqMode = 0 \<rparr>) (\<lambda>m. sendSyncResponse order m r n)"

definition handleSyncResponse ::
    "NodeWireMessage \<Rightarrow> nat \<Rightarrow> ('t, 'u, 'h) ClusteredBigCache \<Rightarrow> ('t, 'u, 'h) ClusteredBigCache outcome" where
  "handleSyncResponse msg r n =
     obind (syncRsp_DeSerialize msg \<lparr> syncRspCode = 0, syncRspReplicationFactor = 0, syncRspList = None \<rparr>) (\<lambda>m.
       let n = setReplicationFactor (syncRspReplicationFactor m) n in
       obind (chanSendAll (case syncRspList m of None \<Rightarrow> [] | Some ps \<Rightarrow> ps) (joinQueue n)) (\<lambda>q.
         Ret (n\<lparr> joinQueue := q \<rparr>)))"

definition getData :: "nat \<Rightarrow> nat \<Rightarrow> ('t, 'u, 'h) ClusteredBigCache \<Rightarrow> ('t, 'u, 'h) ClusteredBigCache outcome" where
  "getData req r n =
     (let x = rn r n; q = requests n ! req in
      if rstate x = nodeStateDisconnected then Ret n
      else case pendingGet x of
          None \<Rightarrow> Panic
        | Some ps \<Rightarrow>
            obind (sendMessage (GetReqM \<lparr> reqCode = 0, reqKey = grKey q, reqPendingKey = grKey q @ grRandStr q \<rparr>)
                     (x\<lparr> pendingGet := Some (AList.update (grKey q @ grRandStr q) req ps) \<rparr>)) (\<lambda>x.
              Ret (rn_update r x n)))"

definition handleGetRequest ::
    "NodeWireMessage \<Rightarrow> nat \<Rightarrow> ('t, 'u, 'h) ClusteredBigCache \<Rightarrow> ('t, 'u, 'h) ClusteredBigCache outcome" where
  "handleGetRequest msg r n =
     obind (getReq_DeSerialize msg \<lparr> reqCode = 0, reqKey = [], reqPendingKey = [] \<rparr>) (\<lambda>m.
       case nodeCache n of
         None \<Rightarrow> Panic
       | Some cache \<Rightarrow>
           obind (cache_Get (reqKey m) cache) (\<lambda>(v, cache).
             onRn (sendMessage (GetRspM \<lparr> rspCode = 0, rspPendingKey = reqPendingKey m,
                                          rspData = (case v of Inl _ \<Rightarrow> [] | Inr d \<Rightarrow> d) \<rparr>)) r
               (n\<lparr> nodeCache := Some cache \<rparr>)))"

text \<open>
  The reply channel has no buffer: the send succeeds when the caller of \<^verbatim>\<open>Get\<close> is waiting at
  its select, and otherwise the default case drops the data.
\<close>

definition handleGetResponse ::
    "NodeWireMessage \<Rightarrow> nat \<Rightarrow> ('t, 'u, 'h) ClusteredBigCache \<Rightarrow> ('t, 'u, 'h) ClusteredBigCache outcome" where
  "handleGetResponse msg r n =
     obind (getRsp_DeSerialize msg \<lparr> rspCode = 0, rspPendingKey = [], rspData = [] \<rparr>) (\<lambda>m.
       case pendingGet (rn r n) of
         None \<Rightarrow> Panic
       | Some ps \<Rightarrow>
           (case map_of ps (rspPendingKey m) of
              None \<Rightarrow> Ret n
            | Some req \<Rightarrow>
                let n = rn_update r ((rn r n)\<lparr> pendingGet := Some (AList.delete (rspPendingKey m) ps) \<rparr>) n;
                    q = requests n ! req
                in if length (rspData m) < 1 then Ret n
                   else if grWaiting q \<and> \<not> grDone q
                   then Ret (n\<lparr> requests := (requests n)[req := q\<lparr> grWaiting := False, grReply := Some (rspData m) \<rparr>] \<rparr>)
                   else Ret n))"

text \<open>
  The clock as a handler reads it: the Unix time in nanoseconds, and the three readings that
  \<^verbatim>\<open>Set\<close> of the cache takes.
\<close>

record clock =
  nowNanos :: int
  setEpoch :: u64
  setNow :: u64
  setNow' :: u64

text \<open>\<^verbatim>\<open>time.Unix(int64(expiry), 0).Sub(time.Now())\<close>, which saturates.\<close>

definition untilExpiry :: "u64 \<Rightarrow> int \<Rightarrow> duration" where
  "untilExpiry expiry now =
     (let d = sint expiry * 10 ^ 9 - now in word_of_int (max (- (2 ^ 63)) (min (2 ^ 63 - 1) d)))"

definition handlePut ::
    "clock \<Rightarrow> NodeWireMessage \<Rightarrow> ('t, 'u, 'h) ClusteredBigCache \<Rightarrow> ('t, 'u, 'h) ClusteredBigCache outcome" where
  "handlePut clk msg n =
     obind (put_DeSerialize msg \<lparr> putCode = 0, putKey = [], putExpiry = 0, putData = [] \<rparr>) (\<lambda>m.
       let d = (if putExpiry m = 0 then 0 else untilExpiry (putExpiry m) (nowNanos clk)) in
       case nodeCache n of
         None \<Rightarrow> Panic
       | Some cache \<Rightarrow>
           obind (cache_Set (setEpoch clk) (setNow clk) (setNow' clk) (putKey m) (putData m) d cache) (\<lambda>(_, cache).
             Ret (n\<lparr> nodeCache := Some cache \<rparr>)))"

definition handleDelete ::
    "clock \<Rightarrow> NodeWireMessage \<Rightarrow> ('t, 'u, 'h) ClusteredBigCache \<Rightarrow> ('t, 'u, 'h) ClusteredBigCache outcome" where
  "handleDelete clk msg n =
     obind (del_DeSerialize msg \<lparr> delCode = 0, delKey = [] \<rparr>) (\<lambda>m.
       case nodeCache n of
         None \<Rightarrow> Panic
       | Some cache \<Rightarrow>
           obind (cache_Delete (setNow clk) (delKey m) cache) (\<lambda>(_, cache). Ret (n\<lparr> nodeCache := Some cache \<rparr>)))"

definition onwards :: "'a outcome \<Rightarrow> (bool \<times> 'a) outcome" where
  "onwards m = obind m (\<lambda>n. Ret (True, n))"

definition dispatch ::
    "visit_order \<Rightarrow> (nat \<Rightarrow> remoteNodeState) \<Rightarrow> clock \<Rightarrow> NodeWireMessage \<Rightarrow> nat \<Rightarrow> ('t, 'u, 'h) ClusteredBigCache
     \<Rightarrow> (bool \<times> ('t, 'u, 'h) ClusteredBigCache) outcome" where
  "dispatch order obs clk msg r n =
     (let code = wireCode msg in
      if code = MsgVERIFY then handleVerify msg r n
      else if code = MsgVERIFYOK then onwards (handleVerifyOK obs r n)
      else if code = MsgPING then onwards (onRn handlePing r n)
      else if code = MsgPONG then onwards (onRn handlePong r n)
      else if code = MsgSyncRsp then onwards (handleSyncResponse msg r n)
      else if code = MsgSyncReq then onwards (handleSyncRequest order msg r n)
      else if code = MsgGETReq then onwards (handleGetRequest msg r n)
      else if code = MsgGETRsp then onwards (handleGetResponse msg r n)
      else if code = MsgPUT then onwards (handlePut clk msg n)
      else if code = MsgDEL then onwards (handleDelete clk msg n)
      else Ret (True, n))"

text \<open>One round of \<^verbatim>\<open>handleMessage\<close>; the result says whether the loop goes on.\<close>

definition handleMessage ::
    "visit_order \<Rightarrow> (nat \<Rightarrow> remoteNodeState) \<Rightarrow> clock \<Rightarrow> nat \<Rightarrow> ('t, 'u, 'h) ClusteredBigCache
     \<Rightarrow> (bool \<times> ('t, 'u, 'h) ClusteredBigCache) outcome" where
  "handleMessage order obs clk r n =
     obind (chanRecv (inboundMsgQueue (rn r n))) (\<lambda>(m, ch).
       let n = rn_update r ((rn r n)\<lparr> inboundMsgQueue := ch \<rparr>) n in
       case m of
         None \<Rightarrow> Ret (False, n)
       | Some msg \<Rightarrow>
           if rstate (rn r n) = nodeStateDisconnected then Ret (True, n)
           else dispatch order obs clk msg r n)"

definition tearDown :: "nat \<Rightarrow> ('t, 'u, 'h) ClusteredBigCache \<Rightarrow> ('t, 'u, 'h) ClusteredBigCache outcome" where
  "tearDown r n =
     (let n = eventRemoteNodeDisconneced r n; c = rconfig (rn r n) in
      obind (if rcReconnectOnDisconnect c
             then chanSend \<lparr> peerId = rcId c, peerIpAddress = rcIpAddress c \<rparr> (joinQueue n) else Ret (joinQueue n)) (\<lambda>q.
        let n = n\<lparr> joinQueue := q \<rparr>; x = rn r n in
        Ret (rn_update r (x\<lparr> pingTimeout := map_option (\<lambda>t. snd (timer_Stop t)) (pingTimeout x),
                             pingTimer := map_option (\<lambda>t. snd (timer_Stop t)) (pingTimer x),
                             pendingGet := None \<rparr>) n)))"

section \<open>Starting and stopping\<close>

definition peerConfig :: "ClusteredBigCacheConfig \<Rightarrow> gostring \<Rightarrow> bool \<Rightarrow> bool \<Rightarrow> remoteNodeConfig" where
  "peerConfig c ip sync reconnect =
     \<lparr> rcId = [], rcIpAddress = ip, rcPingFailureThreshHold = ccPingFailureThreshHold c,
       rcPingInterval = ccPingInterval c, rcPingTimeout = ccPingTimeout c, rcConnectRetries = ccConnectRetries c,
       rcServicePort = [], rcSync = sync, rcReconnectOnDisconnect = reconnect \<rparr>"

datatype startError = ListenFailed netError | EmptyJoinIp

text \<open>
  \<^verbatim>\<open>joinCluster\<close> creates the remote node; its goroutine \<open>rn_join\<close> runs on its own.
\<close>

definition joinCluster :: "('t, 'u, 'h) ClusteredBigCache \<Rightarrow> startError option \<times> ('t, 'u, 'h) ClusteredBigCache" where
  "joinCluster n =
     (let c = nodeConfig n in
      if ccJoinIp c = [] then (Some EmptyJoinIp, n)
      else (None, snd (addRn (newRemoteNode (peerConfig c (ccJoinIp c) True (ccReconnectOnDisconnect c))) n)))"

definition bringNodeUp ::
    "netError option \<Rightarrow> ('t, 'u, 'h) ClusteredBigCache \<Rightarrow> startError option \<times> ('t, 'u, 'h) ClusteredBigCache" where
  "bringNodeUp listenErr n =
     (case listenErr of Some e \<Rightarrow> (Some (ListenFailed e), n) | None \<Rightarrow> (None, n\<lparr> serverUp := True \<rparr>))"

definition Start ::
    "(nat \<Rightarrow> u64) \<Rightarrow> netError option \<Rightarrow> ('t, 'u, 'h) ClusteredBigCache
     \<Rightarrow> (startError option \<times> ('t, 'u, 'h) ClusteredBigCache) outcome" where
  "Start src listenErr n =
     obind (node_checkConfig n) (\<lambda>n.
     obind (if ccId (nodeConfig n) = []
            then (case GenerateNodeId src 32 of
                    None \<Rightarrow> Blocked
                  | Some (i, _) \<Rightarrow> Ret (n\<lparr> nodeConfig := (nodeConfig n)\<lparr> ccId := i \<rparr> \<rparr>))
            else Ret n) (\<lambda>n.
       let (err, n) = bringNodeUp listenErr n in
       if err \<noteq> None then Ret (err, n)
       else let (err, n) = (if ccJoin (nodeConfig n) then joinCluster n else (None, n)) in
            if err \<noteq> None then Ret (err, n)
            else Ret (None, n\<lparr> clusterState := clusterStateStarted \<rparr>)))"

fun tearDownAll :: "nat list \<Rightarrow> ('t, 'u, 'h) ClusteredBigCache \<Rightarrow> ('t, 'u, 'h) ClusteredBigCache outcome" where
  "tearDownAll [] n = Ret n"
| "tearDownAll (r # rs) n =
     (let x = rn r n; x = x\<lparr> rconfig := (rconfig x)\<lparr> rcReconnectOnDisconnect := False \<rparr> \<rparr> in
      obind (tearDown r (rn_update r x n)) (tearDownAll rs))"

definition cluster_ShutDown ::
    "visit_order \<Rightarrow> ('t, 'u, 'h) ClusteredBigCache \<Rightarrow> ('t, 'u, 'h) ClusteredBigCache outcome" where
  "cluster_ShutDown order n =
     (let n = n\<lparr> clusterState := clusterStateEnded \<rparr> in
      obind (tearDownAll (list_Values order (remoteNodes n)) n) (\<lambda>n.
      obind (chanClose (joinQueue n)) (\<lambda>jq.
      obind (chanClose (getRequestChan n)) (\<lambda>gq.
      obind (chanClose (replicationChan n)) (\<lambda>rq.
        Ret (n\<lparr> joinQueue := jq, getRequestChan := gq, replicationChan := rq, serverUp := False \<rparr>))))))"

text \<open>
  One round of \<^verbatim>\<open>listen\<close>: \<open>accepted\<close> is an error, or the local and remote address of a new
  connection and what it will deliver.  The result is whether the loop goes on, and the
  number of errors in a row.
\<close>

definition listen ::
    "netError + (gostring \<times> gostring \<times> arrival list) \<Rightarrow> nat \<Rightarrow> ('t, 'u, 'h) ClusteredBigCache
     \<Rightarrow> ((bool \<times> nat) \<times> ('t, 'u, 'h) ClusteredBigCache) outcome" where
  "listen accepted errCount n =
     (case accepted of
        Inl err \<Rightarrow>
          (let errCount = Suc errCount in
           if 5 \<le> errCount
           then if ccTerminateOnListenerExit (nodeConfig n) then Panic else Ret ((False, errCount), n)
           else Ret ((True, errCount), n))
      | Inr (local, remote, arrivals) \<Rightarrow>
          (let x = newRemoteNode (peerConfig (nodeConfig n) remote False False);
               x = setConnection (WrapConnection local remote arrivals) (setState nodeStateHandshake x);
               (r, n) = addRn x n
           in obind (rn_start r n) (\<lambda>n. Ret ((True, 0), n))))"

text \<open>One round of \<^verbatim>\<open>connectToExistingNodes\<close>, with the remote node it created, if any.\<close>

definition connectToExistingNodes ::
    "('t, 'u, 'h) ClusteredBigCache \<Rightarrow> ((bool \<times> nat option) \<times> ('t, 'u, 'h) ClusteredBigCache) outcome" where
  "connectToExistingNodes n =
     obind (chanRecv (joinQueue n)) (\<lambda>(v, q).
       let n = n\<lparr> joinQueue := q \<rparr> in
       case v of
         None \<Rightarrow> Ret ((False, None), n)
       | Some value \<Rightarrow>
           if clusterState n \<noteq> clusterStateStarted then Ret ((True, None), n)
           else if map_of (pendingConn n) (peerId value) \<noteq> None then Ret ((True, None), n)
           else if map_of (list_Keys (remoteNodes n)) (peerId value) \<noteq> None then Ret ((True, None), n)
           else let (r, n) = addRn (newRemoteNode
                      \<lparr> rcId = peerId value, rcIpAddress = peerIpAddress value, rcPingFailureThreshHold = 0,
                        rcPingInterval = 0, rcPingTimeout = 0, rcConnectRetries = ccConnectRetries (nodeConfig n),
                        rcServicePort = [], rcSync = False,
                        rcReconnectOnDisconnect = ccReconnectOnDisconnect (nodeConfig n) \<rparr>) n
                in Ret ((True, Some r),
                        n\<lparr> pendingConn := AList.update (peerId value) (peerIpAddress value) (pendingConn n) \<rparr>))"

section \<open>The interface to the application\<close>

text \<open>The loops over the peers: one message for every peer that is not passive.\<close>

fun toActive :: "('t, 'u, 'h) ClusteredBigCache \<Rightarrow> (nat \<Rightarrow> 'm) \<Rightarrow> nat list \<Rightarrow> 'm list" where
  "toActive n f [] = []"
| "toActive n f (r # rs) =
     (if rmode (rn r n) = clusterModePASSIVE then toActive n f rs else f r # toActive n f rs)"

definition cluster_Put ::
    "visit_order \<Rightarrow> clock \<Rightarrow> gostring \<Rightarrow> byte list \<Rightarrow> duration \<Rightarrow> ('t, 'u, 'h) ClusteredBigCache
     \<Rightarrow> (clusterError option \<times> ('t, 'u, 'h) ClusteredBigCache) outcome" where
  "cluster_Put order clk key data duration n =
     (if clusterState n \<noteq> clusterStateStarted then Ret (Some ErrNotStarted, n)
      else
        obind (if clusterMode n = clusterModeACTIVE then
                 (case nodeCache n of
                    None \<Rightarrow> Panic
                  | Some cache \<Rightarrow>
                      obind (cache_Set (setEpoch clk) (setNow clk) (setNow' clk) key data duration cache) (\<lambda>((expiryTime, err), cache).
                        Ret ((expiryTime, err), n\<lparr> nodeCache := Some cache \<rparr>)))
               else if clusterMode n = clusterModePASSIVE then Ret ((expiryTimestamp (setEpoch clk) duration, None), n)
               else Ret ((NO_EXPIRY, None), n)) (\<lambda>((expiryTime, err), n).
          case err of
            Some e \<Rightarrow> Ret (Some (CacheErr e), n)
          | None \<Rightarrow>
              obind (chanSendAll
                       (toActive n (\<lambda>r. (r, PutM \<lparr> putCode = 0, putKey = key, putExpiry = expiryTime, putData = data \<rparr>))
                         (list_Values order (remoteNodes n)))
                       (replicationChan n)) (\<lambda>q.
                Ret (None, n\<lparr> replicationChan := q \<rparr>))))"

definition cluster_Delete ::
    "visit_order \<Rightarrow> clock \<Rightarrow> gostring \<Rightarrow> ('t, 'u, 'h) ClusteredBigCache
     \<Rightarrow> (clusterError option \<times> ('t, 'u, 'h) ClusteredBigCache) outcome" where
  "cluster_Delete order clk key n =
     (if clusterState n \<noteq> clusterStateStarted then Ret (Some ErrNotStarted, n)
      else
        obind (if clusterMode n = clusterModeACTIVE then
                 (case nodeCache n of
                    None \<Rightarrow> Panic
                  | Some cache \<Rightarrow>
                      obind (cache_Delete (setNow clk) key cache) (\<lambda>(_, cache). Ret (n\<lparr> nodeCache := Some cache \<rparr>)))
               else Ret n) (\<lambda>n.
          obind (chanSendAll
                   (toActive n (\<lambda>r. (r, DeleteM \<lparr> delCode = 0, delKey = key \<rparr>)) (list_Values order (remoteNodes n)))
                   (replicationChan n)) (\<lambda>q.
            Ret (None, n\<lparr> replicationChan := q \<rparr>))))"

text \<open>
  \<^verbatim>\<open>Statistics\<close>: a text on a passive node, and otherwise the counters, which the code formats
  with the verb for quoted characters (not modelled).
\<close>

definition Statistics :: "('t, 'u, 'h) ClusteredBigCache \<Rightarrow> (gostring + Stats) outcome" where
  "Statistics n =
     (if clusterMode n = clusterModeACTIVE then
        (case nodeCache n of None \<Rightarrow> Panic | Some cache \<Rightarrow> Ret (Inr (cache_Stats cache)))
      else Ret (Inl (lit ''No stats for passive mode'')))"

text \<open>
  \<^verbatim>\<open>Get\<close> in three parts: up to its select (an answer, or the number of the request),
  waiting there, and leaving it.
\<close>

definition cluster_Get ::
    "visit_order \<Rightarrow> (nat \<Rightarrow> u64) \<Rightarrow> gostring \<Rightarrow> ('t, 'u, 'h) ClusteredBigCache
     \<Rightarrow> (((clusterError + byte list) + nat) \<times> ('t, 'u, 'h) ClusteredBigCache) outcome" where
  "cluster_Get order src key n =
     (if clusterState n \<noteq> clusterStateStarted then Ret (Inl (Inl ErrNotStarted), n)
      else
        obind (if clusterMode n = clusterModeACTIVE then
                 (case nodeCache n of
                    None \<Rightarrow> Panic
                  | Some cache \<Rightarrow>
                      obind (cache_Get key cache) (\<lambda>(v, cache).
                        Ret (case v of Inl _ \<Rightarrow> None | Inr d \<Rightarrow> Some d, n\<lparr> nodeCache := Some cache \<rparr>)))
               else Ret (None, n)) (\<lambda>(found, n).
          case found of
            Some d \<Rightarrow> Ret (Inl (Inr d), n)
          | None \<Rightarrow>
              let peers = getRemoteNodes order n in
              if length peers < 1 then Ret (Inl (Inl ErrNotFound), n)
              else case GenerateNodeId src 8 of
                  None \<Rightarrow> Blocked
                | Some (randStr, _) \<Rightarrow>
                    let req = length (requests n);
                        q = \<lparr> grKey = key, grRandStr = randStr, grWaiting = False, grReply = None, grDone = False \<rparr>;
                        n = n\<lparr> requests := requests n @ [q] \<rparr>
                    in obind (chanSendAll (toActive n (\<lambda>r. (r, req)) peers) (getRequestChan n)) (\<lambda>ch.
                         Ret (Inr req, n\<lparr> getRequestChan := ch \<rparr>))))"

definition getWait :: "nat \<Rightarrow> ('t, 'u, 'h) ClusteredBigCache \<Rightarrow> ('t, 'u, 'h) ClusteredBigCache" where
  "getWait req n = n\<lparr> requests := (requests n)[req := (requests n ! req)\<lparr> grWaiting := True \<rparr>] \<rparr>"

definition getFinish ::
    "bool \<Rightarrow> nat \<Rightarrow> ('t, 'u, 'h) ClusteredBigCache \<Rightarrow> ((clusterError + byte list) \<times> ('t, 'u, 'h) ClusteredBigCache) outcome" where
  "getFinish timedOut req n =
     (let q = requests n ! req in
      case grReply q of
        Some d \<Rightarrow> Ret (Inr d, n\<lparr> requests := (requests n)[req := q\<lparr> grDone := True \<rparr>] \<rparr>)
      | None \<Rightarrow>
          if timedOut then Ret (Inl ErrTimedOut, n\<lparr> requests := (requests n)[req := q\<lparr> grWaiting := False \<rparr>] \<rparr>)
          else Blocked)"

text \<open>One round of \<^verbatim>\<open>requestSenderForGET\<close> and of \<^verbatim>\<open>replication\<close>.\<close>

definition requestSenderForGET ::
    "('t, 'u, 'h) ClusteredBigCache \<Rightarrow> (bool \<times> ('t, 'u, 'h) ClusteredBigCache) outcome" where
  "requestSenderForGET n =
     obind (chanRecv (getRequestChan n)) (\<lambda>(v, ch).
       let n = n\<lparr> getRequestChan := ch \<rparr> in
       case v of None \<Rightarrow> Ret (False, n) | Some (r, req) \<Rightarrow> onwards (getData req r n))"

definition replication ::
    "('t, 'u, 'h) ClusteredBigCache \<Rightarrow> (bool \<times> ('t, 'u, 'h) ClusteredBigCache) outcome" where
  "replication n =
     obind (chanRecv (replicationChan n)) (\<lambda>(v, ch).
       let n = n\<lparr> replicationChan := ch \<rparr> in
       case v of None \<Rightarrow> Ret (False, n) | Some (r, m) \<Rightarrow> onwards (onRn (sendMessage m) r n))"

end
