(* ===== verification/ClusterInvariant.thy ===== *)
theory ClusterInvariant
  imports ClusterNode
begin

text \<open>
  The node of ClusterNode as a transition system: one step for every call of its interface,
  every round of its goroutines and every move of the network and the timers.  In every state
  such steps reach, the references the node keeps - registered remote nodes, nodes and requests
  waiting in its channels, requests pending at a peer - are ones it has made.
\<close>

section \<open>References stay inside the store\<close>

text \<open>
  Everything that stands for a pointer is a position of the store: the registered nodes, the
  nodes and requests in the channels, and the requests a remote node has pending.
\<close>

definition pend_ok :: "nat \<Rightarrow> remoteNode \<Rightarrow> bool" where
  "pend_ok k x \<longleftrightarrow> (\<forall>ps. pendingGet x = Some ps \<longrightarrow> (\<forall>q \<in> snd ` set ps. q < k))"

definition node_ok :: "('t, 'u, 'h) ClusteredBigCache \<Rightarrow> bool" where
  "node_ok n \<longleftrightarrow>
     list_ok (remoteNodes n) \<and> ran (list_abs (remoteNodes n)) \<subseteq> {..<length (rnHeap n)} \<and>
     fst ` set (chanItems (getRequestChan n)) \<subseteq> {..<length (rnHeap n)} \<and>
     snd ` set (chanItems (getRequestChan n)) \<subseteq> {..<length (requests n)} \<and>
     fst ` set (chanItems (replicationChan n)) \<subseteq> {..<length (rnHeap n)} \<and>
     (\<forall>x \<in> set (rnHeap n). pend_ok (length (requests n)) x)"

named_theorems keeps \<open>what a step leaves alone\<close>

lemma pend_ok_same: "pendingGet x' = pendingGet x \<Longrightarrow> pend_ok k x' = pend_ok k x"
  by (simp add: pend_ok_def)

lemma pend_ok_mono: "pend_ok k x \<Longrightarrow> k \<le> k' \<Longrightarrow> pend_ok k' x"
  by (fastforce simp: pend_ok_def)

lemma sendMessage_pending [keeps]: "sendMessage m x = Ret x' \<Longrightarrow> pendingGet x' = pendingGet x"
  by (auto simp: sendMessage_def obind_eq_Ret split: if_splits)

lemma queueInbound_pending [keeps]: "queueInboundMessage m x = Ret x' \<Longrightarrow> pendingGet x' = pendingGet x"
  by (auto simp: queueInboundMessage_def obind_eq_Ret split: if_splits)

lemma networkSender_pending [keeps]: "networkSender ws x = Ret (b, x') \<Longrightarrow> pendingGet x' = pendingGet x"
  by (auto simp: networkSender_def ret_simps Let_def)

lemma networkConsumer_pending [keeps]: "networkConsumer x = Ret (b, x') \<Longrightarrow> pendingGet x' = pendingGet x"
  by (auto simp: networkConsumer_def ret_simps Let_def dest!: queueInbound_pending)

lemma ping_pending [keeps]:
  "startPingTimer t x = Ret x' \<Longrightarrow> pendingGet x' = pendingGet x"
  "onPingTick t x = Ret x' \<Longrightarrow> pendingGet x' = pendingGet x"
  "onPingTimeout x = Ret (b, x') \<Longrightarrow> pendingGet x' = pendingGet x"
  "handlePing x = Ret x' \<Longrightarrow> pendingGet x' = pendingGet x"
  "handlePong x = Ret x' \<Longrightarrow> pendingGet x' = pendingGet x"
  by (auto simp: startPingTimer_def onPingTick_def onPingTimeout_def handlePing_def handlePong_def obind_eq_Ret Let_def
      split: if_splits option.splits dest!: sendMessage_pending)

lemma interrupts_pending [keeps]: "f \<in> set interrupts \<Longrightarrow> f x = Ret x' \<Longrightarrow> pendingGet x' = pendingGet x"
  by (auto simp: interrupts_def interruptDone_def interruptPing_def interruptConsumer_def interruptHandler_def
      interruptSender_def interruptTearDown_def setState_def obind_eq_Ret split: if_splits option.splits)

subsection \<open>Changing one remote node\<close>

lemma node_ok_rn_update:
  assumes "node_ok n" and "pend_ok (length (requests n)) x"
  shows "node_ok (rn_update r x n)"
  using assms by (auto simp: node_ok_def rn_update_def dest: subsetD [OF set_update_subset_insert])

lemma node_ok_rn: "node_ok n \<Longrightarrow> r < length (rnHeap n) \<Longrightarrow> pend_ok (length (requests n)) (rn r n)"
  by (simp add: node_ok_def rn_def)

lemma rn_update_fields [simp]:
  "remoteNodes (rn_update r x n) = remoteNodes n" "length (rnHeap (rn_update r x n)) = length (rnHeap n)"
  "requests (rn_update r x n) = requests n" "joinQueue (rn_update r x n) = joinQueue n"
  "nodeCache (rn_update r x n) = nodeCache n" "clusterMode (rn_update r x n) = clusterMode n"
  "clusterState (rn_update r x n) = clusterState n" "nodeConfig (rn_update r x n) = nodeConfig n"
  "pendingConn (rn_update r x n) = pendingConn n" "getRequestChan (rn_update r x n) = getRequestChan n"
  "replicationChan (rn_update r x n) = replicationChan n" "serverUp (rn_update r x n) = serverUp n"
  by (simp_all add: rn_update_def)

lemma rn_rn_update: "rn s (rn_update r x n) = (if s = r \<and> r < length (rnHeap n) then x else rn s n)"
  by (cases "r < length (rnHeap n)") (auto simp: rn_def rn_update_def nth_list_update list_update_beyond not_less)

lemma node_ok_onRn:
  assumes "node_ok n" and "r < length (rnHeap n)" and "onRn f r n = Ret n'"
    and "\<And>x'. f (rn r n) = Ret x' \<Longrightarrow> pendingGet x' = pendingGet (rn r n)"
  shows "node_ok n'"
proof -
  obtain x' where "f (rn r n) = Ret x'" "n' = rn_update r x' n" using assms(3) by (auto simp: onRn_def obind_eq_Ret)
  with assms(4) pend_ok_same node_ok_rn [OF assms(1,2)] show ?thesis by (metis node_ok_rn_update [OF assms(1)])
qed

lemma node_ok_irrelevant [simp]:
  "node_ok (n\<lparr> nodeCache := c \<rparr>) = node_ok n" "node_ok (n\<lparr> nodeConfig := cf \<rparr>) = node_ok n"
  "node_ok (n\<lparr> joinQueue := q \<rparr>) = node_ok n" "node_ok (n\<lparr> pendingConn := pc \<rparr>) = node_ok n"
  "node_ok (n\<lparr> clusterState := st \<rparr>) = node_ok n" "node_ok (n\<lparr> serverUp := b \<rparr>) = node_ok n"
  by (simp_all add: node_ok_def)

lemma node_ok_cong:
  assumes "node_ok n" "remoteNodes n' = remoteNodes n" "rnHeap n' = rnHeap n" "requests n' = requests n"
    "chanItems (getRequestChan n') = chanItems (getRequestChan n)" "chanItems (replicationChan n') = chanItems (replicationChan n)"
  shows "node_ok n'"
  using assms by (simp add: node_ok_def)

lemma node_ok_addRn: "node_ok n \<Longrightarrow> node_ok (snd (addRn (newRemoteNode c) n))"
  by (auto simp: node_ok_def addRn_def newRemoteNode_def pend_ok_def)

subsection \<open>The handlers\<close>

lemma ran_upd_subset: "ran (m(k \<mapsto> v)) \<subseteq> insert v (ran m)"
  by (auto simp: ran_def split: if_splits)

lemma eventVerify_ok:
  assumes "node_ok n" and "r < length (rnHeap n)" and "eventVerifyRemoteNode r n = (b, n')"
  shows "node_ok n'" "rnHeap n' = rnHeap n" "requests n' = requests n"
proof -
  show "rnHeap n' = rnHeap n" "requests n' = requests n"
    using assms(3) by (auto simp: eventVerifyRemoteNode_def Let_def split: if_splits)
  show "node_ok n'"
  proof (cases "n' = n")
    case False
    then obtain k pc where n': "n' = n\<lparr> remoteNodes := list_Add k (Some r) (remoteNodes n), pendingConn := pc \<rparr>"
      using assms(3) by (auto simp: eventVerifyRemoteNode_def Let_def split: if_splits)
    have "ran (list_abs (list_Add k (Some r) (remoteNodes n))) \<subseteq> {..<length (rnHeap n)}"
      using ran_upd_subset [of "list_abs (remoteNodes n)" k r] assms(1,2) by (auto simp: list_abs_Add node_ok_def)
    moreover have "list_ok (list_Add k (Some r) (remoteNodes n))" using assms(1) by (simp add: node_ok_def list_ok_Add)
    ultimately show ?thesis using assms(1) unfolding n' by (simp add: node_ok_def)
  qed (use assms(1) in simp)
qed

lemma handleVerify_ok:
  assumes "node_ok n" and "r < length (rnHeap n)" and "handleVerify msg r n = Ret (b, n')"
  shows "node_ok n' \<and> length (rnHeap n') = length (rnHeap n)"
proof -
  obtain v where v: "verify_DeSerialize msg \<lparr> verifyId = [], verifyVersion = [], verifyServicePort = [], verifyMode = 0 \<rparr> = Ret v"
    by (simp add: verify_DeSerialize_def)
  let ?x = "(rn r n)\<lparr> rconfig := (rconfig (rn r n))\<lparr> rcId := verifyId v, rcServicePort := verifyServicePort v \<rparr>, rmode := verifyMode v \<rparr>"
  let ?n = "rn_update r ?x n"
  have ok: "node_ok ?n" using node_ok_rn [OF assms(1,2)] by (intro node_ok_rn_update assms(1)) (simp add: pend_ok_def)
  obtain ok' n1 where e: "eventVerifyRemoteNode r ?n = (ok', n1)" by force
  have n1: "node_ok n1" "rnHeap n1 = rnHeap ?n"
    using eventVerify_ok [OF ok _ e] assms(2) by simp_all
  have h: "handleVerify msg r n =
      (if verifyMode v = clusterModePASSIVE \<and> clusterMode n = clusterModePASSIVE then Ret (False, ?n)
       else if \<not> ok' then Ret (False, n1)
       else let x = (if verifyMode v = clusterModePASSIVE
                     then (rn r n1)\<lparr> rconfig := (rconfig (rn r n1))\<lparr> rcReconnectOnDisconnect := False \<rparr> \<rparr> else rn r n1)
            in obind (sendMessage (VerifyOKM VerifyOKMessage) (setState nodeStateConnected x)) (\<lambda>x. Ret (True, rn_update r x n1)))"
    by (simp add: handleVerify_def v e Let_def)
  have len: "length (rnHeap n1) = length (rnHeap n)" "r < length (rnHeap n1)" using n1(2) assms(2) by simp_all
  have s: "node_ok (rn_update r x' n1)" if "sendMessage (VerifyOKM VerifyOKMessage) (setState nodeStateConnected y) = Ret x'"
    "pendingGet y = pendingGet (rn r n1)" for x' y
    using node_ok_rn [OF n1(1) len(2)] sendMessage_pending [OF that(1)] that(2)
    by (intro node_ok_rn_update n1(1)) (simp add: pend_ok_def setState_def)
  show ?thesis
    using assms(3) ok n1(1) len s by (auto simp: h ret_simps Let_def split: if_splits)
qed

lemma onRn_heap: "onRn f r n = Ret n' \<Longrightarrow> length (rnHeap n') = length (rnHeap n)"
  by (auto simp: onRn_def obind_eq_Ret)

lemma onRn_send_ok:
  assumes "node_ok n" "r < length (rnHeap n)" "onRn (sendMessage m) r n = Ret n'"
  shows "node_ok n'" "length (rnHeap n') = length (rnHeap n)"
  using node_ok_onRn [OF assms(1,2,3)] sendMessage_pending onRn_heap [OF assms(3)] by blast+

lemma sync_ok:
  assumes "node_ok n" "r < length (rnHeap n)"
  shows "handleVerifyOK obs r n = Ret n' \<Longrightarrow> node_ok n' \<and> length (rnHeap n') = length (rnHeap n)"
    and "handleSyncRequest order msg r n = Ret n' \<Longrightarrow> node_ok n' \<and> length (rnHeap n') = length (rnHeap n)"
    and "handleSyncResponse msg r n = Ret n' \<Longrightarrow> node_ok n' \<and> length (rnHeap n') = length (rnHeap n)"
  using assms onRn_send_ok [OF assms]
  by (auto simp: handleVerifyOK_def handleSyncRequest_def sendSyncResponse_def handleSyncResponse_def
      setReplicationFactor_def ret_simps Let_def)

lemma pend_ok_AList:
  "(\<forall>q \<in> snd ` set ps. q < k) \<Longrightarrow> q < k \<Longrightarrow> \<forall>q \<in> snd ` set (AList.update key q ps). q < k"
  "(\<forall>q \<in> snd ` set ps. q < k) \<Longrightarrow> \<forall>q \<in> snd ` set (AList.delete key ps). q < (k::nat)"
proof -
  show "(\<forall>q \<in> snd ` set ps. q < k) \<Longrightarrow> q < k \<Longrightarrow> \<forall>q \<in> snd ` set (AList.update key q ps). q < k"
    by (induction ps) (auto split: if_splits)
  show "(\<forall>q \<in> snd ` set ps. q < k) \<Longrightarrow> \<forall>q \<in> snd ` set (AList.delete key ps). q < k"
    by (auto simp: AList.delete_eq)
qed

lemma getData_ok:
  assumes "node_ok n" "r < length (rnHeap n)" "req < length (requests n)" "getData req r n = Ret n'"
  shows "node_ok n' \<and> length (rnHeap n') = length (rnHeap n)"
proof (cases "n' = n")
  case False
  then obtain ps m x' where x: "pendingGet (rn r n) = Some ps"
    "sendMessage m ((rn r n)\<lparr> pendingGet := Some (AList.update (grKey (requests n ! req) @ grRandStr (requests n ! req)) req ps) \<rparr>) = Ret x'"
    "n' = rn_update r x' n"
    using assms(4) by (auto simp: getData_def ret_simps Let_def)
  have "\<forall>q \<in> snd ` set ps. q < length (requests n)" using node_ok_rn [OF assms(1,2)] x(1) by (simp add: pend_ok_def)
  from pend_ok_AList(1) [OF this assms(3)] sendMessage_pending [OF x(2)]
  have "pend_ok (length (requests n)) x'" by (auto simp: pend_ok_def)
  then show ?thesis using node_ok_rn_update [OF assms(1)] x(3) by simp
qed (use assms(1) in simp)

lemma getRequest_ok:
  assumes "node_ok n" "r < length (rnHeap n)" "handleGetRequest msg r n = Ret n'"
  shows "node_ok n' \<and> length (rnHeap n') = length (rnHeap n)"
proof -
  obtain m cache where s: "onRn (sendMessage m) r (n\<lparr> nodeCache := Some cache \<rparr>) = Ret n'"
    using assms(3) by (auto simp: handleGetRequest_def ret_simps)
  have "node_ok (n\<lparr> nodeCache := Some cache \<rparr>)" using assms(1) by simp
  from onRn_send_ok [OF this _ s] assms(2) show ?thesis by simp
qed

lemma getResponse_ok:
  assumes "node_ok n" "r < length (rnHeap n)" "handleGetResponse msg r n = Ret n'"
  shows "node_ok n' \<and> length (rnHeap n') = length (rnHeap n)"
proof (cases "n' = n")
  case False
  then obtain ps key where p: "pendingGet (rn r n) = Some ps"
    and n': "n' = rn_update r ((rn r n)\<lparr> pendingGet := Some (AList.delete key ps) \<rparr>) n \<or>
      (\<exists>req q. n' = (rn_update r ((rn r n)\<lparr> pendingGet := Some (AList.delete key ps) \<rparr>) n)\<lparr> requests := (requests n)[req := q] \<rparr>)"
    using assms(3) by (auto simp: handleGetResponse_def ret_simps Let_def)
  have "\<forall>q \<in> snd ` set ps. q < length (requests n)" using node_ok_rn [OF assms(1,2)] p by (simp add: pend_ok_def)
  from pend_ok_AList(2) [OF this] have "pend_ok (length (requests n)) ((rn r n)\<lparr> pendingGet := Some (AList.delete key ps) \<rparr>)"
    by (auto simp: pend_ok_def)
  from node_ok_rn_update [OF assms(1) this, of r] show ?thesis using n' by (elim disjE exE) (simp_all add: node_ok_def)
qed (use assms(1) in simp)

lemma data_ok:
  assumes "node_ok n"
  shows "handlePut clk msg n = Ret n' \<Longrightarrow> node_ok n' \<and> length (rnHeap n') = length (rnHeap n)"
    and "handleDelete clk msg n = Ret n' \<Longrightarrow> node_ok n' \<and> length (rnHeap n') = length (rnHeap n)"
  using assms by (auto simp: handlePut_def handleDelete_def ret_simps Let_def)

lemma onwards_Ret: "onwards m = Ret (b, n) \<longleftrightarrow> b \<and> m = Ret n"
  by (auto simp: onwards_def obind_eq_Ret)

lemma ping_ok:
  assumes "node_ok n" "r < length (rnHeap n)"
  shows "onRn handlePing r n = Ret n' \<Longrightarrow> node_ok n' \<and> length (rnHeap n') = length (rnHeap n)"
    and "onRn handlePong r n = Ret n' \<Longrightarrow> node_ok n' \<and> length (rnHeap n') = length (rnHeap n)"
  using node_ok_onRn [OF assms] ping_pending(4,5) onRn_heap by blast+

lemma dispatch_ok:
  assumes "node_ok n" "r < length (rnHeap n)" "dispatch order obs clk msg r n = Ret (b, n')"
  shows "node_ok n' \<and> length (rnHeap n') = length (rnHeap n)"
  using assms(3) unfolding dispatch_def Let_def if_Ret onwards_Ret
  by (elim disjE conjE)
     (erule handleVerify_ok [OF assms(1,2)] sync_ok [OF assms(1,2)] ping_ok [OF assms(1,2)]
        getRequest_ok [OF assms(1,2)] getResponse_ok [OF assms(1,2)] data_ok [OF assms(1)]
      | use assms(1) in \<open>simp; fail\<close>)+

lemma handleMessage_ok:
  assumes "node_ok n" "r < length (rnHeap n)" "handleMessage order obs clk r n = Ret (b, n')"
  shows "node_ok n' \<and> length (rnHeap n') = length (rnHeap n)"
proof -
  obtain m ch where c: "chanRecv (inboundMsgQueue (rn r n)) = Ret (m, ch)"
    using assms(3) by (auto simp: handleMessage_def obind_eq_Ret)
  let ?n = "rn_update r ((rn r n)\<lparr> inboundMsgQueue := ch \<rparr>) n"
  have ok: "node_ok ?n" using node_ok_rn [OF assms(1,2)] by (intro node_ok_rn_update assms(1)) (simp add: pend_ok_def)
  show ?thesis using assms(3) c ok dispatch_ok [OF ok] assms(2)
    by (auto simp: handleMessage_def ret_simps Let_def)
qed

subsection \<open>The node\<close>

lemma tearDown_ok:
  assumes "node_ok n" "r < length (rnHeap n)" "tearDown r n = Ret n'"
  shows "node_ok n' \<and> length (rnHeap n') = length (rnHeap n)"
proof -
  have e: "node_ok (eventRemoteNodeDisconneced r n)" "rnHeap (eventRemoteNodeDisconneced r n) = rnHeap n"
    using assms(1) by (auto simp: eventRemoteNodeDisconneced_def node_ok_def list_ok_Remove list_abs_Remove ran_def)
  let ?m = "\<lambda>q. (eventRemoteNodeDisconneced r n)\<lparr> joinQueue := q \<rparr>"
  let ?x = "\<lambda>q. (rn r (?m q))\<lparr> pingTimeout := map_option (\<lambda>t. snd (timer_Stop t)) (pingTimeout (rn r (?m q))),
    pingTimer := map_option (\<lambda>t. snd (timer_Stop t)) (pingTimer (rn r (?m q))), pendingGet := None \<rparr>"
  obtain q where n': "n' = rn_update r (?x q) (?m q)"
    using assms(3) unfolding tearDown_def Let_def obind_eq_Ret outcome.inject by blast
  have "node_ok ((eventRemoteNodeDisconneced r n)\<lparr> joinQueue := q \<rparr>)" by (rule node_ok_cong [OF e(1)]) simp_all
  from node_ok_rn_update [OF this, of "?x q" r] n' e(2) show ?thesis by (simp add: pend_ok_def)
qed

lemma tearDownAll_ok:
  assumes "node_ok n" "set rs \<subseteq> {..<length (rnHeap n)}" "tearDownAll rs n = Ret n'"
  shows "node_ok n' \<and> length (rnHeap n') = length (rnHeap n)"
  using assms
proof (induction rs arbitrary: n)
  case (Cons r rs)
  let ?n = "rn_update r ((rn r n)\<lparr> rconfig := (rconfig (rn r n))\<lparr> rcReconnectOnDisconnect := False \<rparr> \<rparr>) n"
  have r: "r < length (rnHeap n)" using Cons.prems(2) by simp
  have ok: "node_ok ?n" using node_ok_rn [OF Cons.prems(1) r] by (intro node_ok_rn_update Cons.prems(1)) (simp add: pend_ok_def)
  obtain n1 where n1: "tearDown r ?n = Ret n1" "tearDownAll rs n1 = Ret n'"
    using Cons.prems(3) by (auto simp: obind_eq_Ret Let_def)
  from tearDown_ok [OF ok _ n1(1)] r have "node_ok n1" "length (rnHeap n1) = length (rnHeap n)" by simp_all
  with Cons.IH [OF _ _ n1(2)] Cons.prems(2) show ?case by simp
qed simp

lemma list_Values_in: "(\<And>xs. set (order xs) = set xs) \<Longrightarrow> list_ok l \<Longrightarrow> set (list_Values order l) = ran (list_abs l)"
  by (simp add: list_Values_def list_abs_def list_ok_def ran_distinct)

lemma ShutDown_ok:
  assumes "node_ok n" "\<And>xs. set (order xs) = set xs" "cluster_ShutDown order n = Ret n'"
  shows "node_ok n' \<and> length (rnHeap n') = length (rnHeap n)"
proof -
  let ?n = "n\<lparr> clusterState := clusterStateEnded \<rparr>"
  have ok: "node_ok ?n" by (rule node_ok_cong [OF assms(1)]) simp_all
  have v: "set (list_Values order (remoteNodes n)) \<subseteq> {..<length (rnHeap n)}"
    using list_Values_in [OF assms(2)] assms(1) by (auto simp: node_ok_def)
  obtain n1 where n1: "tearDownAll (list_Values order (remoteNodes n)) ?n = Ret n1"
    "n' = n1\<lparr> joinQueue := joinQueue n', getRequestChan := getRequestChan n', replicationChan := replicationChan n', serverUp := False \<rparr>"
    "chanItems (getRequestChan n') = chanItems (getRequestChan n1)" "chanItems (replicationChan n') = chanItems (replicationChan n1)"
    using assms(3) by (auto simp: cluster_ShutDown_def ret_simps Let_def chanClose_def)
  have "node_ok n1" "length (rnHeap n1) = length (rnHeap n)" using tearDownAll_ok [OF ok _ n1(1)] v by simp_all
  moreover have "remoteNodes n' = remoteNodes n1" "rnHeap n' = rnHeap n1" "requests n' = requests n1"
    by (subst n1(2), simp)+
  ultimately show ?thesis using node_ok_cong n1(3,4) by metis
qed

lemma joinLoop_ok:
  "node_ok n \<Longrightarrow> r < length (rnHeap n) \<Longrightarrow> joinLoop dials tries r n = Ret n' \<Longrightarrow>
   node_ok n' \<and> length (rnHeap n') = length (rnHeap n)"
proof (induction dials tries r n rule: joinLoop.induct)
  case (2 dial arrivals dials tries r n)
  obtain err x where x: "rn_connect dial arrivals (rn r n) = (err, x)" by force
  have "pendingGet x = pendingGet (rn r n)" using x by (auto simp: rn_connect_def setState_def split: sum.splits)
  then have ok: "node_ok (rn_update r x n)"
    using node_ok_rn [OF "2.prems"(1,2)] by (intro node_ok_rn_update "2.prems"(1)) (simp add: pend_ok_def)
  have ev: "node_ok (eventUnableToConnect c (rn_update r x n))" for c
    using ok by (simp add: eventUnableToConnect_def)
  have s: "rn_start r (rn_update r x n) = Ret n' \<Longrightarrow> node_ok n' \<and> length (rnHeap n') = length (rnHeap n)"
    using onRn_send_ok [OF ok] "2.prems"(2) by (simp add: rn_start_def sendVerify_def)
  show ?case
    using "2.prems" "2.IH" x ok ev s by (auto simp: eventUnableToConnect_def Let_def split: if_splits)
qed simp

lemma rn_start_ok:
  "node_ok n \<Longrightarrow> r < length (rnHeap n) \<Longrightarrow> rn_start r n = Ret n' \<Longrightarrow> node_ok n'"
  using onRn_send_ok by (simp add: rn_start_def sendVerify_def)

lemma rn_join_ok:
  assumes "node_ok n" "r < length (rnHeap n)" "rn_join dials r n = Ret n'"
  shows "node_ok n'"
proof -
  have "node_ok (rn_update r (setState nodeStateConnecting (rn r n)) n)"
    using node_ok_rn [OF assms(1,2)] by (intro node_ok_rn_update assms(1)) (simp add: pend_ok_def setState_def)
  from joinLoop_ok [OF this _ assms(3) [unfolded rn_join_def]] assms(2) show ?thesis by simp
qed

lemma node_ok_new: "node_ok n \<Longrightarrow> pendingGet x = Some [] \<Longrightarrow> node_ok (n\<lparr> rnHeap := rnHeap n @ [x] \<rparr>)"
  by (auto simp: node_ok_def pend_ok_def)

lemma listen_ok:
  assumes "node_ok n" "listen accepted k n = Ret (b, n')"
  shows "node_ok n'"
proof (cases accepted)
  case (Inl e)
  then show ?thesis using assms by (auto simp: listen_def Let_def split: if_splits)
next
  case (Inr a)
  obtain l rem arr where a: "a = (l, rem, arr)" by (cases a)
  let ?x = "setConnection (WrapConnection l rem arr) (setState nodeStateHandshake
    (newRemoteNode (peerConfig (nodeConfig n) rem False False)))"
  have "node_ok (n\<lparr> rnHeap := rnHeap n @ [?x] \<rparr>)"
    by (rule node_ok_new [OF assms(1)]) (simp add: setConnection_def setState_def newRemoteNode_def)
  then show ?thesis using assms(2) rn_start_ok
    by (fastforce simp: listen_def Inr a addRn_def obind_eq_Ret Let_def)
qed

lemma connect_ok:
  assumes "node_ok n" "connectToExistingNodes n = Ret (b, n')"
  shows "node_ok n'"
proof -
  have "node_ok (n\<lparr> joinQueue := q, rnHeap := rnHeap n @ [newRemoteNode c] \<rparr>)" for q c
    using node_ok_new [of "n\<lparr> joinQueue := q \<rparr>"] assms(1) by (simp add: newRemoteNode_def)
  then show ?thesis using assms
    by (auto simp: connectToExistingNodes_def ret_simps addRn_def Let_def)
qed

lemma Start_ok:
  assumes "node_ok n" "Start src le n = Ret (e, n')"
  shows "node_ok n'"
proof -
  obtain n1 where n1: "node_checkConfig n = Ret n1" "node_ok n1"
    using assms by (auto simp: Start_def node_checkConfig_def obind_eq_Ret Let_def split: if_splits)
  obtain n2 where n2: "node_ok n2"
    "(let (err, n) = bringNodeUp le n2 in if err \<noteq> None then Ret (err, n)
      else let (err, n) = (if ccJoin (nodeConfig n) then joinCluster n else (None, n)) in
        if err \<noteq> None then Ret (err, n) else Ret (None, n\<lparr> clusterState := clusterStateStarted \<rparr>)) = Ret (e, n')"
  proof (cases "ccId (nodeConfig n1) = []")
    case True
    then obtain i s where "GenerateNodeId src 32 = Some (i, s)"
      using assms(2) n1 by (auto simp: Start_def ret_simps)
    then show ?thesis using that [of "n1\<lparr> nodeConfig := nodeConfig n1\<lparr> ccId := i \<rparr> \<rparr>"] assms(2) n1 True
      by (simp add: Start_def)
  next
    case False
    then show ?thesis using that [of n1] assms(2) n1 by (simp add: Start_def)
  qed
  have n3: "node_ok (n2\<lparr> serverUp := True \<rparr>)" using n2(1) by simp
  have j: "node_ok (snd (joinCluster (n2\<lparr> serverUp := True \<rparr>)))"
    using n3 node_ok_addRn [OF n3] by (auto simp: joinCluster_def Let_def)
  show ?thesis
    using n2 n3 j by (cases "joinCluster (n2\<lparr> serverUp := True \<rparr>)") (auto simp: bringNodeUp_def split: option.splits if_splits)
qed

lemma set_toActive: "set (toActive n f rs) \<subseteq> f ` set rs"
  by (induction rs) auto

definition visits :: "visit_order \<Rightarrow> bool" where
  "visits order \<longleftrightarrow> (\<forall>xs. mset (order xs) = mset xs)"

lemma visits_set: "visits order \<Longrightarrow> set (order xs) = set xs"
  unfolding visits_def by (metis set_mset_mset)

lemma visited_in_range:
  assumes "node_ok n" "visits order"
  shows "set (list_Values order (remoteNodes n)) \<subseteq> {..<length (rnHeap n)}"
  using list_Values_in [OF visits_set [OF assms(2)]] assms(1) by (auto simp: node_ok_def)

lemma node_ok_replicated:
  assumes "node_ok n" "visits order" "remoteNodes m = remoteNodes n"
    "chanSendAll (toActive m (\<lambda>r. (r, msg)) (list_Values order (remoteNodes m))) (replicationChan n) = Ret q"
  shows "node_ok (n\<lparr> replicationChan := q \<rparr>)"
proof -
  have "fst ` set (toActive m (\<lambda>r. (r, msg)) (list_Values order (remoteNodes m))) \<subseteq> {..<length (rnHeap n)}"
    using set_toActive [of m "\<lambda>r. (r, msg)" "list_Values order (remoteNodes m)"] visited_in_range [OF assms(1,2)] assms(3)
    by auto
  then show ?thesis using assms(1) chanSendAll_items [OF assms(4)] by (simp add: node_ok_def image_Un)
qed

lemma Put_ok:
  assumes "node_ok n" "visits order" "cluster_Put order clk key data d n = Ret (e, n')"
  shows "node_ok n'"
proof -
  have "node_ok (n\<lparr> nodeCache := c, replicationChan := q \<rparr>)"
    if "chanSendAll (toActive (n\<lparr> nodeCache := c \<rparr>) (\<lambda>r. (r, msg)) (list_Values order (remoteNodes n))) (replicationChan n) = Ret q" for c q msg
    using node_ok_replicated [of "n\<lparr> nodeCache := c \<rparr>" order "n\<lparr> nodeCache := c \<rparr>" msg q] assms(1,2) that by simp
  moreover have "node_ok (n\<lparr> replicationChan := q \<rparr>)"
    if "chanSendAll (toActive n (\<lambda>r. (r, msg)) (list_Values order (remoteNodes n))) (replicationChan n) = Ret q" for q msg
    using node_ok_replicated [OF assms(1,2) refl that] .
  ultimately show ?thesis using assms(1,3) by (fastforce simp: cluster_Put_def ret_simps)
qed

lemma Delete_ok:
  assumes "node_ok n" "visits order" "cluster_Delete order clk key n = Ret (e, n')"
  shows "node_ok n'"
proof -
  have "node_ok (m\<lparr> replicationChan := q \<rparr>)" if "node_ok m"
    "chanSendAll (toActive m (\<lambda>r. (r, msg)) (list_Values order (remoteNodes m))) (replicationChan m) = Ret q" for m q msg
    using node_ok_replicated [OF that(1) assms(2) refl that(2)] .
  from this [OF assms(1)] this [of "n\<lparr> nodeCache := c \<rparr>" for c] assms(1,3) show ?thesis
    by (fastforce simp: cluster_Delete_def ret_simps)
qed

lemma node_ok_asked:
  assumes "node_ok n" "visits order" "peers = list_Values order (remoteNodes n)"
    "chanSendAll (toActive m (\<lambda>r. (r, length (requests n))) peers) (getRequestChan n) = Ret ch"
  shows "node_ok (n\<lparr> requests := requests n @ [q], getRequestChan := ch \<rparr>)"
proof -
  have "set (chanItems ch) \<subseteq> set (chanItems (getRequestChan n)) \<union> {..<length (rnHeap n)} \<times> {length (requests n)}"
    using chanSendAll_items [OF assms(4)] set_toActive [of m _ peers] visited_in_range [OF assms(1,2)] assms(3)
    by fastforce
  moreover have "\<forall>x \<in> set (rnHeap n). pend_ok (Suc (length (requests n))) x"
    using assms(1) pend_ok_mono by (fastforce simp: node_ok_def)
  ultimately show ?thesis using assms(1) by (fastforce simp: node_ok_def image_iff subset_iff)
qed

lemma Get_ok:
  assumes "node_ok n" "visits order" "cluster_Get order src key n = Ret (v, n')"
  shows "node_ok n'"
proof -
  note asked = node_ok_asked [OF _ assms(2) refl]
  have "node_ok (n\<lparr> nodeCache := c, requests := requests n @ [q], getRequestChan := ch \<rparr>)"
    if "chanSendAll (toActive m (\<lambda>r. (r, length (requests n))) (list_Values order (remoteNodes n))) (getRequestChan n) = Ret ch"
    for c q ch m
    using asked [of "n\<lparr> nodeCache := c \<rparr>" m ch q] assms(1) that by simp
  then show ?thesis using assms(1,3) asked [OF assms(1)]
    by (auto simp: cluster_Get_def ret_simps getRemoteNodes_def Let_def)
qed

lemma replication_ok:
  assumes "node_ok n" "replication n = Ret (b, n')"
  shows "node_ok n'"
proof -
  obtain v ch where c: "chanRecv (replicationChan n) = Ret (v, ch)"
    using assms(2) by (auto simp: replication_def obind_eq_Ret)
  let ?n = "n\<lparr> replicationChan := ch \<rparr>"
  show ?thesis
  proof (cases v)
    case None
    then show ?thesis using assms c chanRecv_None [of "replicationChan n" ch] by (simp add: replication_def)
  next
    case (Some p)
    then have "node_ok ?n" "fst p < length (rnHeap n)"
      using assms(1) chanRecv_Some [OF c [unfolded Some]] by (auto simp: node_ok_def)
    then show ?thesis using assms(2) c Some onRn_send_ok(1) [of ?n "fst p" "snd p"]
      by (auto simp: replication_def onwards_Ret split: prod.splits)
  qed
qed

lemma requestSender_ok:
  assumes "node_ok n" "requestSenderForGET n = Ret (b, n')"
  shows "node_ok n'"
proof -
  obtain v ch where c: "chanRecv (getRequestChan n) = Ret (v, ch)"
    using assms(2) by (auto simp: requestSenderForGET_def obind_eq_Ret)
  let ?n = "n\<lparr> getRequestChan := ch \<rparr>"
  show ?thesis
  proof (cases v)
    case None
    then show ?thesis using assms c chanRecv_None [of "getRequestChan n" ch] by (simp add: requestSenderForGET_def)
  next
    case (Some p)
    then have "node_ok ?n" "fst p < length (rnHeap n)" "snd p < length (requests n)"
      using assms(1) chanRecv_Some [OF c [unfolded Some]] by (auto simp: node_ok_def)
    then show ?thesis using assms(2) c Some getData_ok [of ?n "fst p" "snd p" n']
      by (auto simp: requestSenderForGET_def onwards_Ret split: prod.splits)
  qed
qed

lemma node_ok_request [simp]: "node_ok (n\<lparr> requests := (requests n)[i := q] \<rparr>) = node_ok n"
  by (simp add: node_ok_def)

lemma getFinish_ok: "node_ok n \<Longrightarrow> getFinish timedOut req n = Ret (v, n') \<Longrightarrow> node_ok n'"
  by (auto simp: getFinish_def Let_def split: option.splits if_splits)

lemma getWait_ok: "node_ok n \<Longrightarrow> node_ok (getWait req n)"
  by (simp add: getWait_def)

section \<open>The node as a transition system\<close>

text \<open>
  What a remote node does on its own: a round of the two network loops, bytes or failures
  that arrive, its timers, and the interrupt functions at its end.
\<close>

inductive peer_step :: "remoteNode \<Rightarrow> remoteNode \<Rightarrow> bool" where
  consume: "networkConsumer x = Ret (b, x') \<Longrightarrow> peer_step x x'"
| send: "networkSender writes x = Ret (b, x') \<Longrightarrow> peer_step x x'"
| arrive: "peer_step x (x\<lparr> rconnection := map_option (\<lambda>c. c\<lparr> incoming := incoming c @ as \<rparr>) (rconnection x) \<rparr>)"
| startPing: "startPingTimer now x = Ret x' \<Longrightarrow> peer_step x x'"
| startTimeout: "peer_step x (startPingTimeout now x)"
| ping: "onPingTick now x = Ret x' \<Longrightarrow> peer_step x x'"
| fire: "peer_step x (x\<lparr> pingTimeout := map_option timer_fire (pingTimeout x) \<rparr>)"
| timeout: "onPingTimeout x = Ret (b, x') \<Longrightarrow> peer_step x x'"
| shutDown: "peer_step x (rn_shutDown x)"
| interrupt: "f \<in> set interrupts \<Longrightarrow> f x = Ret x' \<Longrightarrow> peer_step x x'"

text \<open>
  What the node does, one step for every call of its interface and every round of its
  goroutines, in any order; the clock, the network, the random source and the order in which a
  map is visited are free.
\<close>

inductive node_step :: "('t, 'u, 'h) ClusteredBigCache \<Rightarrow> ('t, 'u, 'h) ClusteredBigCache \<Rightarrow> bool" where
  start: "Start src le n = Ret (e, n') \<Longrightarrow> node_step n n'"
| put: "visits order \<Longrightarrow> cluster_Put order clk key data d n = Ret (e, n') \<Longrightarrow> node_step n n'"
| delete: "visits order \<Longrightarrow> cluster_Delete order clk key n = Ret (e, n') \<Longrightarrow> node_step n n'"
| ask: "visits order \<Longrightarrow> cluster_Get order src key n = Ret (v, n') \<Longrightarrow> node_step n n'"
| wait: "req < length (requests n) \<Longrightarrow> node_step n (getWait req n)"
| finish: "req < length (requests n) \<Longrightarrow> getFinish timedOut req n = Ret (a, n') \<Longrightarrow> node_step n n'"
| shutdown: "visits order \<Longrightarrow> cluster_ShutDown order n = Ret n' \<Longrightarrow> node_step n n'"
| accept: "listen accepted k n = Ret (c, n') \<Longrightarrow> node_step n n'"
| connect: "connectToExistingNodes n = Ret (c, n') \<Longrightarrow> node_step n n'"
| join: "r < length (rnHeap n) \<Longrightarrow> rn_join dials r n = Ret n' \<Longrightarrow> node_step n n'"
| handle: "r < length (rnHeap n) \<Longrightarrow> handleMessage order obs clk r n = Ret (b, n') \<Longrightarrow> node_step n n'"
| tearDown: "r < length (rnHeap n) \<Longrightarrow> tearDown r n = Ret n' \<Longrightarrow> node_step n n'"
| peer: "r < length (rnHeap n) \<Longrightarrow> peer_step (rn r n) x \<Longrightarrow> node_step n (rn_update r x n)"
| replicate: "replication n = Ret (b, n') \<Longrightarrow> node_step n n'"
| request: "requestSenderForGET n = Ret (b, n') \<Longrightarrow> node_step n n'"

lemma peer_step_pending: "peer_step x x' \<Longrightarrow> pendingGet x' = pendingGet x"
  by (induction rule: peer_step.induct) (auto simp: rn_shutDown_def startPingTimeout_def dest: keeps)

lemma node_step_ok: "node_step n n' \<Longrightarrow> node_ok n \<Longrightarrow> node_ok n'"
proof (induction rule: node_step.induct)
  case (peer r n x)
  then show ?case
    using node_ok_rn [OF peer.prems peer.hyps(1)] peer_step_pending [OF peer.hyps(2)]
    by (intro node_ok_rn_update) (auto simp: pend_ok_def)
qed (auto dest: Start_ok Put_ok Delete_ok Get_ok getFinish_ok listen_ok connect_ok rn_join_ok
      handleMessage_ok tearDown_ok replication_ok requestSender_ok ShutDown_ok [OF _ visits_set] intro: getWait_ok)

interpretation nodes: kept_invariant node_step node_ok
  by unfold_locales (rule node_step_ok)

lemma node_ok_empty: "node_ok (emptyNode c cache mode)"
  by (simp add: node_ok_def emptyNode_def makeChan_def list_ok_new)


definition sampleClient :: "(unit, unit, unit) ClusteredBigCache" where
  "sampleClient = NewPassiveClient [97] [104] 9000 5 5 5"


end
