(* ===== verification/Replication.thy ===== *)
theory Replication
  imports ClusterInvariant
begin

text \<open>
  Two nodes and the byte stream between them.  A message that one node queues for a peer
  crosses the sender's network loop, the network, the receiver's consumer and its handler;
  on this rest the end-to-end properties of \<^verbatim>\<open>Put\<close>, \<^verbatim>\<open>Delete\<close> and \<^verbatim>\<open>Get\<close> between nodes, and
  what becomes of an expiry time on the way.
\<close>

section \<open>Expiry at a replica\<close>

lemma later_second:
  fixes e now n :: int
  defines "i \<equiv> e * 10 ^ 9 - now"
  assumes "i \<noteq> 0" "\<bar>n\<bar> = \<bar>i\<bar> div 10 ^ 9 \<or> \<bar>n\<bar> = \<bar>i\<bar> div 10 ^ 9 + 1" "0 \<le> n * i"
    "\<bar>i\<bar> mod 10 ^ 9 = 0 \<Longrightarrow> n * 10 ^ 9 = i"
  shows "now div 10 ^ 9 + n = e \<or> now div 10 ^ 9 + n = e - 1"
proof -
  define t f where "t = now div 10 ^ 9" and "f = now mod 10 ^ 9"
  have now: "now = t * 10 ^ 9 + f" "0 \<le> f" "f < 10 ^ 9" by (simp_all add: t_def f_def)
  have i: "i = (e - t) * 10 ^ 9 - f" by (simp add: i_def now(1) algebra_simps)
  show ?thesis
  proof (cases "i < 0")
    case True
    have n: "n \<le> 0" using assms(4) True by (simp add: zero_le_mult_iff)
    have "\<bar>i\<bar> = (t - e) * 10 ^ 9 + f" using True i by (simp add: algebra_simps)
    then have "\<bar>i\<bar> div 10 ^ 9 = t - e" using now(2,3) by simp
    then show ?thesis using assms(3) n unfolding t_def [symmetric] by auto
  next
    case False
    then have n: "0 \<le> n" using assms(2,4) by (simp add: zero_le_mult_iff)
    show ?thesis
    proof (cases "f = 0")
      case True
      then have "n = e - t" using assms(5) i False by simp
      then show ?thesis unfolding t_def [symmetric] by simp
    next
      case nz: False
      have "\<bar>i\<bar> = (e - t - 1) * 10 ^ 9 + (10 ^ 9 - f)" using False i by simp
      then have "\<bar>i\<bar> div 10 ^ 9 = e - t - 1" using now(2,3) nz by simp
      then show ?thesis using assms(3) n unfolding t_def [symmetric] by auto
    qed
  qed
qed



section \<open>Two nodes and the stream between them\<close>

text \<open>
  What one node writes to its connection arrives at the other, in order, in pieces that the
  network chooses (\<open>pieces\<close>); the clock, the order of a map and the looks of the goroutine of
  \<^verbatim>\<open>handleVerifyOK\<close> are those of the receiving node.  \<open>carry\<close> is one round of the sender's
  network loop for its remote node \<open>r\<close>, then one round of the receiver's loops for its remote
  node \<open>s\<close>.
\<close>

definition delivered :: "(byte list \<Rightarrow> byte list list) \<Rightarrow> byte list \<Rightarrow> Connection \<Rightarrow> Connection" where
  "delivered pieces bs c = c\<lparr> incoming := incoming c @ map Bytes (pieces bs) \<rparr>"

definition written :: "remoteNode \<Rightarrow> byte list" where
  "written x = (case rconnection x of None \<Rightarrow> [] | Some c \<Rightarrow> outgoing c)"

definition carry ::
    "(byte list \<Rightarrow> byte list list) \<Rightarrow> (nat \<times> netError option) list \<Rightarrow> visit_order \<Rightarrow> (nat \<Rightarrow> remoteNodeState) \<Rightarrow> clock
     \<Rightarrow> nat \<Rightarrow> ('t, 'u, 'h) ClusteredBigCache \<Rightarrow> nat \<Rightarrow> ('v, 'w, 'k) ClusteredBigCache
     \<Rightarrow> (('t, 'u, 'h) ClusteredBigCache \<times> ('v, 'w, 'k) ClusteredBigCache) outcome" where
  "carry pieces ws order obs clk r a s b =
     obind (networkSender ws (rn r a)) (\<lambda>(_, x).
     let new = drop (length (written (rn r a))) (written x);
         y = rn s b; y = y\<lparr> rconnection := map_option (delivered pieces new) (rconnection y) \<rparr>
     in obind (networkConsumer y) (\<lambda>(_, y).
        obind (handleMessage order obs clk s (rn_update s y b)) (\<lambda>(_, b).
          Ret (rn_update r x a, b))))"

text \<open>A connected peer with nothing under way in either direction.\<close>

definition idle_peer :: "remoteNode \<Rightarrow> bool" where
  "idle_peer x \<longleftrightarrow> rstate x = nodeStateConnected \<and> \<not> doneClosed x \<and>
     chanItems (inboundMsgQueue x) = [] \<and> room 1 (inboundMsgQueue x) \<and>
     chanItems (outboundMsgQueue x) = [] \<and> room 1 (outboundMsgQueue x) \<and>
     (\<exists>c. rconnection x = Some c \<and> conn_ok c \<and> \<not> conn_broken c \<and> pending c = [])"

lemma arriving_append: "firstFault xs = None \<Longrightarrow> arriving (xs @ ys) = arriving xs @ arriving ys"
  by (induction xs rule: arriving.induct) auto

lemma firstFault_append: "firstFault xs = None \<Longrightarrow> firstFault (xs @ ys) = firstFault ys"
  by (induction xs rule: firstFault.induct) auto

lemma arriving_Bytes: "arriving (map Bytes bss) = concat bss" "firstFault (map Bytes bss) = None"
  by (induction bss) auto

lemma delivered_pending:
  assumes "\<not> conn_broken c" "concat (pieces bs) = bs"
  shows "pending (delivered pieces bs c) = pending c @ bs" "conn_ok (delivered pieces bs c) = conn_ok c"
    "\<not> conn_broken (delivered pieces bs c)"
  using assms by (simp_all add: pending_def delivered_def conn_broken_def arriving_append firstFault_append arriving_Bytes conn_ok_def)

lemma networkSender_idle:
  assumes "idle_peer x" "Serialize m = Ret w" "accepts ws (length (wireData w) + 6)"
  shows "\<exists>c. rconnection x = Some c \<and> networkSender ws (x\<lparr> outboundMsgQueue := queued [m] (outboundMsgQueue x) \<rparr>) =
    Ret (True, x\<lparr> rconnection := Some (c\<lparr> outgoing := outgoing c @ frameOf w \<rparr>) \<rparr>)"
proof -
  obtain c where c: "rconnection x = Some c" "isUsable c" using assms(1) by (auto simp: idle_peer_def conn_ok_def)
  have "accepts ws (length (frameOf w))" using assms(3) by (simp add: frameOf_def add.commute)
  from networkSender_frame [OF _ _ assms(2) _ c(2) this, of "x\<lparr> outboundMsgQueue := queued [m] (outboundMsgQueue x) \<rparr>" "[]"]
  show ?thesis using assms(1) c by (simp add: idle_peer_def queued_def)
qed

lemma networkConsumer_idle:
  assumes "idle_peer y" "framable w" "\<And>bs. concat (pieces bs) = bs"
  shows "\<exists>c c'. rconnection y = Some c \<and> idle_peer (y\<lparr> rconnection := Some c' \<rparr>) \<and>
    networkConsumer (y\<lparr> rconnection := map_option (delivered pieces (frameOf w)) (rconnection y) \<rparr>) =
    Ret (True, y\<lparr> rconnection := Some c', inboundMsgQueue := queued [w] (inboundMsgQueue y) \<rparr>)"
proof -
  obtain c where c: "rconnection y = Some c" "conn_ok c" "\<not> conn_broken c" "pending c = []"
    using assms(1) by (auto simp: idle_peer_def)
  let ?c = "delivered pieces (frameOf w) c"
  note d = delivered_pending [of c pieces "frameOf w", OF c(3) assms(3)]
  obtain c' where c': "conn_ok c'" "pending c' = []" "conn_broken c' = conn_broken ?c"
    "networkConsumer (y\<lparr> rconnection := Some ?c \<rparr>) =
      obind (queueInboundMessage w (y\<lparr> rconnection := Some c' \<rparr>)) (\<lambda>r. Ret (True, r))"
    using assms(1) c d by (auto simp: idle_peer_def intro: networkConsumer_frame [of "y\<lparr> rconnection := Some ?c \<rparr>" ?c w "[]", OF _ _ _ _ assms(2)])
  have "idle_peer (y\<lparr> rconnection := Some c' \<rparr>)" using assms(1) c' d by (simp add: idle_peer_def)
  moreover have "networkConsumer (y\<lparr> rconnection := Some ?c \<rparr>) =
    Ret (True, y\<lparr> rconnection := Some c', inboundMsgQueue := queued [w] (inboundMsgQueue y) \<rparr>)"
    using c'(4) queueInbound_connected [of "y\<lparr> rconnection := Some c' \<rparr>" 0 w] assms(1) by (simp add: idle_peer_def)
  ultimately show ?thesis using c(1) by auto
qed

lemma chan_same [simp]: "chanItems ch = xs \<Longrightarrow> ch\<lparr> chanItems := xs \<rparr> = ch"
  by auto

lemma handleMessage_one:
  assumes "s < length (rnHeap b)" "chanItems (inboundMsgQueue y) = []" "rstate y \<noteq> nodeStateDisconnected"
  shows "handleMessage order obs clk s (rn_update s (y\<lparr> inboundMsgQueue := queued [w] (inboundMsgQueue y) \<rparr>) b) =
    dispatch order obs clk w s (rn_update s y b)"
  using assms by (simp add: handleMessage_def chanRecv_def queued_def rn_update_def rn_def Let_def)

text \<open>
  A message queued by the sender: the handler for its kind runs at the receiver, and both
  peers are idle again.
\<close>

lemma carry_message:
  assumes "r < length (rnHeap a)" "idle_peer x" "rn r a = x\<lparr> outboundMsgQueue := queued [m] (outboundMsgQueue x) \<rparr>"
    and "s < length (rnHeap b)" "idle_peer (rn s b)" and w: "Serialize m = Ret w" "framable w"
    and net: "accepts ws (length (wireData w) + 6)" "\<And>bs. concat (pieces bs) = bs"
  obtains ca cb where "idle_peer (x\<lparr> rconnection := Some ca \<rparr>)" "idle_peer ((rn s b)\<lparr> rconnection := Some cb \<rparr>)"
    "carry pieces ws order obs clk r a s b =
      obind (dispatch order obs clk w s (rn_update s ((rn s b)\<lparr> rconnection := Some cb \<rparr>) b)) (\<lambda>(_, b).
        Ret (rn_update r (x\<lparr> rconnection := Some ca \<rparr>) a, b))"
proof -
  obtain c where c: "rconnection x = Some c" "networkSender ws (rn r a) =
      Ret (True, x\<lparr> rconnection := Some (c\<lparr> outgoing := outgoing c @ frameOf w \<rparr>) \<rparr>)"
    using networkSender_idle [OF assms(2) w(1) net(1)] assms(3) by auto
  have wr: "written (rn r a) = outgoing c" using c(1) assms(3) by (simp add: written_def)
  obtain c1 cb where cb: "rconnection (rn s b) = Some c1" "idle_peer ((rn s b)\<lparr> rconnection := Some cb \<rparr>)"
    "networkConsumer ((rn s b)\<lparr> rconnection := map_option (delivered pieces (frameOf w)) (rconnection (rn s b)) \<rparr>) =
    Ret (True, (rn s b)\<lparr> rconnection := Some cb, inboundMsgQueue := queued [w] (inboundMsgQueue (rn s b)) \<rparr>)"
    using networkConsumer_idle [OF assms(5) w(2) net(2)] by blast
  let ?y = "(rn s b)\<lparr> rconnection := Some cb \<rparr>"
  have "idle_peer (x\<lparr> rconnection := Some (c\<lparr> outgoing := outgoing c @ frameOf w \<rparr>) \<rparr>)"
    using assms(2) c(1) by (auto simp: idle_peer_def conn_ok_def conn_broken_def pending_def)
  moreover have "handleMessage order obs clk s (rn_update s (?y\<lparr> inboundMsgQueue := queued [w] (inboundMsgQueue ?y) \<rparr>) b) =
    dispatch order obs clk w s (rn_update s ?y b)"
    using assms(5) by (intro handleMessage_one assms(4)) (auto simp: idle_peer_def)
  ultimately show ?thesis using that [OF _ cb(2)] c cb(3) wr
    by (simp add: carry_def written_def)
qed

text \<open>
  The same from the replication channel: the goroutine hands the message to the peer's queue,
  and it is carried.
\<close>

lemma replication_carries:
  assumes "chanItems (replicationChan a) = (r, m) # rest" and "r < length (rnHeap a)" and "idle_peer (rn r a)"
    and "s < length (rnHeap b)" and "idle_peer (rn s b)" and "Serialize m = Ret w" and "framable w"
    and "accepts ws (length (wireData w) + 6)" and "\<And>bs. concat (pieces bs) = bs"
  obtains a1 a' y where "replication a = Ret (True, a1)" "chanItems (replicationChan a') = rest" "idle_peer (rn r a')" "idle_peer y"
    "carry pieces ws order obs clk r a1 s b =
      obind (dispatch order obs clk w s (rn_update s y b)) (\<lambda>(_, b). Ret (a', b))"
proof -
  let ?x = "rn r a" and ?ch = "(replicationChan a)\<lparr> chanItems := rest \<rparr>"
  let ?a1 = "rn_update r (?x\<lparr> outboundMsgQueue := queued [m] (outboundMsgQueue ?x) \<rparr>) (a\<lparr> replicationChan := ?ch \<rparr>)"
  have a1: "replication a = Ret (True, ?a1)"
    using assms(1,3) sendMessage_room [of ?x 0 m]
    by (simp add: replication_def chanRecv_def onwards_def onRn_def idle_peer_def rn_def)
  obtain ca cb where c: "idle_peer (?x\<lparr> rconnection := Some ca \<rparr>)" "idle_peer ((rn s b)\<lparr> rconnection := Some cb \<rparr>)"
    "carry pieces ws order obs clk r ?a1 s b =
      obind (dispatch order obs clk w s (rn_update s ((rn s b)\<lparr> rconnection := Some cb \<rparr>) b)) (\<lambda>(_, b).
        Ret (rn_update r (?x\<lparr> rconnection := Some ca \<rparr>) ?a1, b))"
    by (rule carry_message [OF _ assms(3) _ assms(4-9), of r ?a1]) (use assms(2) in \<open>simp_all add: rn_rn_update\<close>)
  show ?thesis
    by (rule that [OF a1 _ _ c(2,3)]) (use assms(2) c(1) in \<open>simp_all add: rn_rn_update\<close>)
qed

section \<open>Replication of \<^verbatim>\<open>Put\<close>\<close>

lemma storable_wire:
  assumes "storable (putKey m) (putData m)"
  obtains w where "Serialize (PutM m) = Ret w" "framable w" "wireCode w = MsgPUT"
    "length (wireData w) = length (putKey m) + length (putData m) + 10"
    "\<forall>m0. put_DeSerialize w m0 = Ret (m\<lparr> putCode := MsgPUT \<rparr>)"
proof -
  let ?w = "\<lparr> wireCode = MsgPUT, wireData = putWire m \<rparr>"
  have "put_DeSerialize ?w m0 = Ret (m\<lparr> putCode := MsgPUT \<rparr>)" for m0
    by (rule putM.round_law [OF _ put_Serialize_wire]) (use assms in \<open>simp add: storable_def putShort_def\<close>)
  then show ?thesis using that [of ?w] assms
    by (simp add: put_Serialize_wire framable_def putWire_def storable_def)
qed

lemma handlePut_received:
  assumes "nodeCache b = Some c" "cache_inv c S" "storable (putKey m) (putData m)" "\<forall>m0. put_DeSerialize w m0 = Ret (m\<lparr> putCode := MsgPUT \<rparr>)"
    and "d = (if putExpiry m = 0 then 0 else untilExpiry (putExpiry m) (nowNanos clk))"
  obtains e c' where "cache_Set (setEpoch clk) (setNow clk) (setNow' clk) (putKey m) (putData m) d c = Ret (e, c')"
    "handlePut clk w b = Ret (b\<lparr> nodeCache := Some c' \<rparr>)"
proof -
  obtain e c' where "cache_Set (setEpoch clk) (setNow clk) (setNow' clk) (putKey m) (putData m) d c = Ret (e, c')"
    using cs.store_law [OF assms(2,3)] by blast
  then show ?thesis using that assms(1,4,5) by (cases "putExpiry m = 0") (simp_all add: handlePut_def)
qed

lemma dispatch_PUT: "wireCode w = MsgPUT \<Longrightarrow> dispatch order obs clk w s b = onwards (handlePut clk w b)"
  by (simp add: dispatch_def msg_codes)

text \<open>
  C7.  A \<^verbatim>\<open>Put\<close> on its way to a replica, end to end: when the replication goroutine takes the
  message of an idle, connected peer, the bytes its network loop writes make the peer's
  consumer and handler store, however the network cuts them, exactly this key and value in
  the peer's cache, with the expiry computed there; if the store went well, \<^verbatim>\<open>Get\<close> on the
  replica returns the value.
\<close>

theorem put_reaches_replica:
  assumes "chanItems (replicationChan a) = (r, PutM m) # rest" and "r < length (rnHeap a)" and "idle_peer (rn r a)"
    and "s < length (rnHeap b)" and "idle_peer (rn s b)" and "nodeCache b = Some c" and "cache_inv c S"
    and "storable (putKey m) (putData m)" and "accepts ws (length (putKey m) + length (putData m) + 16)"
    and "\<And>bs. concat (pieces bs) = bs"
    and "d = (if putExpiry m = 0 then 0 else untilExpiry (putExpiry m) (nowNanos clk))"
  shows "\<exists>a1 a' b' e c'. replication a = Ret (True, a1) \<and> carry pieces ws order obs clk r a1 s b = Ret (a', b') \<and>
    chanItems (replicationChan a') = rest \<and> idle_peer (rn r a') \<and> idle_peer (rn s b') \<and> nodeCache b' = Some c' \<and>
    cache_Set (setEpoch clk) (setNow clk) (setNow' clk) (putKey m) (putData m) d c = Ret (e, c') \<and>
    (cache_sound c' \<longrightarrow>
      cache_inv c' (S(hash c (putKey m) \<mapsto> (expiryTimestamp (setEpoch clk) d, putKey m, putData m))) \<and>
      (\<exists>c''. cache_Get (putKey m) c' = Ret (Inr (putData m), c'')))"
proof -
  obtain w where w: "Serialize (PutM m) = Ret w" "framable w" "wireCode w = MsgPUT"
    "length (wireData w) = length (putKey m) + length (putData m) + 10" "\<forall>m0. put_DeSerialize w m0 = Ret (m\<lparr> putCode := MsgPUT \<rparr>)"
    using storable_wire [OF assms(8)] by blast
  have acc: "accepts ws (length (wireData w) + 6)" using assms(9) w(4) by (simp add: ac_simps)
  obtain a1 a' y where a: "replication a = Ret (True, a1)" "chanItems (replicationChan a') = rest" "idle_peer (rn r a')" "idle_peer y"
    "carry pieces ws order obs clk r a1 s b = obind (dispatch order obs clk w s (rn_update s y b)) (\<lambda>(_, b). Ret (a', b))"
    by (rule replication_carries [OF assms(1-5) w(1,2) acc assms(10)])
  have "nodeCache (rn_update s y b) = Some c" using assms(6) by simp
  from handlePut_received [OF this assms(7,8) w(5) assms(11)] obtain e c' where
    s: "cache_Set (setEpoch clk) (setNow clk) (setNow' clk) (putKey m) (putData m) d c = Ret (e, c')"
    "handlePut clk w (rn_update s y b) = Ret ((rn_update s y b)\<lparr> nodeCache := Some c' \<rparr>)" by blast
  let ?b = "(rn_update s y b)\<lparr> nodeCache := Some c' \<rparr>"
  have "carry pieces ws order obs clk r a1 s b = Ret (a', ?b)" using a(5) s(2) w(3) by (simp add: dispatch_PUT onwards_def)
  moreover have "idle_peer (rn s ?b)" "nodeCache ?b = Some c'" using a(4) assms(4) by (simp_all add: rn_def rn_update_def)
  moreover note a(1-3) s(1) cs.store_inv(3) [OF assms(7,8) s(1)] cs.get_after_store(1) [OF assms(7,8) s(1)]
  ultimately show ?thesis by metis
qed

definition samplePeer :: remoteNode where
  "samplePeer = setState nodeStateConnected (setConnection (WrapConnection [] [] [])
     (newRemoteNode \<lparr> rcId = [98], rcIpAddress = [], rcPingFailureThreshHold = 0, rcPingInterval = 0, rcPingTimeout = 0,
        rcConnectRetries = 0, rcServicePort = [], rcSync = False, rcReconnectOnDisconnect = False \<rparr>))"

lemma idle_samplePeer: "idle_peer samplePeer"
  by (simp add: idle_peer_def samplePeer_def setState_def setConnection_def newRemoteNode_def room_def makeChan_def
      CHAN_SIZE_def WrapConnection_def conn_ok_def conn_broken_def pending_def)

definition sampleReplica :: "('t, 'u, 'h) BigCache \<Rightarrow> ('t, 'u, 'h) ClusteredBigCache" where
  "sampleReplica c = (emptyNode DefaultClusterConfig (Some c) clusterModeACTIVE)\<lparr> rnHeap := [samplePeer] \<rparr>"

definition samplePut :: PutMessage where
  "samplePut = \<lparr> putCode = 0, putKey = [107], putExpiry = 150, putData = [1, 2, 3] \<rparr>"

definition samplePutter :: "(unit, unit, unit) ClusteredBigCache" where
  "samplePutter = sampleClient\<lparr> rnHeap := [samplePeer], replicationChan := queued [(0, PutM samplePut)] (makeChan CHAN_SIZE) \<rparr>"

definition sampleClock :: clock where
  "sampleClock = \<lparr> nowNanos = 100 * 10 ^ 9, setEpoch = 100, setNow = 100, setNow' = 100 \<rparr>"

theorem put_reaches_replica_witness:
  "\<exists>c a1 a' b' c' c''. smallCache = Ret (Inr c) \<and> replication samplePutter = Ret (True, a1) \<and>
     carry (map (\<lambda>b. [b])) [(7, None), (99, None)] id (\<lambda>_. nodeStateConnected) sampleClock 0 a1 0 (sampleReplica c) = Ret (a', b') \<and>
     nodeCache b' = Some c' \<and> cache_Get [107] c' = Ret (Inr [1, 2, 3], c'')"
proof -
  obtain c e c' where c: "smallCache = Ret (Inr c)" "cache_inv c Map.empty"
    "cache_Set 100 100 100 [107] [1, 2, 3] (seconds 50) c = Ret (e, c')" "cache_sound c'" "storable [107] [1, 2, 3]"
    by (rule smallCache_set)
  have "seconds 50 = (if putExpiry samplePut = 0 then 0 else untilExpiry (putExpiry samplePut) (nowNanos sampleClock))"
    by code_simp
  from put_reaches_replica [of samplePutter 0 samplePut "[]" 0 "sampleReplica c" c Map.empty "[(7, None), (99, None)]",
      OF _ _ _ _ _ _ c(2) _ _ _ this, of "map (\<lambda>b. [b])" id "\<lambda>_. nodeStateConnected"]
  show ?thesis using c idle_samplePeer
    by (auto simp: samplePutter_def sampleReplica_def samplePut_def sampleClock_def queued_def makeChan_def accepts_def rn_def emptyNode_def)
qed

section \<open>\<^verbatim>\<open>Put\<close> at the node that is asked\<close>

lemma toActive_filter: "toActive n f rs = map f (filter (\<lambda>r. rmode (rn r n) \<noteq> clusterModePASSIVE) rs)"
  by (induction rs) auto

lemma mset_list_Values: "visits order \<Longrightarrow> mset (list_Values order l) = mset (map snd (items l))"
  by (simp add: visits_def list_Values_def)

lemma length_toActive: "visits order \<Longrightarrow> length (toActive n f (list_Values order l)) \<le> length (items l)"
  unfolding toActive_filter length_map
  by (rule order_trans [OF length_filter_le]) (metis length_map mset_list_Values size_mset order_refl)

lemma replicated_room:
  assumes "visits order" "room (length (items l)) ch"
  shows "chanSendAll (toActive n f (list_Values order l)) ch = Ret (queued (toActive n f (list_Values order l)) ch)"
  using chanSendAll_fits [of ch "toActive n f (list_Values order l)"] length_toActive [OF assms(1), of n f l] assms(2)
  by (simp add: room_def queued_def)

text \<open>
  C10.  A \<^verbatim>\<open>Put\<close> on a started, active node stores the entry in its own cache and queues the
  message with this key, value and expiry for replication: once for every registered peer that
  is not passive, and for nobody else.
\<close>

theorem put_replicates_to_each_peer:
  assumes "clusterState n = clusterStateStarted" and "clusterMode n = clusterModeACTIVE" and "nodeCache n = Some c"
    and "cache_inv c S" and "storable key data" and "visits order"
    and "room (length (items (remoteNodes n))) (replicationChan n)"
    and "cache_Set (setEpoch clk) (setNow clk) (setNow' clk) key data d c = Ret (e, c')" and "cache_sound c'"
  shows "\<exists>n' msgs. cluster_Put order clk key data d n = Ret (None, n') \<and> nodeCache n' = Some c' \<and>
    cache_inv c' (S(hash c key \<mapsto> (expiryTimestamp (setEpoch clk) d, key, data))) \<and>
    chanItems (replicationChan n') = chanItems (replicationChan n) @ msgs \<and>
    mset (map fst msgs) = filter_mset (\<lambda>r. rmode (rn r n) \<noteq> clusterModePASSIVE) (mset (map snd (items (remoteNodes n)))) \<and>
    set (map snd msgs) \<subseteq> {PutM \<lparr> putCode = 0, putKey = key, putExpiry = expiryTimestamp (setEpoch clk) d, putData = data \<rparr>}"
proof -
  note s = cs.store_inv [OF assms(4,5,8,9)]
  let ?n = "n\<lparr> nodeCache := Some c' \<rparr>"
  let ?f = "\<lambda>r. (r, PutM \<lparr> putCode = 0, putKey = key, putExpiry = expiryTimestamp (setEpoch clk) d, putData = data \<rparr>)"
  let ?ms = "toActive ?n ?f (list_Values order (remoteNodes n))"
  have "cluster_Put order clk key data d n = Ret (None, ?n\<lparr> replicationChan := queued ?ms (replicationChan n) \<rparr>)"
    using assms(1-3,8) s(1) replicated_room [OF assms(6,7), of ?n ?f] by (simp add: cluster_Put_def)
  moreover have "mset (map fst ?ms) = filter_mset (\<lambda>r. rmode (rn r n) \<noteq> clusterModePASSIVE) (mset (map snd (items (remoteNodes n))))"
    using mset_list_Values [OF assms(6), of "remoteNodes n"] by (simp add: toActive_filter rn_def o_def)
  moreover have "set (map snd ?ms) \<subseteq> {snd (?f 0)}" by (auto simp: toActive_filter)
  ultimately show ?thesis using s(3)
    by (intro exI [of _ "?n\<lparr> replicationChan := queued ?ms (replicationChan n) \<rparr>"] exI [of _ ?ms]) (simp add: queued_def)
qed

definition sampleMember :: "('t, 'u, 'h) BigCache \<Rightarrow> ('t, 'u, 'h) ClusteredBigCache" where
  "sampleMember c = (sampleReplica c)\<lparr> clusterState := clusterStateStarted,
     rnHeap := [samplePeer, samplePeer\<lparr> rmode := clusterModePASSIVE \<rparr>],
     remoteNodes := \<lparr> items = [([98], 0), ([99], 1)], listSize = 2 \<rparr> \<rparr>"

theorem put_replicates_to_each_peer_witness:
  "\<exists>c n' msgs. smallCache = Ret (Inr c) \<and>
     cluster_Put id sampleClock [107] [1, 2, 3] (seconds 50) (sampleMember c) = Ret (None, n') \<and>
     chanItems (replicationChan n') = msgs \<and> mset (map fst msgs) = {#0#}"
proof -
  obtain c e c' where c: "smallCache = Ret (Inr c)" "cache_inv c Map.empty"
    "cache_Set 100 100 100 [107] [1, 2, 3] (seconds 50) c = Ret (e, c')" "cache_sound c'" "storable [107] [1, 2, 3]"
    by (rule smallCache_set)
  have "\<exists>n' msgs. cluster_Put id sampleClock [107] [1, 2, 3] (seconds 50) (sampleMember c) = Ret (None, n') \<and>
      nodeCache n' = Some c' \<and> chanItems (replicationChan n') = [] @ msgs \<and> mset (map fst msgs) = {#0#}"
    using put_replicates_to_each_peer [OF _ _ _ c(2,5) _ _ _ c(4), of "sampleMember c" id sampleClock "seconds 50" e] c(3)
    by (auto simp: sampleMember_def sampleReplica_def emptyNode_def visits_def room_def makeChan_def CHAN_SIZE_def
        sampleClock_def rn_def samplePeer_def setState_def setConnection_def newRemoteNode_def cluster_consts)
  then show ?thesis using c(1) by auto
qed

section \<open>\<^verbatim>\<open>Get\<close> from a peer\<close>

lemma dispatch_GET:
  "wireCode w = MsgGETReq \<Longrightarrow> dispatch order obs clk w s b = onwards (handleGetRequest w s b)"
  "wireCode w = MsgGETRsp \<Longrightarrow> dispatch order obs clk w s b = onwards (handleGetResponse w s b)"
  by (simp_all add: dispatch_def msg_codes)

text \<open>What a peer answers: the value, or nothing when it has none.\<close>

definition peerAnswer :: "gostring \<Rightarrow> ('t, 'u, 'h) BigCache \<Rightarrow> slots \<Rightarrow> byte list" where
  "peerAnswer key c S = (case answer key (S (hash c key)) of Inl _ \<Rightarrow> [] | Inr v \<Rightarrow> v)"

lemma handleGetRequest_answers:
  assumes "nodeCache b = Some c" "cache_inv c S" "s < length (rnHeap b)" "idle_peer (rn s b)"
    and "getReq_Serialize m = Ret (w, m')" "validString (reqKey m)" "validString (reqPendingKey m)"
  obtains c' where "cache_inv c' S" "hash c' = hash c"
    "handleGetRequest w s b = Ret (rn_update s ((rn s b)\<lparr> outboundMsgQueue :=
       queued [GetRspM \<lparr> rspCode = 0, rspPendingKey = reqPendingKey m, rspData = peerAnswer (reqKey m) c S \<rparr>]
         (outboundMsgQueue (rn s b)) \<rparr>) (b\<lparr> nodeCache := Some c' \<rparr>))"
proof -
  obtain c' where c': "cache_Get (reqKey m) c = Ret (answer (reqKey m) (S (hash c (reqKey m))), c')" "cache_inv c' S" "hash c' = hash c"
    using cs.get_law [OF assms(2)] by blast
  have "getReq_DeSerialize w m0 = Ret (m\<lparr> reqCode := MsgGETReq, reqKey := reqKey m, reqPendingKey := reqPendingKey m \<rparr>)" for m0
    using getReqM.round_law [OF _ assms(5), of m0] assms(6,7) by (simp add: coerce_id_iff)
  then show ?thesis
    using that [OF c'(2,3)] c'(1) assms(1,4) sendMessage_room [of "rn s b" 0]
    by (simp add: handleGetRequest_def peerAnswer_def onRn_def rn_def idle_peer_def)
qed

lemma length_request:
  "length (render (getReqJson \<lparr> reqCode = MsgGETReq, reqKey = k, reqPendingKey = p \<rparr>)) \<le> 6 * length k + 6 * length p + 140"
  using length_quoteBody [of k] length_quoteBody [of p] length_quoteBody [of "lit ''code''"]
    length_quoteBody [of "lit ''key''"] length_quoteBody [of "lit ''pending_key''"]
  by (simp add: getReqJson_def quote_def jsonUint_def MsgGETReq_def lit_def decimal.simps del: quoteBody.simps)
lemma request_wire:
  assumes "length k + length p < 2 ^ 24"
  obtains w where "Serialize (GetReqM \<lparr> reqCode = 0, reqKey = k, reqPendingKey = p \<rparr>) = Ret w" "framable w"
    "length (wireData w) \<le> 6 * length k + 6 * length p + 140"
proof -
  let ?w = "\<lparr> wireCode = MsgGETReq, wireData = render (getReqJson \<lparr> reqCode = MsgGETReq, reqKey = k, reqPendingKey = p \<rparr>) \<rparr>"
  have "length (wireData ?w) \<le> 6 * length k + 6 * length p + 140" using length_request by simp
  then show ?thesis using that [of ?w] assms by (simp add: getReq_Serialize_def framable_def Let_def)
qed

text \<open>The first half: the request leaves the asking node and the peer queues its answer.\<close>

definition pendingKeyOf :: "nat \<Rightarrow> ('t, 'u, 'h) ClusteredBigCache \<Rightarrow> gostring" where
  "pendingKeyOf req a = grKey (requests a ! req) @ grRandStr (requests a ! req)"

definition requestOf :: "nat \<Rightarrow> ('t, 'u, 'h) ClusteredBigCache \<Rightarrow> GetReqMessage" where
  "requestOf req a = \<lparr> reqCode = 0, reqKey = grKey (requests a ! req), reqPendingKey = pendingKeyOf req a \<rparr>"

lemma request_carried:
  assumes "chanItems (getRequestChan a) = (r, req) # rest" and "r < length (rnHeap a)" and "idle_peer (rn r a)"
    and "pendingGet (rn r a) = Some ps"
    and "s < length (rnHeap b)" and "idle_peer (rn s b)" and "nodeCache b = Some c" and "cache_inv c S"
    and "validString (grKey (requests a ! req))" and "validString (pendingKeyOf req a)"
    and "Serialize (GetReqM (requestOf req a)) = Ret w" and "framable w" and "accepts ws (length (wireData w) + 6)"
    and "\<And>bs. concat (pieces bs) = bs"
  obtains a1 a2 b1 y where "requestSenderForGET a = Ret (True, a1)" "carry pieces ws order obs clk r a1 s b = Ret (a2, b1)"
    "idle_peer (rn r a2)" "length (rnHeap a2) = length (rnHeap a)" "requests a2 = requests a"
    "pendingGet (rn r a2) = Some (AList.update (pendingKeyOf req a) req ps)"
    "idle_peer y" "rn s b1 = y\<lparr> outboundMsgQueue := queued [GetRspM \<lparr> rspCode = 0, rspPendingKey = pendingKeyOf req a,
       rspData = peerAnswer (grKey (requests a ! req)) c S \<rparr>] (outboundMsgQueue y) \<rparr>"
    "length (rnHeap b1) = length (rnHeap b)"
proof -
  let ?x = "(rn r a)\<lparr> pendingGet := Some (AList.update (pendingKeyOf req a) req ps) \<rparr>"
  let ?ch = "(getRequestChan a)\<lparr> chanItems := rest \<rparr>" and ?m = "GetReqM (requestOf req a)"
  let ?a1 = "rn_update r (?x\<lparr> outboundMsgQueue := queued [?m] (outboundMsgQueue ?x) \<rparr>) (a\<lparr> getRequestChan := ?ch \<rparr>)"
  have idle: "idle_peer ?x" using assms(3) by (simp add: idle_peer_def)
  have a1: "requestSenderForGET a = Ret (True, ?a1)"
    using assms(1,3,4) idle sendMessage_room [of ?x 0 ?m]
    by (simp add: requestSenderForGET_def chanRecv_def onwards_def getData_def idle_peer_def rn_def requestOf_def pendingKeyOf_def Let_def)
  obtain m' where w: "getReq_Serialize (requestOf req a) = Ret (w, m')" "wireCode w = MsgGETReq"
    using assms(11) by (auto simp: getReq_Serialize_def Let_def)
  obtain ca cb where c: "idle_peer (?x\<lparr> rconnection := Some ca \<rparr>)" "idle_peer ((rn s b)\<lparr> rconnection := Some cb \<rparr>)"
    "carry pieces ws order obs clk r ?a1 s b =
      obind (dispatch order obs clk w s (rn_update s ((rn s b)\<lparr> rconnection := Some cb \<rparr>) b)) (\<lambda>(_, b).
        Ret (rn_update r (?x\<lparr> rconnection := Some ca \<rparr>) ?a1, b))"
    by (rule carry_message [OF _ idle _ assms(5,6,11,12,13,14), of r ?a1]) (use assms(2) in \<open>simp_all add: rn_rn_update\<close>)
  let ?y = "(rn s b)\<lparr> rconnection := Some cb \<rparr>"
  let ?b = "rn_update s ?y b"
  have b: "nodeCache ?b = Some c" "s < length (rnHeap ?b)" "rn s ?b = ?y"
    using assms(5,7) by (simp_all add: rn_rn_update)
  obtain c' where h: "handleGetRequest w s ?b = Ret (rn_update s (?y\<lparr> outboundMsgQueue :=
       queued [GetRspM \<lparr> rspCode = 0, rspPendingKey = pendingKeyOf req a, rspData = peerAnswer (grKey (requests a ! req)) c S \<rparr>]
         (outboundMsgQueue ?y) \<rparr>) (?b\<lparr> nodeCache := Some c' \<rparr>))"
    by (rule handleGetRequest_answers [OF b(1) assms(8) b(2) _ w(1)]) (use c(2) b(3) assms(9,10) in \<open>simp_all add: requestOf_def\<close>)
  let ?b1 = "rn_update s (?y\<lparr> outboundMsgQueue :=
       queued [GetRspM \<lparr> rspCode = 0, rspPendingKey = pendingKeyOf req a, rspData = peerAnswer (grKey (requests a ! req)) c S \<rparr>]
         (outboundMsgQueue ?y) \<rparr>) (?b\<lparr> nodeCache := Some c' \<rparr>)"
  show ?thesis
  proof (rule that [OF a1])
    show "carry pieces ws order obs clk r ?a1 s b = Ret (rn_update r (?x\<lparr> rconnection := Some ca \<rparr>) ?a1, ?b1)"
      using c(3) h w(2) by (simp add: dispatch_GET onwards_def)
    show "idle_peer ?y" by (rule c(2))
  qed (use c assms(2,5) in \<open>simp_all add: rn_def rn_update_def\<close>)
qed

text \<open>
  The second half: the answer reaches the asking node.  It is handed over only when the caller
  is waiting; the pending request is forgotten in any case.
\<close>

definition answered :: "nat \<Rightarrow> byte list \<Rightarrow> getRequestData list \<Rightarrow> getRequestData list" where
  "answered req d qs =
     (if d \<noteq> [] \<and> grWaiting (qs ! req) \<and> \<not> grDone (qs ! req)
      then qs[req := (qs ! req)\<lparr> grWaiting := False, grReply := Some d \<rparr>] else qs)"

lemma response_wire:
  assumes "length k < 65534" "length k + length d + 4 < 2 ^ 32"
  obtains w where "Serialize (GetRspM \<lparr> rspCode = 0, rspPendingKey = k, rspData = d \<rparr>) = Ret w" "framable w" "wireCode w = MsgGETRsp"
    "length (wireData w) = length k + length d + 2"
    "\<forall>m0. getRsp_DeSerialize w m0 = Ret \<lparr> rspCode = MsgGETRsp, rspPendingKey = k, rspData = d \<rparr>"
proof -
  let ?m = "\<lparr> rspCode = 0, rspPendingKey = k, rspData = d \<rparr>"
  let ?w = "\<lparr> wireCode = MsgGETRsp, wireData = getRspWire ?m \<rparr>"
  have "getRsp_DeSerialize ?w m0 = Ret \<lparr> rspCode = MsgGETRsp, rspPendingKey = k, rspData = d \<rparr>" for m0
    using getRspM.round_law [OF _ getRsp_Serialize_wire, of ?m m0] assms(1) by (simp add: getRspShort_def)
  then show ?thesis using that [of ?w] assms
    by (simp add: getRsp_Serialize_wire framable_def getRspWire_def)
qed

lemma handleGetResponse_known:
  assumes "\<forall>m0. getRsp_DeSerialize w m0 = Ret \<lparr> rspCode = MsgGETRsp, rspPendingKey = k, rspData = d \<rparr>"
    and "pendingGet (rn r a) = Some ps" "map_of ps k = Some req" "r < length (rnHeap a)"
  shows "\<exists>a'. handleGetResponse w r a = Ret a' \<and> requests a' = answered req d (requests a)"
  using assms by (auto simp: handleGetResponse_def answered_def Let_def)

lemma response_carried:
  assumes "s < length (rnHeap b)" "idle_peer y"
    "rn s b = y\<lparr> outboundMsgQueue := queued [GetRspM \<lparr> rspCode = 0, rspPendingKey = k, rspData = d \<rparr>] (outboundMsgQueue y) \<rparr>"
    and "r < length (rnHeap a)" "idle_peer (rn r a)" "pendingGet (rn r a) = Some ps" "map_of ps k = Some req"
    and "length k < 65534" "length k + length d + 4 < 2 ^ 32" "accepts ws (length k + length d + 8)" "\<And>bs. concat (pieces bs) = bs"
  shows "\<exists>b' a'. carry pieces ws order obs clk s b r a = Ret (b', a') \<and> requests a' = answered req d (requests a)"
proof -
  obtain w where w: "Serialize (GetRspM \<lparr> rspCode = 0, rspPendingKey = k, rspData = d \<rparr>) = Ret w" "framable w" "wireCode w = MsgGETRsp"
    "length (wireData w) = length k + length d + 2"
    "\<forall>m0. getRsp_DeSerialize w m0 = Ret \<lparr> rspCode = MsgGETRsp, rspPendingKey = k, rspData = d \<rparr>"
    using response_wire [OF assms(8,9)] by blast
  have "accepts ws (length (wireData w) + 6)" using assms(10) w(4) by (simp add: add.commute)
  then obtain cb ca where c: "carry pieces ws order obs clk s b r a =
      obind (dispatch order obs clk w r (rn_update r ((rn r a)\<lparr> rconnection := Some ca \<rparr>) a)) (\<lambda>(_, a).
        Ret (rn_update s (y\<lparr> rconnection := Some cb \<rparr>) b, a))"
    using carry_message [OF assms(1-5) w(1,2) _ assms(11)] by metis
  let ?a = "rn_update r ((rn r a)\<lparr> rconnection := Some ca \<rparr>) a"
  have "\<exists>a'. handleGetResponse w r ?a = Ret a' \<and> requests a' = answered req d (requests ?a)"
    by (rule handleGetResponse_known [OF w(5), of r _ ps]) (use assms(4,6,7) in \<open>simp_all add: rn_rn_update\<close>)
  then show ?thesis using c w(3) by (auto simp: dispatch_GET onwards_def)
qed

lemma getWait_fields [simp]:
  "rn r (getWait req n) = rn r n" "rnHeap (getWait req n) = rnHeap n"
  by (simp_all add: getWait_def rn_def)

text \<open>
  C11.  A \<^verbatim>\<open>Get\<close> that goes to a peer, end to end: the request, the peer's answer from its cache
  and the response cross the network, and \<^verbatim>\<open>Get\<close> returns the peer's value - provided it is not
  empty and \<^verbatim>\<open>Get\<close> was already waiting when the response was handled.  A response that is
  handled before (\<open>early\<close>) is lost, as is an empty value, and \<^verbatim>\<open>Get\<close> then times out.
\<close>

theorem remote_get_answer:
  assumes "chanItems (getRequestChan a) = (r, req) # rest" and "r < length (rnHeap a)" and "idle_peer (rn r a)"
    and "pendingGet (rn r a) = Some ps"
    and "s < length (rnHeap b)" and "idle_peer (rn s b)" and "nodeCache b = Some c" and "cache_inv c S"
    and "req < length (requests a)"
    and q: "requests a ! req = \<lparr> grKey = key, grRandStr = rnd, grWaiting = False, grReply = None, grDone = False \<rparr>"
    and "validString key" and "validString (key @ rnd)"
    and "accepts ws (12 * length key + 6 * length rnd + 146)" and "\<And>bs. concat (pieces bs) = bs"
    and d: "d = (case answer key (S (hash c key)) of Inl _ \<Rightarrow> [] | Inr v \<Rightarrow> v)"
    and "length (key @ rnd) < 65534" "length (key @ rnd) + length d + 4 < 2 ^ 32" "accepts ws' (length (key @ rnd) + length d + 8)"
  shows "\<exists>a1 a2 b1 b2 a3 a4. requestSenderForGET a = Ret (True, a1) \<and>
    carry pieces ws order obs clk r a1 s b = Ret (a2, b1) \<and>
    carry pieces ws' order' obs' clk' s b1 r (if early then a2 else getWait req a2) = Ret (b2, a3) \<and>
    getFinish True req (if early then getWait req a3 else a3) = Ret (if early \<or> d = [] then Inl ErrTimedOut else Inr d, a4)"
proof -
  have k: "pendingKeyOf req a = key @ rnd" "requestOf req a = \<lparr> reqCode = 0, reqKey = key, reqPendingKey = key @ rnd \<rparr>"
    "peerAnswer (grKey (requests a ! req)) c S = d"
    by (simp_all add: pendingKeyOf_def requestOf_def q d peerAnswer_def)
  obtain w where w: "Serialize (GetReqM \<lparr> reqCode = 0, reqKey = key, reqPendingKey = key @ rnd \<rparr>) = Ret w" "framable w"
    "length (wireData w) \<le> 6 * length key + 6 * length (key @ rnd) + 140"
    by (rule request_wire [of key "key @ rnd"]) (use assms(16) in auto)
  have v: "validString (grKey (requests a ! req))" "validString (pendingKeyOf req a)" "Serialize (GetReqM (requestOf req a)) = Ret w"
    "accepts ws (length (wireData w) + 6)"
    using assms(11,12) k(1,2) q w by (auto intro: accepts_mono [OF assms(13)])
  obtain a1 a2 b1 y where f: "requestSenderForGET a = Ret (True, a1)" "carry pieces ws order obs clk r a1 s b = Ret (a2, b1)"
    "idle_peer (rn r a2)" "length (rnHeap a2) = length (rnHeap a)" "requests a2 = requests a"
    "pendingGet (rn r a2) = Some (AList.update (key @ rnd) req ps)"
    "idle_peer y" "rn s b1 = y\<lparr> outboundMsgQueue := queued [GetRspM \<lparr> rspCode = 0, rspPendingKey = key @ rnd, rspData = d \<rparr>] (outboundMsgQueue y) \<rparr>"
    "length (rnHeap b1) = length (rnHeap b)"
    by (rule request_carried [OF assms(1-8) v(1-3) w(2) v(4) assms(14), of order obs clk, unfolded k])
  define A where "A = (if early then a2 else getWait req a2)"
  have A: "rn r A = rn r a2" "rnHeap A = rnHeap a2" by (simp_all add: A_def)
  obtain b2 a3 where g: "carry pieces ws' order' obs' clk' s b1 r A = Ret (b2, a3)" "requests a3 = answered req d (requests A)"
    using response_carried [OF _ f(7,8), of r A "AList.update (key @ rnd) req ps" req ws' pieces order' obs' clk']
      f(3,4,6,9) A assms(2,5,14,16-18) by (auto simp: update_conv')
  have "\<exists>a4. getFinish True req (if early then getWait req a3 else a3) = Ret (if early \<or> d = [] then Inl ErrTimedOut else Inr d, a4)"
    using g(2) f(5) q assms(9) by (auto simp: A_def getFinish_def getWait_def answered_def Let_def)
  then show ?thesis using f(1,2) g(1) unfolding A_def by blast
qed

definition sampleAsker :: "(unit, unit, unit) ClusteredBigCache" where
  "sampleAsker = sampleClient\<lparr> rnHeap := [samplePeer], getRequestChan := queued [(0, 0)] (makeChan CHAN_SIZE),
     requests := [\<lparr> grKey = [107], grRandStr = [97, 98], grWaiting = False, grReply = None, grDone = False \<rparr>] \<rparr>"

theorem remote_get_answer_witness:
  "\<exists>c0 e c a1 a2 b1 b2 a3 a4. smallCache = Ret (Inr c0) \<and>
     cache_Set 100 100 100 [107] [1, 2, 3] (seconds 50) c0 = Ret (e, c) \<and> requestSenderForGET sampleAsker = Ret (True, a1) \<and>
     carry (\<lambda>bs. [bs]) [(999, None)] id (\<lambda>_. nodeStateConnected) sampleClock 0 a1 0 (sampleReplica c) = Ret (a2, b1) \<and>
     carry (\<lambda>bs. [bs]) [(999, None)] id (\<lambda>_. nodeStateConnected) sampleClock 0 b1 0 (getWait 0 a2) = Ret (b2, a3) \<and>
     getFinish True 0 a3 = Ret (Inr [1, 2, 3], a4)"
proof -
  obtain c0 e c where c: "smallCache = Ret (Inr c0)" "cache_inv c0 Map.empty"
    "cache_Set 100 100 100 [107] [1, 2, 3] (seconds 50) c0 = Ret (e, c)" "cache_sound c" "storable [107] [1, 2, 3]"
    by (rule smallCache_set)
  note s = cs.store_inv [OF c(2,5,3,4)]
  define S where "S = [hash c0 [107] \<mapsto> (expiryTimestamp 100 (seconds 50), [107 :: byte], [1, 2, 3 :: byte])]"
  have inv: "cache_inv c S" using s(3) by (simp add: S_def)
  have a: "answer [107] (S (hash c [107])) = Inr [1, 2, 3]" by (simp add: S_def s(2) answer_def)
  have v: "validString [107]" "validString ([107] @ [97, 98])"
    by (simp_all add: coerce_ascii flip: coerce_id_iff del: coerce.simps)
  have "\<exists>a1 a2 b1 b2 a3 a4. requestSenderForGET sampleAsker = Ret (True, a1) \<and>
     carry (\<lambda>bs. [bs]) [(999, None)] id (\<lambda>_. nodeStateConnected) sampleClock 0 a1 0 (sampleReplica c) = Ret (a2, b1) \<and>
     carry (\<lambda>bs. [bs]) [(999, None)] id (\<lambda>_. nodeStateConnected) sampleClock 0 b1 0 (if False then a2 else getWait 0 a2) = Ret (b2, a3) \<and>
     getFinish True 0 (if False then getWait 0 a3 else a3) = Ret (if False \<or> [1, 2, 3 :: byte] = [] then Inl ErrTimedOut else Inr [1, 2, 3], a4)"
    by (rule remote_get_answer [where rest = "[]" and ps = "[]" and c = c and S = S and key = "[107]" and rnd = "[97, 98]"])
       (use a inv v idle_samplePeer in \<open>simp_all add: sampleAsker_def sampleReplica_def emptyNode_def rn_def queued_def makeChan_def
          samplePeer_def setState_def setConnection_def newRemoteNode_def accepts_def\<close>)
  then show ?thesis using c(1,3) by auto
qed

section \<open>Replication of \<^verbatim>\<open>Delete\<close>\<close>

lemma dispatch_DEL: "wireCode w = MsgDEL \<Longrightarrow> dispatch order obs clk w s b = onwards (handleDelete clk w b)"
  by (simp add: dispatch_def msg_codes)

lemma delete_wire:
  assumes "length (delKey m) < 2 ^ 24"
  obtains w where "Serialize (DeleteM m) = Ret w" "framable w" "wireCode w = MsgDEL" "length (wireData w) \<le> 6 * length (delKey m) + 80"
    "\<forall>m0. del_DeSerialize w m0 = Ret (m\<lparr> delCode := MsgDEL, delKey := coerce (delKey m) \<rparr>)"
proof -
  let ?m = "m\<lparr> delCode := MsgDEL \<rparr>"
  let ?w = "\<lparr> wireCode = MsgDEL, wireData = render (delJson ?m) \<rparr>"
  have "length (render (delJson ?m)) \<le> 6 * length (delKey m) + 80"
    using length_quoteBody [of "delKey m"] length_quoteBody [of "lit ''code''"] length_quoteBody [of "lit ''key''"]
    by (simp add: delJson_def quote_def jsonUint_def MsgDEL_def lit_def decimal.simps del: quoteBody.simps)
  moreover have s: "del_Serialize m = Ret (?w, ?m)" by (simp add: del_Serialize_def Let_def)
  moreover have "del_DeSerialize ?w m0 = Ret (m\<lparr> delCode := MsgDEL, delKey := coerce (delKey m) \<rparr>)" for m0
    using delM.round_law [OF _ s] by simp
  ultimately show ?thesis using that [of ?w] assms by (simp add: framable_def del: coerce.simps)
qed

text \<open>
  C12.  A \<^verbatim>\<open>Delete\<close> on its way to a replica, end to end: the replica empties the slot of the key as
  it is read from the message, which is the key itself exactly when that is valid UTF-8, and then
  \<^verbatim>\<open>Get\<close> on the replica no longer finds it.  Any other key is read as a different one, and unless their hashes agree the replica
  keeps answering for it as before.
\<close>

theorem delete_reaches_replica:
  assumes "chanItems (replicationChan a) = (r, DeleteM m) # rest" and "r < length (rnHeap a)" and "idle_peer (rn r a)"
    and "s < length (rnHeap b)" and "idle_peer (rn s b)" and "nodeCache b = Some c" and "cache_inv c S"
    and "length (delKey m) < 2 ^ 24" and "accepts ws (6 * length (delKey m) + 86)" and "\<And>bs. concat (pieces bs) = bs"
  shows "\<exists>a1 a' b' c'. replication a = Ret (True, a1) \<and> carry pieces ws order obs clk r a1 s b = Ret (a', b') \<and>
    chanItems (replicationChan a') = rest \<and> nodeCache b' = Some c' \<and>
    cache_inv c' (S(hash c (coerce (delKey m)) := None)) \<and>
    (if validString (delKey m) then \<exists>c''. cache_Get (delKey m) c' = Ret (Inl (NotFound (delKey m)), c'')
     else coerce (delKey m) \<noteq> delKey m \<and> (hash c (coerce (delKey m)) \<noteq> hash c (delKey m) \<longrightarrow>
       (\<exists>c''. cache_Get (delKey m) c' = Ret (answer (delKey m) (S (hash c (delKey m))), c''))))"
proof -
  let ?k = "coerce (delKey m)"
  obtain w where w: "Serialize (DeleteM m) = Ret w" "framable w" "wireCode w = MsgDEL"
    "length (wireData w) \<le> 6 * length (delKey m) + 80" "\<forall>m0. del_DeSerialize w m0 = Ret (m\<lparr> delCode := MsgDEL, delKey := ?k \<rparr>)"
    using delete_wire [OF assms(8)] by blast
  have acc: "accepts ws (length (wireData w) + 6)" by (rule accepts_mono [OF assms(9)]) (use w(4) in simp)
  obtain a1 a' y where a: "replication a = Ret (True, a1)" "chanItems (replicationChan a') = rest"
    "carry pieces ws order obs clk r a1 s b = obind (dispatch order obs clk w s (rn_update s y b)) (\<lambda>(_, b). Ret (a', b))"
    by (rule replication_carries [OF assms(1-5) w(1,2) acc assms(10)])
  obtain e c' where d: "cache_Delete (setNow clk) ?k c = Ret (e, c')" using cs.del_law [OF assms(7)] by blast
  note inv = cs.del_inv [OF assms(7) d]
  let ?b = "(rn_update s y b)\<lparr> nodeCache := Some c' \<rparr>"
  have "carry pieces ws order obs clk r a1 s b = Ret (a', ?b)"
    using a(3) w(3,5) d assms(6) by (simp add: dispatch_DEL handleDelete_def onwards_def del: coerce.simps)
  moreover have "\<exists>c''. cache_Get (delKey m) c' = Ret (answer (delKey m) ((S(hash c ?k := None)) (hash c (delKey m))), c'')"
    using cs.get_law [OF inv(1)] inv(2) by metis
  then have "if validString (delKey m) then \<exists>c''. cache_Get (delKey m) c' = Ret (Inl (NotFound (delKey m)), c'')
     else ?k \<noteq> delKey m \<and> (hash c ?k \<noteq> hash c (delKey m) \<longrightarrow>
       (\<exists>c''. cache_Get (delKey m) c' = Ret (answer (delKey m) (S (hash c (delKey m))), c'')))"
    by (auto simp: answer_def simp flip: coerce_id_iff simp del: coerce.simps)
  moreover have "nodeCache ?b = Some c'" by simp
  moreover note a(1,2) inv(1)
  ultimately show ?thesis by blast
qed

definition sampleDeleter :: "(unit, unit, unit) ClusteredBigCache" where
  "sampleDeleter = sampleClient\<lparr> rnHeap := [samplePeer],
     replicationChan := queued [(0, DeleteM \<lparr> delCode = 0, delKey = [107] \<rparr>)] (makeChan CHAN_SIZE) \<rparr>"

theorem delete_reaches_replica_witness:
  "\<exists>c a1 a' b' c' c''. smallCache = Ret (Inr c) \<and> replication sampleDeleter = Ret (True, a1) \<and>
     carry (map (\<lambda>b. [b])) [(7, None), (999, None)] id (\<lambda>_. nodeStateConnected) sampleClock 0 a1 0 (sampleReplica c) = Ret (a', b') \<and>
     nodeCache b' = Some c' \<and> cache_Get [107] c' = Ret (Inl (NotFound [107]), c'')"
proof -
  obtain c where c: "smallCache = Ret (Inr c)" "cache_inv c Map.empty" by (rule smallCache_inv)
  have v: "validString [107]" by (simp add: coerce_ascii flip: coerce_id_iff del: coerce.simps)
  have "\<exists>a1 a' b' c'. replication sampleDeleter = Ret (True, a1) \<and>
     carry (map (\<lambda>b. [b])) [(7, None), (999, None)] id (\<lambda>_. nodeStateConnected) sampleClock 0 a1 0 (sampleReplica c) = Ret (a', b') \<and>
     nodeCache b' = Some c' \<and> (\<exists>c''. cache_Get [107] c' = Ret (Inl (NotFound [107]), c''))"
    using delete_reaches_replica [of sampleDeleter 0 "\<lparr> delCode = 0, delKey = [107] \<rparr>" "[]" 0 "sampleReplica c" c Map.empty
        "[(7, None), (999, None)]" "map (\<lambda>b. [b])" id "\<lambda>_. nodeStateConnected" sampleClock] c(2) v idle_samplePeer
    by (auto simp: sampleDeleter_def sampleReplica_def emptyNode_def queued_def makeChan_def accepts_def rn_def simp del: coerce.simps)
  then show ?thesis using c(1) by blast
qed

end
