(* ===== verification/Membership.thy ===== *)
theory Membership
  imports Replication
begin

text \<open>
  How nodes join, learn of each other and leave: connection attempts, discovery through the
  sync messages, a second connection to a registered peer, shutting down, and the messages
  that end the process.
\<close>

section \<open>Malformed messages\<close>

text \<open>The end of the key as the decoder computes it, in sixteen bits.\<close>

definition putKeyEnd :: "byte list \<Rightarrow> nat" where
  "putKeyEnd data = unat (10 + (le_get (take 2 (drop 8 data)) :: u16))"

definition malformedPut :: "byte list \<Rightarrow> bool" where
  "malformedPut data \<longleftrightarrow> length data < 10 \<or> putKeyEnd data < 10 \<or> length data < putKeyEnd data"

lemma put_DeSerialize_malformed:
  "put_DeSerialize w m0 =
     (if malformedPut (wireData w) then Panic
      else Ret (m0\<lparr> putCode := MsgPUT, putExpiry := le_get (take 8 (wireData w)),
        putKey := drop 10 (take (putKeyEnd (wireData w)) (wireData w)), putData := drop (putKeyEnd (wireData w)) (wireData w) \<rparr>))"
  by (auto simp: put_DeSerialize_def malformedPut_def putKeyEnd_def Uint64_def Uint16_def goSub_def segment_def drop_take Let_def)



section \<open>Joining\<close>

lemma sint_succ:
  fixes t :: goint
  assumes "0 \<le> sint t" "sint t < 2 ^ 63 - 1"
  shows "sint (t + 1) = sint t + 1"
proof -
  have "sint (word_of_int (sint t + 1) :: goint) = sint t + 1" by (rule sint_word_of_int) (use assms in auto)
  then show ?thesis by simp
qed

lemma rn_update_twice [simp]: "rn_update r x (rn_update r y n) = rn_update r x n"
  by (simp add: rn_update_def)

lemma joinLoop_fails:
  assumes "list_all (\<lambda>(d, _). isl d) dials" "r < length (rnHeap n)" "rcConnectRetries (rconfig (rn r n)) = k"
    "0 \<le> sint tries" "sint tries < sint k"
  shows "joinLoop dials tries r n =
    (if length dials < nat (sint k - sint tries) then Blocked
     else Ret (eventUnableToConnect (rconfig (rn r n)) (rn_update r ((rn r n)\<lparr> rconnection := None \<rparr>) n)))"
  using assms
proof (induction dials arbitrary: tries n)
  case (Cons p dials)
  obtain e arr where p: "p = (Inl e, arr)" using Cons.prems(1) by (cases p) (auto simp: isl_def)
  let ?n = "rn_update r ((rn r n)\<lparr> rconnection := None \<rparr>) n"
  have s: "sint (tries + 1) = sint tries + 1" using Cons.prems(4,5) sint_less [of k] by (intro sint_succ) simp_all
  show ?case
    using Cons.IH [of ?n "tries + 1"] Cons.prems s
    by (auto simp: p rn_connect_def NewConnection_def word_sless_alt word_sle_eq rn_rn_update Let_def)
qed simp

lemma joinLoop_forever:
  assumes "list_all (\<lambda>(d, _). isl d) dials" "r < length (rnHeap n)" "sint (rcConnectRetries (rconfig (rn r n))) \<le> 0"
  shows "joinLoop dials tries r n = Blocked"
  using assms
proof (induction dials arbitrary: n)
  case (Cons p dials)
  obtain e arr where p: "p = (Inl e, arr)" using Cons.prems(1) by (cases p) (auto simp: isl_def)
  show ?case
    using Cons.IH [of "rn_update r ((rn r n)\<lparr> rconnection := None \<rparr>) n"] Cons.prems
    by (simp add: p rn_connect_def NewConnection_def word_sless_alt rn_rn_update Let_def)
qed simp

text \<open>
  C38.  Joining a node that cannot be reached: as long as there have been fewer failed attempts
  than \<^verbatim>\<open>ConnectRetries\<close> it goes on, and after exactly that many it gives up, without a
  connection and with the identity free to be tried again.  With a number that is not positive it
  never gives up.
\<close>

theorem join_gives_up_after_retries:
  assumes "list_all (\<lambda>(d, _). isl d) dials" and "r < length (rnHeap n)" and "k = sint (rcConnectRetries (rconfig (rn r n)))"
  shows "if k \<le> 0 \<or> int (length dials) < k then rn_join dials r n = Blocked
    else \<exists>n'. rn_join dials r n = Ret n' \<and> rconnection (rn r n') = None \<and> rstate (rn r n') = nodeStateConnecting \<and>
      map_of (pendingConn n') (rcId (rconfig (rn r n))) = None"
proof -
  let ?n = "rn_update r (setState nodeStateConnecting (rn r n)) n"
  have n: "r < length (rnHeap ?n)" "rconfig (rn r ?n) = rconfig (rn r n)"
    using assms(2) by (simp_all add: rn_rn_update setState_def)
  show ?thesis
  proof (cases "k \<le> 0")
    case True
    then show ?thesis using joinLoop_forever [OF assms(1) n(1)] n(2) assms(3) by (simp add: rn_join_def)
  next
    case False
    then show ?thesis
      using joinLoop_fails [OF assms(1) n(1) refl, of 0] n(2) assms(2,3)
      by (auto simp: rn_join_def rn_rn_update eventUnableToConnect_def setState_def rn_def rn_update_def delete_conv')
  qed
qed

theorem join_gives_up_after_retries_witness:
  "rn_join [(Inl EOF, []), (Inl EOF, [])] 0 (sampleClient\<lparr> rnHeap := [samplePeer\<lparr> rconfig := (rconfig samplePeer)\<lparr> rcConnectRetries := 3 \<rparr> \<rparr>] \<rparr>) = Blocked \<and>
   (\<exists>n'. rn_join [(Inl EOF, []), (Inl EOF, []), (Inl EOF, [])] 0
     (sampleClient\<lparr> rnHeap := [samplePeer\<lparr> rconfig := (rconfig samplePeer)\<lparr> rcConnectRetries := 3 \<rparr> \<rparr>] \<rparr>) = Ret n' \<and>
     rconnection (rn 0 n') = None)"
  using join_gives_up_after_retries [of "[(Inl EOF, []), (Inl EOF, [])]" 0
      "sampleClient\<lparr> rnHeap := [samplePeer\<lparr> rconfig := (rconfig samplePeer)\<lparr> rcConnectRetries := 3 \<rparr> \<rparr>] \<rparr>" 3]
    join_gives_up_after_retries [of "[(Inl EOF, []), (Inl EOF, []), (Inl EOF, [])]" 0
      "sampleClient\<lparr> rnHeap := [samplePeer\<lparr> rconfig := (rconfig samplePeer)\<lparr> rcConnectRetries := 3 \<rparr> \<rparr>] \<rparr>" 3]
  by (auto simp: rn_def)

section \<open>Two connections to one peer\<close>

lemma handleVerify_known:
  assumes "verify_DeSerialize w \<lparr> verifyId = [], verifyVersion = [], verifyServicePort = [], verifyMode = 0 \<rparr> = Ret v"
    and "list_Contains (verifyId v) (remoteNodes n)" and "r < length (rnHeap n)"
  shows "handleVerify w r n = Ret (False, rn_update r ((rn r n)\<lparr> rconfig := (rconfig (rn r n))\<lparr> rcId := verifyId v,
    rcServicePort := verifyServicePort v \<rparr>, rmode := verifyMode v \<rparr>) n)"
  using assms by (simp add: handleVerify_def eventVerifyRemoteNode_def rn_rn_update Let_def)

text \<open>
  C35.  A second connection from a peer that is registered: its \<^verbatim>\<open>VERIFY\<close> is refused and leaves the
  register alone, but tearing the refused connection down removes the peer's identity from
  the register.  The first connection, which is as good as before, is then no longer among the
  nodes that \<^verbatim>\<open>Put\<close>, \<^verbatim>\<open>Delete\<close> and \<^verbatim>\<open>Get\<close> go to.
\<close>

theorem duplicate_connection_deregisters:
  assumes "list_Get (verifyId m) (remoteNodes n) = Some r0" and "r0 \<noteq> r" and "r < length (rnHeap n)"
    and "validString (verifyId m)" and "verify_Serialize m = Ret (w, m')"
    and "\<not> rcReconnectOnDisconnect (rconfig (rn r n))"
  shows "\<exists>n1 n2. dispatch order obs clk w r n = Ret (False, n1) \<and> remoteNodes n1 = remoteNodes n \<and>
    tearDown r n1 = Ret n2 \<and> list_Get (verifyId m) (remoteNodes n2) = None \<and> rn r0 n2 = rn r0 n"
proof -
  let ?m0 = "\<lparr> verifyId = [], verifyVersion = [], verifyServicePort = [], verifyMode = 0 \<rparr>"
  obtain v where v: "verify_DeSerialize w ?m0 = Ret v" "verifyId v = verifyId m"
    using verifyM.round_law [OF _ assms(5), of ?m0] assms(4) by (auto simp flip: coerce_id_iff)
  have c: "wireCode w = MsgVERIFY" using assms(5) by (auto simp: verify_Serialize_def)
  let ?x = "(rn r n)\<lparr> rconfig := (rconfig (rn r n))\<lparr> rcId := verifyId v, rcServicePort := verifyServicePort v \<rparr>, rmode := verifyMode v \<rparr>"
  have "dispatch order obs clk w r n = Ret (False, rn_update r ?x n)"
    using handleVerify_known [OF v(1) _ assms(3)] assms(1) v(2) c by (simp add: dispatch_def list_Get_def list_Contains_def)
  moreover have "\<exists>n2. tearDown r (rn_update r ?x n) = Ret n2 \<and> list_Get (verifyId m) (remoteNodes n2) = None \<and> rn r0 n2 = rn r0 n"
    using assms(2,3,6) v(2)
    by (simp add: tearDown_def eventRemoteNodeDisconneced_def rn_def rn_update_def Let_def list_Get_abs list_abs_Remove)
  ultimately show ?thesis by (metis rn_update_fields(1))
qed

definition sampleTwice :: "(unit, unit, unit) ClusteredBigCache" where
  "sampleTwice = sampleClient\<lparr> rnHeap := [samplePeer, samplePeer],
     remoteNodes := \<lparr> items = [([98], 0)], listSize = 1 \<rparr> \<rparr>"

theorem duplicate_connection_deregisters_witness:
  "\<exists>w n1 n2. Serialize (VerifyM \<lparr> verifyId = [98], verifyVersion = [], verifyServicePort = [], verifyMode = 5 \<rparr>) = Ret w \<and>
     dispatch id (\<lambda>_. nodeStateConnected) sampleClock w 1 sampleTwice = Ret (False, n1) \<and>
     tearDown 1 n1 = Ret n2 \<and> list_Get [98] (remoteNodes n2) = None \<and> rn 0 n2 = samplePeer"
proof -
  let ?m = "\<lparr> verifyId = [98], verifyVersion = [], verifyServicePort = [], verifyMode = 5 \<rparr>"
  obtain w m' where w: "verify_Serialize ?m = Ret (w, m')" using verifyM.ser_law [of ?m] by blast
  have "\<not> rcReconnectOnDisconnect (rconfig (rn 1 sampleTwice))"
    by (simp add: sampleTwice_def rn_def samplePeer_def setState_def setConnection_def newRemoteNode_def checkConfig_def Let_def)
  moreover have "list_Get (verifyId ?m) (remoteNodes sampleTwice) = Some 0" "1 < length (rnHeap sampleTwice)" "rn 0 sampleTwice = samplePeer"
    by (simp_all add: sampleTwice_def list_Get_def rn_def)
  moreover have "validString (verifyId ?m)" by (simp add: coerce_ascii flip: coerce_id_iff del: coerce.simps)
  ultimately show ?thesis
    using duplicate_connection_deregisters [of ?m sampleTwice 0 1 w m' id "\<lambda>_. nodeStateConnected" sampleClock] w by auto
qed

section \<open>Shutting down\<close>

definition chans_open :: "('t, 'u, 'h) ClusteredBigCache \<Rightarrow> bool" where
  "chans_open n \<longleftrightarrow> \<not> chanClosed (joinQueue n) \<and> \<not> chanClosed (getRequestChan n) \<and> \<not> chanClosed (replicationChan n)"

lemma tearDown_quiet:
  assumes "\<not> rcReconnectOnDisconnect (rconfig (rn r n))"
  shows "\<exists>n'. tearDown r n = Ret n' \<and> joinQueue n' = joinQueue n \<and> getRequestChan n' = getRequestChan n \<and>
    replicationChan n' = replicationChan n \<and> clusterState n' = clusterState n \<and> length (rnHeap n') = length (rnHeap n) \<and>
    (r < length (rnHeap n) \<longrightarrow> pendingGet (rn r n') = None) \<and>
    (\<forall>s. s \<noteq> r \<longrightarrow> rn s n' = rn s n)"
  using assms by (simp add: tearDown_def eventRemoteNodeDisconneced_def rn_def rn_update_def Let_def)

lemma tearDownAll_quiet:
  assumes "set rs \<subseteq> {..<length (rnHeap n)}"
  shows "\<exists>n'. tearDownAll rs n = Ret n' \<and> joinQueue n' = joinQueue n \<and> getRequestChan n' = getRequestChan n \<and>
    replicationChan n' = replicationChan n \<and> clusterState n' = clusterState n \<and>
    (\<forall>r \<in> set rs. pendingGet (rn r n') = None) \<and> (\<forall>s. s \<notin> set rs \<longrightarrow> rn s n' = rn s n)"
  using assms
proof (induction rs arbitrary: n)
  case (Cons r rs)
  let ?n = "rn_update r ((rn r n)\<lparr> rconfig := (rconfig (rn r n))\<lparr> rcReconnectOnDisconnect := False \<rparr> \<rparr>) n"
  have r: "r < length (rnHeap n)" using Cons.prems by simp
  have "\<not> rcReconnectOnDisconnect (rconfig (rn r ?n))" using r by (simp add: rn_rn_update)
  from tearDown_quiet [OF this] obtain n1 where n1: "tearDown r ?n = Ret n1" "joinQueue n1 = joinQueue n"
    "getRequestChan n1 = getRequestChan n" "replicationChan n1 = replicationChan n" "clusterState n1 = clusterState n"
    "length (rnHeap n1) = length (rnHeap n)" "pendingGet (rn r n1) = None" "\<forall>s. s \<noteq> r \<longrightarrow> rn s n1 = rn s n"
    using r by (auto simp: rn_rn_update)
  from Cons.IH [of n1] Cons.prems n1(6) obtain n' where n': "tearDownAll rs n1 = Ret n'" "joinQueue n' = joinQueue n1"
    "getRequestChan n' = getRequestChan n1" "replicationChan n' = replicationChan n1" "clusterState n' = clusterState n1"
    "\<forall>r \<in> set rs. pendingGet (rn r n') = None" "\<forall>s. s \<notin> set rs \<longrightarrow> rn s n' = rn s n1" by auto
  have "tearDownAll (r # rs) n = Ret n'" using n1(1) n'(1) by (simp add: Let_def)
  moreover have "pendingGet (rn r n') = None" using n1(7) n'(6,7) by (cases "r \<in> set rs") auto
  ultimately show ?case using n1 n' by auto
qed simp

lemma ShutDown_returns:
  assumes "node_ok n" "visits order" "chans_open n"
  obtains n' where "cluster_ShutDown order n = Ret n'" "clusterState n' = clusterStateEnded" "chanClosed (joinQueue n')"
    "\<forall>r \<in> ran (list_abs (remoteNodes n)). pendingGet (rn r n') = None"
proof -
  let ?n = "n\<lparr> clusterState := clusterStateEnded \<rparr>"
  have s: "set (list_Values order (remoteNodes n)) = ran (list_abs (remoteNodes n))"
    using list_Values_in [OF visits_set [OF assms(2)]] assms(1) by (simp add: node_ok_def)
  then have "set (list_Values order (remoteNodes ?n)) \<subseteq> {..<length (rnHeap ?n)}" using assms(1) by (simp add: node_ok_def)
  from tearDownAll_quiet [OF this] obtain n1 where n1: "tearDownAll (list_Values order (remoteNodes ?n)) ?n = Ret n1"
    "joinQueue n1 = joinQueue n" "getRequestChan n1 = getRequestChan n" "replicationChan n1 = replicationChan n"
    "clusterState n1 = clusterStateEnded" "\<forall>r \<in> set (list_Values order (remoteNodes n)). pendingGet (rn r n1) = None" by auto
  show ?thesis
    using that n1 assms(3) s by (simp add: cluster_ShutDown_def chans_open_def chanClose_def rn_def)
qed

text \<open>
  C36.  Shutting a node down, in any state whose references are valid and whose channels are open,
  returns; afterwards every \<^verbatim>\<open>Put\<close>, \<^verbatim>\<open>Delete\<close> and \<^verbatim>\<open>Get\<close> is refused, and a second \<^verbatim>\<open>ShutDown\<close>
  panics.  The connections stay up: an answer to a \<^verbatim>\<open>Get\<close> that a formerly registered peer still
  sends panics in its handler.
\<close>

theorem shutdown_ends_service:
  assumes "node_ok n" and "visits order" and "visits order'" and "chans_open n"
    and "wireCode w = MsgGETRsp" and "getRsp_DeSerialize w \<lparr> rspCode = 0, rspPendingKey = [], rspData = [] \<rparr> = Ret m"
  shows "\<exists>n'. cluster_ShutDown order n = Ret n' \<and>
    cluster_Put order' clk key data d n' = Ret (Some ErrNotStarted, n') \<and>
    cluster_Delete order' clk key n' = Ret (Some ErrNotStarted, n') \<and>
    cluster_Get order' src key n' = Ret (Inl (Inl ErrNotStarted), n') \<and>
    cluster_ShutDown order' n' = Panic \<and>
    (\<forall>r \<in> ran (list_abs (remoteNodes n)). dispatch order' obs clk w r n' = Panic)"
proof -
  obtain n' where n': "cluster_ShutDown order n = Ret n'" "clusterState n' = clusterStateEnded" "chanClosed (joinQueue n')"
    "\<forall>r \<in> ran (list_abs (remoteNodes n)). pendingGet (rn r n') = None"
    by (rule ShutDown_returns [OF assms(1,2,4)])
  let ?n = "n'\<lparr> clusterState := clusterStateEnded \<rparr>"
  have ok: "node_ok n'" using ShutDown_ok [OF assms(1) visits_set [OF assms(2)] n'(1)] by simp
  then have "set (list_Values order' (remoteNodes ?n)) \<subseteq> {..<length (rnHeap ?n)}"
    using visited_in_range [OF ok assms(3)] by simp
  from tearDownAll_quiet [OF this] n'(3) have "cluster_ShutDown order' n' = Panic"
    by (auto simp: cluster_ShutDown_def chanClose_def)
  then show ?thesis using n' assms(5,6)
    by (auto simp: cluster_Put_def cluster_Delete_def cluster_Get_def cluster_consts dispatch_GET onwards_def handleGetResponse_def)
qed

theorem shutdown_ends_service_witness:
  "\<exists>n' w. cluster_ShutDown id sampleTwice = Ret n' \<and> cluster_ShutDown rev n' = Panic \<and>
     Serialize (GetRspM \<lparr> rspCode = 0, rspPendingKey = [107], rspData = [1] \<rparr>) = Ret w \<and>
     dispatch rev (\<lambda>_. nodeStateConnected) sampleClock w 0 n' = Panic"
proof -
  obtain w where w: "Serialize (GetRspM \<lparr> rspCode = 0, rspPendingKey = [107], rspData = [1] \<rparr>) = Ret w" "wireCode w = MsgGETRsp"
    "\<forall>m0. getRsp_DeSerialize w m0 = Ret \<lparr> rspCode = MsgGETRsp, rspPendingKey = [107], rspData = [1] \<rparr>"
    using response_wire [of "[107]" "[1]"] by auto
  have n: "node_ok sampleTwice" "visits id" "visits rev" "chans_open sampleTwice" "0 \<in> ran (list_abs (remoteNodes sampleTwice))"
    by (simp_all add: sampleTwice_def node_ok_def sampleClient_def NewPassiveClient_def emptyNode_def makeChan_def chans_open_def
        visits_def list_ok_def list_abs_def pend_ok_def samplePeer_def setState_def setConnection_def newRemoteNode_def ran_def)
  from shutdown_ends_service [OF n(1-4) w(2) w(3) [rule_format], of sampleClock "[]" "[]" 0 "\<lambda>_. 0" "\<lambda>_. nodeStateConnected"] n(5) w(1)
  show ?thesis by blast
qed

section \<open>Discovery\<close>

lemma proposedPeers_filter:
  "proposedPeers n r md vs =
     map (\<lambda>v. \<lparr> peerId = rcId (rconfig (rn v n)),
               peerIpAddress = joinHostPort (splitHost (rcIpAddress (rconfig (rn v n)))) (rcServicePort (rconfig (rn v n))) \<rparr>)
       (filter (\<lambda>v. rcId (rconfig (rn v n)) \<noteq> rcId (rconfig (rn r n)) \<and>
          \<not> (rmode (rn v n) = clusterModePASSIVE \<and> md = clusterModePASSIVE)) vs)"
  by (induction vs) (auto simp: Let_def)

fun connectRounds :: "nat \<Rightarrow> ('t, 'u, 'h) ClusteredBigCache \<Rightarrow> ('t, 'u, 'h) ClusteredBigCache outcome" where
  "connectRounds 0 n = Ret n"
| "connectRounds (Suc k) n =
     obind (connectToExistingNodes n) (\<lambda>((goOn, _), n). if goOn then connectRounds k n else Ret n)"

definition known :: "('t, 'u, 'h) ClusteredBigCache \<Rightarrow> gostring set" where
  "known n = dom (list_abs (remoteNodes n)) \<union> dom (map_of (pendingConn n))"

lemma connect_step:
  assumes "connectToExistingNodes n = Ret ((goOn, c), n')"
  obtains new where "rnHeap n' = rnHeap n @ new" "known n' = known n \<union> (\<lambda>x. rcId (rconfig x)) ` set new"
    "distinct (map (\<lambda>x. rcId (rconfig x)) new)" "\<forall>x \<in> set new. rcId (rconfig x) \<notin> known n"
proof (cases "rnHeap n' = rnHeap n")
  case True
  then have "known n' = known n"
    using assms by (auto simp: connectToExistingNodes_def ret_simps addRn_def known_def Let_def)
  then show ?thesis using that [of "[]"] True by simp
next
  case False
  then obtain x where x: "rnHeap n' = rnHeap n @ [x]" "rcId (rconfig x) \<notin> known n" "known n' = insert (rcId (rconfig x)) (known n)"
    using assms by (auto simp: connectToExistingNodes_def ret_simps addRn_def known_def list_Keys_def list_abs_def update_conv' domIff
        newRemoteNode_def checkConfig_def Let_def)
  then show ?thesis using that [of "[x]"] by simp
qed

lemma connectRounds_new:
  assumes "connectRounds k n = Ret n'"
  shows "\<exists>new. rnHeap n' = rnHeap n @ new \<and> known n' = known n \<union> (\<lambda>x. rcId (rconfig x)) ` set new \<and>
    distinct (map (\<lambda>x. rcId (rconfig x)) new) \<and> (\<forall>x \<in> set new. rcId (rconfig x) \<notin> known n)"
  using assms
proof (induction k arbitrary: n)
  case (Suc k)
  obtain goOn c n1 where s: "connectToExistingNodes n = Ret ((goOn, c), n1)"
    "(if goOn then connectRounds k n1 else Ret n1) = Ret n'"
    using Suc.prems by (auto simp: obind_eq_Ret)
  obtain new where new: "rnHeap n1 = rnHeap n @ new" "known n1 = known n \<union> (\<lambda>x. rcId (rconfig x)) ` set new"
    "distinct (map (\<lambda>x. rcId (rconfig x)) new)" "\<forall>x \<in> set new. rcId (rconfig x) \<notin> known n"
    by (rule connect_step [OF s(1)])
  show ?case
  proof (cases goOn)
    case True
    with Suc.IH [of n1] s(2) obtain new' where "rnHeap n' = rnHeap n1 @ new'" "known n' = known n1 \<union> (\<lambda>x. rcId (rconfig x)) ` set new'"
      "distinct (map (\<lambda>x. rcId (rconfig x)) new')" "\<forall>x \<in> set new'. rcId (rconfig x) \<notin> known n1" by auto
    then show ?thesis using new by (intro exI [of _ "new @ new'"]) (fastforce simp: image_iff)
  qed (use new s(2) in auto)
qed simp

lemma connect_one:
  assumes "chanItems (joinQueue n) = p # ps" "clusterState n = clusterStateStarted"
  shows "\<exists>c n'. connectToExistingNodes n = Ret ((True, c), n') \<and> chanItems (joinQueue n') = ps \<and>
    clusterState n' = clusterStateStarted \<and> known n' = insert (peerId p) (known n)"
  using assms
  by (auto simp: connectToExistingNodes_def chanRecv_def addRn_def known_def list_Keys_def list_abs_def update_conv' Let_def)

lemma connectRounds_all:
  assumes "chanItems (joinQueue n) = ps" "clusterState n = clusterStateStarted"
  shows "\<exists>n'. connectRounds (length ps) n = Ret n' \<and> known n' = known n \<union> peerId ` set ps"
  using assms
proof (induction ps arbitrary: n)
  case (Cons p ps)
  from connect_one [OF Cons.prems] obtain c n1 where n1: "connectToExistingNodes n = Ret ((True, c), n1)"
    "chanItems (joinQueue n1) = ps" "clusterState n1 = clusterStateStarted" "known n1 = insert (peerId p) (known n)" by blast
  from Cons.IH [OF n1(2,3)] n1 show ?case by auto
qed simp

lemma dispatch_Sync:
  "wireCode w = MsgSyncReq \<Longrightarrow> dispatch order obs clk w s b = onwards (handleSyncRequest order w s b)"
  "wireCode w = MsgSyncRsp \<Longrightarrow> dispatch order obs clk w s b = onwards (handleSyncResponse w s b)"
  by (simp_all add: dispatch_def msg_codes)


definition sampleThree :: "(unit, unit, unit) ClusteredBigCache" where
  "sampleThree = sampleClient\<lparr> rnHeap := [samplePeer, samplePeer\<lparr> rconfig := (rconfig samplePeer)\<lparr> rcId := [99],
       rcIpAddress := [49, 58, 50], rcServicePort := [57] \<rparr> \<rparr>],
     remoteNodes := \<lparr> items = [([98], 0), ([99], 1)], listSize = 2 \<rparr> \<rparr>"


end
