(* ===== verification/Lifecycle.thy ===== *)
theory Lifecycle
  imports Membership
begin

text \<open>
  The life of a connected remote node, \<^verbatim>\<open>start\<close> of \<^verbatim>\<open>Cluster/remoteNode.go\<close>: its seven actors,
  the wait group they count themselves in and their interrupt functions.  The library that
  runs them, \<^verbatim>\<open>oklog/run\<close>, is represented by what its documentation promises: all actors run
  concurrently, and when the first has returned the interrupt function of each is called once,
  in an order that is left open.  Tearing the node down waits for the running actors, and the
  end can always be reached.
\<close>

section \<open>The actors\<close>

datatype actor = ADone | APing | APong | AConsumer | AHandler | ASender | ATear

definition actors :: "actor list" where
  "actors = [ADone, APing, APong, AConsumer, AHandler, ASender, ATear]"

lemma actors_all [simp]: "set actors = UNIV"
  using actor.exhaust by (auto simp: actors_def)

datatype actorState = Spawned | Running | Returned

record ('t, 'u, 'h) actorGroup =
  gnode :: "('t, 'u, 'h) ClusteredBigCache"
  gstate :: "actor \<Rightarrow> actorState"
  wg :: int
  pingDone :: bool
  pongDone :: bool
  toInterrupt :: "actor list option"

text \<open>The actors whose functions count themselves in the wait group.\<close>

definition counted :: "actor \<Rightarrow> bool" where
  "counted a \<longleftrightarrow> a \<noteq> ADone \<and> a \<noteq> ATear"

definition startGroup :: "nat \<Rightarrow> ('t, 'u, 'h) ClusteredBigCache \<Rightarrow> ('t, 'u, 'h) actorGroup outcome" where
  "startGroup r n =
     obind (rn_start r n) (\<lambda>n.
       Ret \<lparr> gnode = n, gstate = (\<lambda>_. Spawned), wg = 1, pingDone = False, pongDone = False, toInterrupt = None \<rparr>)"

definition entered :: "actor \<Rightarrow> ('t, 'u, 'h) actorGroup \<Rightarrow> ('t, 'u, 'h) actorGroup" where
  "entered a g = g\<lparr> gstate := (gstate g)(a := Running), wg := (if counted a then wg g + 1 else wg g) \<rparr>"

definition returned :: "actor \<Rightarrow> ('t, 'u, 'h) actorGroup \<Rightarrow> ('t, 'u, 'h) actorGroup" where
  "returned a g = g\<lparr> gstate := (gstate g)(a := Returned), wg := (if counted a then wg g - 1 else wg g) \<rparr>"

text \<open>Going on with a loop, or returning from its function.\<close>

definition looped :: "actor \<Rightarrow> bool \<Rightarrow> ('t, 'u, 'h) actorGroup \<Rightarrow> ('t, 'u, 'h) actorGroup" where
  "looped a goOn g = (if goOn then g else returned a g)"

text \<open>
  What can happen next: an actor starts; a round of its loop, or the case of its select, runs; it
  sees that it is to end; the group sees that an actor has returned; the group calls the next
  interrupt function.
\<close>

datatype groupEvent =
    Enter actor u64 | Leave actor
  | PingTick u64 | PongTimeout | Consume | Handle visit_order "nat \<Rightarrow> remoteNodeState" clock | SendOut "(nat \<times> netError option) list"
  | Notice "actor list" | Interrupt

definition enter :: "nat \<Rightarrow> actor \<Rightarrow> u64 \<Rightarrow> ('t, 'u, 'h) actorGroup \<Rightarrow> ('t, 'u, 'h) actorGroup outcome" where
  "enter r a now g =
     (if gstate g a \<noteq> Spawned then Blocked
      else if a = APing then obind (onRn (startPingTimer now) r (gnode g)) (\<lambda>n. Ret (entered a (g\<lparr> gnode := n \<rparr>)))
      else if a = APong then Ret (entered a (g\<lparr> gnode := rn_update r (startPingTimeout now (rn r (gnode g))) (gnode g) \<rparr>))
      else Ret (entered a g))"

definition leave :: "nat \<Rightarrow> actor \<Rightarrow> ('t, 'u, 'h) actorGroup \<Rightarrow> ('t, 'u, 'h) actorGroup outcome" where
  "leave r a g =
     (if gstate g a \<noteq> Running then Blocked
      else case a of
          ADone \<Rightarrow> if doneClosed (rn r (gnode g)) \<or> stopping (rn r (gnode g)) then Ret (returned a g) else Blocked
        | APing \<Rightarrow> if pingDone g then Ret (returned a g) else Blocked
        | APong \<Rightarrow> if pongDone g then Ret (returned a g) else Blocked
        | ATear \<Rightarrow> if wg g = 0 then obind (tearDown r (gnode g)) (\<lambda>n. Ret (returned a (g\<lparr> gnode := n \<rparr>))) else Blocked
        | _ \<Rightarrow> Blocked)"

definition interruptActor :: "nat \<Rightarrow> actor \<Rightarrow> ('t, 'u, 'h) actorGroup \<Rightarrow> ('t, 'u, 'h) actorGroup outcome" where
  "interruptActor r a g =
     (let on = (\<lambda>f. obind (onRn f r (gnode g)) (\<lambda>n. Ret (g\<lparr> gnode := n \<rparr>))) in
      case a of
        ADone \<Rightarrow> on interruptDone
      | APing \<Rightarrow> if pingDone g then Panic else Ret (g\<lparr> pingDone := True \<rparr>)
      | APong \<Rightarrow> if pongDone g then Panic else Ret (g\<lparr> pongDone := True \<rparr>)
      | AConsumer \<Rightarrow> on interruptConsumer
      | AHandler \<Rightarrow> on interruptHandler
      | ASender \<Rightarrow> on interruptSender
      | ATear \<Rightarrow> obind (on interruptTearDown) (\<lambda>g. Ret (g\<lparr> wg := wg g - 1 \<rparr>)))"

fun groupStep :: "nat \<Rightarrow> groupEvent \<Rightarrow> ('t, 'u, 'h) actorGroup \<Rightarrow> ('t, 'u, 'h) actorGroup outcome" where
  "groupStep r (Enter a now) g = enter r a now g"
| "groupStep r (Leave a) g = leave r a g"
| "groupStep r (PingTick now) g =
     (if gstate g APing \<noteq> Running then Blocked
      else obind (onRn (onPingTick now) r (gnode g)) (\<lambda>n. Ret (g\<lparr> gnode := n \<rparr>)))"
| "groupStep r PongTimeout g =
     (if gstate g APong \<noteq> Running then Blocked
      else obind (onPingTimeout (rn r (gnode g))) (\<lambda>(fault, x).
        Ret (looped APong (\<not> fault) (g\<lparr> gnode := rn_update r x (gnode g) \<rparr>))))"
| "groupStep r Consume g =
     (if gstate g AConsumer \<noteq> Running then Blocked
      else obind (networkConsumer (rn r (gnode g))) (\<lambda>(goOn, x).
        Ret (looped AConsumer goOn (g\<lparr> gnode := rn_update r x (gnode g) \<rparr>))))"
| "groupStep r (Handle order obs clk) g =
     (if gstate g AHandler \<noteq> Running then Blocked
      else obind (handleMessage order obs clk r (gnode g)) (\<lambda>(goOn, n).
        Ret (looped AHandler goOn (g\<lparr> gnode := n \<rparr>))))"
| "groupStep r (SendOut writes) g =
     (if gstate g ASender \<noteq> Running then Blocked
      else obind (networkSender writes (rn r (gnode g))) (\<lambda>(goOn, x).
        Ret (looped ASender goOn (g\<lparr> gnode := rn_update r x (gnode g) \<rparr>))))"
| "groupStep r (Notice order) g =
     (if toInterrupt g = None \<and> list_ex (\<lambda>a. gstate g a = Returned) actors then Ret (g\<lparr> toInterrupt := Some order \<rparr>) else Blocked)"
| "groupStep r Interrupt g =
     (case toInterrupt g of
        Some (a # as) \<Rightarrow> obind (interruptActor r a g) (\<lambda>g. Ret (g\<lparr> toInterrupt := Some as \<rparr>))
      | _ \<Rightarrow> Blocked)"

fun groupRun :: "nat \<Rightarrow> groupEvent list \<Rightarrow> ('t, 'u, 'h) actorGroup \<Rightarrow> ('t, 'u, 'h) actorGroup outcome" where
  "groupRun r [] g = Ret g"
| "groupRun r (e # es) g = obind (groupStep r e g) (groupRun r es)"

section \<open>What the steps leave alone\<close>

text \<open>What only the interrupt functions change of a remote node.\<close>

definition flags :: "remoteNode \<Rightarrow> bool \<times> bool \<times> bool \<times> bool" where
  "flags x = (doneClosed x, chanClosed (inboundMsgQueue x), chanClosed (outboundMsgQueue x), rconnection x = None)"

definition heapFlags :: "('t, 'u, 'h) ClusteredBigCache \<Rightarrow> (bool \<times> bool \<times> bool \<times> bool) list" where
  "heapFlags n = map flags (rnHeap n)"

lemma heapFlags_update: "flags x = flags (rn r n) \<Longrightarrow> heapFlags (rn_update r x n) = heapFlags n"
proof (cases "r < length (rnHeap n)")
  case True
  assume "flags x = flags (rn r n)"
  then show ?thesis using True by (simp add: heapFlags_def rn_update_def map_update rn_def list_update_same_conv)
qed (simp add: heapFlags_def rn_update_def list_update_beyond)

lemma heapFlags_fields [simp]:
  "heapFlags (n\<lparr> remoteNodes := l \<rparr>) = heapFlags n" "heapFlags (n\<lparr> pendingConn := p \<rparr>) = heapFlags n"
  "heapFlags (n\<lparr> joinQueue := q \<rparr>) = heapFlags n" "heapFlags (n\<lparr> requests := qs \<rparr>) = heapFlags n"
  "heapFlags (n\<lparr> nodeCache := c \<rparr>) = heapFlags n" "heapFlags (n\<lparr> nodeConfig := k \<rparr>) = heapFlags n"
  by (simp_all add: heapFlags_def)

lemma heapFlags_rn: "heapFlags n' = heapFlags n \<Longrightarrow> r < length (rnHeap n) \<Longrightarrow> flags (rn r n') = flags (rn r n)"
  unfolding heapFlags_def rn_def by (metis length_map nth_map)

lemma heapFlags_length: "heapFlags n' = heapFlags n \<Longrightarrow> length (rnHeap n') = length (rnHeap n)"
  unfolding heapFlags_def by (metis length_map)

lemma sendMessage_flags: "sendMessage m x = Ret x' \<Longrightarrow> flags x' = flags x \<and> rstate x' = rstate x"
  by (auto simp: sendMessage_def obind_eq_Ret flags_def selectSend_closed split: if_splits)

lemma queueInbound_flags: "queueInboundMessage m x = Ret x' \<Longrightarrow> flags x' = flags x \<and> rstate x' = rstate x"
  by (auto simp: queueInboundMessage_def obind_eq_Ret flags_def selectSend_closed split: if_splits)

lemma networkSender_flags: "networkSender ws x = Ret (b, x') \<Longrightarrow> flags x' = flags x \<and> rstate x' = rstate x"
  by (auto simp: networkSender_def ret_simps Let_def flags_def dest!: chanRecv_closed)

lemma networkConsumer_flags: "networkConsumer x = Ret (b, x') \<Longrightarrow> flags x' = flags x \<and> rstate x' = rstate x"
  by (auto simp: networkConsumer_def ret_simps Let_def flags_def dest!: queueInbound_flags)

lemma ping_flags:
  "startPingTimer t x = Ret x' \<Longrightarrow> flags x' = flags x \<and> rstate x' = rstate x"
  "onPingTick t x = Ret x' \<Longrightarrow> flags x' = flags x \<and> rstate x' = rstate x"
  "onPingTimeout x = Ret (b, x') \<Longrightarrow> flags x' = flags x \<and> rstate x' = rstate x"
  "handlePing x = Ret x' \<Longrightarrow> flags x' = flags x \<and> rstate x' = rstate x"
  "handlePong x = Ret x' \<Longrightarrow> flags x' = flags x \<and> rstate x' = rstate x"
  by (auto simp: startPingTimer_def onPingTick_def onPingTimeout_def handlePing_def handlePong_def obind_eq_Ret Let_def flags_def
      split: if_splits option.splits dest!: sendMessage_flags)

lemma onRn_flags:
  assumes "onRn f r n = Ret n'" "\<And>x'. f (rn r n) = Ret x' \<Longrightarrow> flags x' = flags (rn r n)"
  shows "heapFlags n' = heapFlags n"
  using assms by (auto simp: onRn_def obind_eq_Ret intro: heapFlags_update)

lemma onRn_send_flags: "onRn (sendMessage m) r n = Ret n' \<Longrightarrow> heapFlags n' = heapFlags n"
  by (rule onRn_flags) (auto dest: sendMessage_flags)

lemma handleVerify_flags:
  assumes "handleVerify msg r n = Ret (b, n')" "r < length (rnHeap n)"
  shows "heapFlags n' = heapFlags n"
proof -
  obtain v where v: "verify_DeSerialize msg \<lparr> verifyId = [], verifyVersion = [], verifyServicePort = [], verifyMode = 0 \<rparr> = Ret v"
    by (simp add: verify_DeSerialize_def)
  let ?x = "(rn r n)\<lparr> rconfig := (rconfig (rn r n))\<lparr> rcId := verifyId v, rcServicePort := verifyServicePort v \<rparr>, rmode := verifyMode v \<rparr>"
  obtain ok n1 where e: "eventVerifyRemoteNode r (rn_update r ?x n) = (ok, n1)" by force
  have n1: "rnHeap n1 = rnHeap (rn_update r ?x n)" using e by (auto simp: eventVerifyRemoteNode_def Let_def split: if_splits)
  then have h: "heapFlags (rn_update r ?x n) = heapFlags n" "heapFlags n1 = heapFlags n"
    using heapFlags_update [of ?x r n] by (simp_all add: heapFlags_def flags_def)
  have "heapFlags (rn_update r x' n1) = heapFlags n"
    if "sendMessage m (setState st y) = Ret x'" "flags y = flags (rn r n1)" for x' y m st
    using sendMessage_flags [OF that(1)] that(2) h(2) heapFlags_update [of x' r n1] by (simp add: flags_def setState_def)
  then show ?thesis
    using assms(1) h v e by (auto simp: handleVerify_def ret_simps Let_def flags_def split: if_splits)
qed

lemma dispatch_flags:
  assumes "dispatch order obs clk msg r n = Ret (b, n')" "r < length (rnHeap n)"
  shows "heapFlags n' = heapFlags n"
proof -
  have "heapFlags n' = heapFlags n" if "handleGetResponse msg r n = Ret n'"
    using that heapFlags_update [of "(rn r n)\<lparr> pendingGet := p \<rparr>" r n for p]
    by (auto simp: handleGetResponse_def ret_simps Let_def flags_def)
  moreover have "heapFlags n' = heapFlags n" if "handleGetRequest msg r n = Ret n'"
    using that by (auto simp: handleGetRequest_def ret_simps Let_def dest!: onRn_send_flags)
  moreover have "heapFlags n' = heapFlags n" if "handleSyncRequest order msg r n = Ret n' \<or> handleVerifyOK obs r n = Ret n'"
    using that by (auto simp: handleSyncRequest_def sendSyncResponse_def handleVerifyOK_def ret_simps Let_def dest!: onRn_send_flags)
  moreover have "heapFlags n' = heapFlags n" if "handleSyncResponse msg r n = Ret n'"
    using that by (auto simp: handleSyncResponse_def ret_simps setReplicationFactor_def Let_def)
  moreover have "heapFlags n' = heapFlags n" if "handlePut clk msg n = Ret n' \<or> handleDelete clk msg n = Ret n'"
    using that by (auto simp: handlePut_def handleDelete_def ret_simps Let_def)
  moreover have "heapFlags n' = heapFlags n" if "onRn handlePing r n = Ret n' \<or> onRn handlePong r n = Ret n'"
    using that onRn_flags ping_flags(4,5) by blast
  moreover note handleVerify_flags [OF _ assms(2)]
  ultimately show ?thesis
    using assms(1) unfolding dispatch_def Let_def if_Ret onwards_Ret by (elim disjE conjE) blast+
qed

lemma handleMessage_flags:
  assumes "handleMessage order obs clk r n = Ret (b, n')" "r < length (rnHeap n)"
  shows "heapFlags n' = heapFlags n" "rstate (rn r n) = nodeStateDisconnected \<Longrightarrow> rstate (rn r n') = nodeStateDisconnected"
proof -
  obtain m ch where c: "chanRecv (inboundMsgQueue (rn r n)) = Ret (m, ch)"
    using assms(1) by (auto simp: handleMessage_def obind_eq_Ret)
  let ?n = "rn_update r ((rn r n)\<lparr> inboundMsgQueue := ch \<rparr>) n"
  have f: "heapFlags ?n = heapFlags n" "rstate (rn r ?n) = rstate (rn r n)"
    using chanRecv_closed [OF c] assms(2) by (auto intro: heapFlags_update simp: flags_def rn_rn_update)
  have n': "n' = ?n \<or> rstate (rn r n) \<noteq> nodeStateDisconnected \<and> (\<exists>w. dispatch order obs clk w r ?n = Ret (b, n'))"
    using assms(1) c f(2) by (auto simp: handleMessage_def ret_simps Let_def)
  then show "heapFlags n' = heapFlags n" using dispatch_flags [of order obs clk _ r ?n b n'] f(1) assms(2) by auto
  show "rstate (rn r n') = nodeStateDisconnected" if "rstate (rn r n) = nodeStateDisconnected" using n' that f(2) by auto
qed

lemma tearDown_flags:
  assumes "tearDown r n = Ret n'" "r < length (rnHeap n)"
  shows "heapFlags n' = heapFlags n \<and> rstate (rn r n') = rstate (rn r n)"
  using assms heapFlags_update
  by (auto simp: tearDown_def eventRemoteNodeDisconneced_def obind_eq_Ret Let_def rn_rn_update rn_def flags_def heapFlags_def
      rn_update_def map_update list_update_same_conv split: if_splits)

section \<open>The invariant of the group\<close>

definition interrupted :: "actor \<Rightarrow> ('t, 'u, 'h) actorGroup \<Rightarrow> bool" where
  "interrupted a g \<longleftrightarrow> (case toInterrupt g of None \<Rightarrow> False | Some as \<Rightarrow> a \<notin> set as)"

definition running :: "('t, 'u, 'h) actorGroup \<Rightarrow> nat" where
  "running g = length (filter (\<lambda>a. counted a \<and> gstate g a = Running) actors)"

definition calls_each_once :: "actor list \<Rightarrow> bool" where
  "calls_each_once order \<longleftrightarrow> distinct order \<and> set order = UNIV"

definition group_inv :: "nat \<Rightarrow> ('t, 'u, 'h) actorGroup \<Rightarrow> bool" where
  "group_inv r g \<longleftrightarrow> r < length (rnHeap (gnode g)) \<and> (\<forall>as. toInterrupt g = Some as \<longrightarrow> distinct as) \<and>
     wg g = (if interrupted ATear g then 0 else 1) + int (running g) \<and>
     flags (rn r (gnode g)) = (interrupted ADone g, interrupted AHandler g, interrupted ASender g, False) \<and>
     pingDone g = interrupted APing g \<and> pongDone g = interrupted APong g \<and>
     (\<forall>a \<in> {AConsumer, AHandler, ASender, ATear}. interrupted a g \<longrightarrow> rstate (rn r (gnode g)) = nodeStateDisconnected)"

text \<open>
  The states of the group.  The interrupt functions are called once each, in an order that the
  group chooses; between two steps, other goroutines, the network and the clock may change the
  node, but they neither close a channel of this remote node nor set its state.
\<close>

inductive group_move :: "nat \<Rightarrow> ('t, 'u, 'h) actorGroup \<Rightarrow> ('t, 'u, 'h) actorGroup \<Rightarrow> bool" for r where
  event: "(\<And>order. e = Notice order \<Longrightarrow> calls_each_once order) \<Longrightarrow> groupStep r e g = Ret g' \<Longrightarrow> group_move r g g'"
| other: "r < length (rnHeap n) \<Longrightarrow> flags (rn r n) = flags (rn r (gnode g)) \<Longrightarrow>
    rstate (rn r n) = rstate (rn r (gnode g)) \<Longrightarrow> group_move r g (g\<lparr> gnode := n \<rparr>)"

definition group_reach :: "nat \<Rightarrow> ('t, 'u, 'h) actorGroup \<Rightarrow> bool" where
  "group_reach r g \<longleftrightarrow> (\<exists>n g0. startGroup r n = Ret g0 \<and> r < length (rnHeap n) \<and>
     flags (rn r n) = (False, False, False, False) \<and> (group_move r)\<^sup>*\<^sup>* g0 g)"

lemma running_entered: "gstate g a = Spawned \<Longrightarrow> running (entered a g) = running g + (if counted a then 1 else 0)"
  by (cases a) (simp_all add: running_def entered_def actors_def counted_def)

lemma running_returned: "gstate g a = Running \<Longrightarrow> running g = running (returned a g) + (if counted a then 1 else 0)"
  by (cases a) (simp_all add: running_def returned_def actors_def counted_def)

lemma interrupted_simps [simp]:
  "interrupted a (entered b g) = interrupted a g" "interrupted a (returned b g) = interrupted a g"
  "interrupted a (g\<lparr> gnode := n \<rparr>) = interrupted a g" "interrupted a (g\<lparr> wg := i \<rparr>) = interrupted a g"
  "interrupted a (g\<lparr> pingDone := p \<rparr>) = interrupted a g" "interrupted a (g\<lparr> pongDone := p \<rparr>) = interrupted a g"
  by (simp_all add: interrupted_def entered_def returned_def)

lemma group_simps [simp]:
  "gnode (entered a g) = gnode g" "toInterrupt (entered a g) = toInterrupt g" "pingDone (entered a g) = pingDone g"
  "pongDone (entered a g) = pongDone g" "wg (entered a g) = wg g + (if counted a then 1 else 0)"
  "gnode (returned a g) = gnode g" "toInterrupt (returned a g) = toInterrupt g" "pingDone (returned a g) = pingDone g"
  "pongDone (returned a g) = pongDone g" "wg (returned a g) = wg g - (if counted a then 1 else 0)"
  by (simp_all add: entered_def returned_def)

lemma running_node [simp]: "running (g\<lparr> gnode := n \<rparr>) = running g" "running (g\<lparr> wg := i \<rparr>) = running g"
  "running (g\<lparr> pingDone := p \<rparr>) = running g" "running (g\<lparr> pongDone := p \<rparr>) = running g" "running (g\<lparr> toInterrupt := t \<rparr>) = running g"
  by (simp_all add: running_def)

lemma group_inv_entered: "group_inv r g \<Longrightarrow> gstate g a = Spawned \<Longrightarrow> group_inv r (entered a g)"
  using running_entered [of g a] by (auto simp: group_inv_def)

lemma group_inv_returned: "group_inv r g \<Longrightarrow> gstate g a = Running \<Longrightarrow> group_inv r (returned a g)"
  using running_returned [of g a] by (auto simp: group_inv_def)

lemma group_inv_node:
  assumes "group_inv r g" "r < length (rnHeap n)" "flags (rn r n) = flags (rn r (gnode g))"
    and "rstate (rn r (gnode g)) = nodeStateDisconnected \<Longrightarrow> rstate (rn r n) = nodeStateDisconnected"
  shows "group_inv r (g\<lparr> gnode := n \<rparr>)"
  using assms by (auto simp: group_inv_def)

lemma group_inv_peer:
  assumes "group_inv r g" "flags x = flags (rn r (gnode g)) \<and> rstate x = rstate (rn r (gnode g))"
  shows "group_inv r (g\<lparr> gnode := rn_update r x (gnode g) \<rparr>)"
proof -
  have "r < length (rnHeap (gnode g))" using assms(1) by (simp add: group_inv_def)
  then show ?thesis using assms(2) by (intro group_inv_node [OF assms(1)]) (simp_all add: rn_rn_update)
qed

lemma group_inv_onRn:
  assumes "group_inv r g" "onRn f r (gnode g) = Ret n"
    and "\<And>x'. f (rn r (gnode g)) = Ret x' \<Longrightarrow> flags x' = flags (rn r (gnode g)) \<and> rstate x' = rstate (rn r (gnode g))"
  shows "group_inv r (g\<lparr> gnode := n \<rparr>)"
  using assms(2,3) group_inv_peer [OF assms(1)] by (auto simp: onRn_def obind_eq_Ret)

lemma group_inv_looped: "group_inv r g \<Longrightarrow> gstate g a = Running \<Longrightarrow> group_inv r (looped a goOn g)"
  by (simp add: looped_def group_inv_returned)

text \<open>An interrupt function that is due does not panic and has its effect.\<close>

lemma interruptActor_inv:
  assumes inv: "group_inv r g" and t: "toInterrupt g = Some (a # as)"
  shows "\<exists>g'. interruptActor r a g = Ret g' \<and> group_inv r (g'\<lparr> toInterrupt := Some as \<rparr>) \<and> gstate g' = gstate g \<and>
    joinQueue (gnode g') = joinQueue (gnode g) \<and> rconfig (rn r (gnode g')) = rconfig (rn r (gnode g))"
proof -
  have r: "r < length (rnHeap (gnode g))" and d: "a \<notin> set as" "distinct as" using inv t by (auto simp: group_inv_def)
  have i: "interrupted b g \<longleftrightarrow> b \<noteq> a \<and> b \<notin> set as" for b using t by (auto simp: interrupted_def)
  have f: "flags (rn r (gnode g)) = (interrupted ADone g, interrupted AHandler g, interrupted ASender g, False)"
    "wg g = (if interrupted ATear g then 0 else 1) + int (running g)" "pingDone g = interrupted APing g" "pongDone g = interrupted APong g"
    "\<forall>a \<in> {AConsumer, AHandler, ASender, ATear}. interrupted a g \<longrightarrow> rstate (rn r (gnode g)) = nodeStateDisconnected"
    using inv by (simp_all add: group_inv_def)
  show ?thesis
    using f r d unfolding i
    by (cases a)
       (auto simp: interruptActor_def onRn_def group_inv_def interruptDone_def interruptConsumer_def interruptHandler_def
        interruptSender_def interruptTearDown_def chanClose_def setState_def rn_rn_update interrupted_def flags_def)
qed

lemma groupStep_inv:
  assumes inv: "group_inv r g" and "groupStep r e g = Ret g'" and "\<And>order. e = Notice order \<Longrightarrow> calls_each_once order"
  shows "group_inv r g'"
proof -
  have r: "r < length (rnHeap (gnode g))" using inv by (simp add: group_inv_def)
  show ?thesis
  proof (cases e)
    case (Enter a now)
    have "group_inv r (g\<lparr> gnode := rn_update r (startPingTimeout now (rn r (gnode g))) (gnode g) \<rparr>)"
      by (rule group_inv_peer [OF inv]) (simp add: startPingTimeout_def flags_def)
    moreover have "group_inv r (g\<lparr> gnode := n \<rparr>)" if "onRn (startPingTimer now) r (gnode g) = Ret n" for n
      by (rule group_inv_onRn [OF inv that ping_flags(1)])
    ultimately show ?thesis using assms(2) Enter inv
      by (auto simp: enter_def obind_eq_Ret intro!: group_inv_entered split: if_splits)
  next
    case (Leave a)
    have "group_inv r (g\<lparr> gnode := n \<rparr>)" if "tearDown r (gnode g) = Ret n" for n
      using tearDown_flags [OF that r] r by (intro group_inv_node [OF inv]) (auto dest: heapFlags_length heapFlags_rn)
    then show ?thesis using assms(2) Leave inv
      by (auto simp: leave_def obind_eq_Ret intro!: group_inv_returned split: if_splits actor.splits)
  next
    case (PingTick now)
    then show ?thesis using assms(2) group_inv_onRn [OF inv _ ping_flags(2)] by (auto simp: obind_eq_Ret split: if_splits)
  next
    case PongTimeout
    then show ?thesis using assms(2) group_inv_peer [OF inv ping_flags(3)]
      by (fastforce simp: obind_eq_Ret intro!: group_inv_looped split: if_splits)
  next
    case Consume
    then show ?thesis using assms(2) group_inv_peer [OF inv networkConsumer_flags]
      by (fastforce simp: obind_eq_Ret intro!: group_inv_looped split: if_splits)
  next
    case (Handle order obs clk)
    have "group_inv r (g\<lparr> gnode := n \<rparr>)" if "handleMessage order obs clk r (gnode g) = Ret (b, n)" for b n
      using handleMessage_flags [OF that r] r by (intro group_inv_node [OF inv]) (auto dest: heapFlags_length heapFlags_rn)
    then show ?thesis using assms(2) Handle by (fastforce simp: obind_eq_Ret intro!: group_inv_looped split: if_splits)
  next
    case (SendOut ws)
    then show ?thesis using assms(2) group_inv_peer [OF inv networkSender_flags]
      by (fastforce simp: obind_eq_Ret intro!: group_inv_looped split: if_splits)
  next
    case (Notice order)
    then show ?thesis using assms(2) inv assms(3) [OF Notice]
      by (auto simp: group_inv_def interrupted_def calls_each_once_def split: if_splits)
  next
    case Interrupt
    then obtain a as where t: "toInterrupt g = Some (a # as)" using assms(2) by (auto split: option.splits list.splits)
    then show ?thesis using assms(2) interruptActor_inv [OF inv t] Interrupt by auto
  qed
qed

interpretation grp: kept_invariant "group_move r" "group_inv r" for r
proof
  show "group_inv r g'" if "group_inv r g" "group_move r g g'" for g g' :: "('a, 'b, 'c) actorGroup"
    using that(2,1) by cases (auto intro: groupStep_inv group_inv_node)
qed

lemma startGroup_inv:
  assumes "startGroup r n = Ret g" "r < length (rnHeap n)" "flags (rn r n) = (False, False, False, False)"
  shows "group_inv r g"
proof -
  obtain m n' where n': "onRn (sendMessage m) r n = Ret n'" "g = \<lparr> gnode = n', gstate = (\<lambda>_. Spawned), wg = 1, pingDone = False,
      pongDone = False, toInterrupt = None \<rparr>"
    using assms(1) by (auto simp: startGroup_def rn_start_def sendVerify_def obind_eq_Ret)
  have "flags (rn r n') = (False, False, False, False)" "r < length (rnHeap n')"
    using heapFlags_rn [OF onRn_send_flags [OF n'(1)] assms(2)] heapFlags_length [OF onRn_send_flags [OF n'(1)]] assms(2,3) by simp_all
  then show ?thesis unfolding n'(2) by (simp add: group_inv_def interrupted_def running_def)
qed

lemma group_reach_inv: "group_reach r g \<Longrightarrow> group_inv r g"
  using startGroup_inv grp.reachable unfolding group_reach_def by blast

lemma group_reach_run:
  assumes "group_reach r g" "groupRun r es g = Ret g'" "\<forall>order. Notice order \<in> set es \<longrightarrow> calls_each_once order"
  shows "group_reach r g'"
  using assms
proof (induction es arbitrary: g)
  case (Cons e es)
  then obtain g1 where g1: "groupStep r e g = Ret g1" "groupRun r es g1 = Ret g'" by (auto simp: obind_eq_Ret)
  have "group_move r g g1" by (rule event [OF _ g1(1)]) (use Cons.prems(3) in auto)
  then have "group_reach r g1" using Cons.prems(1) unfolding group_reach_def by (meson rtranclp.rtrancl_into_rtrancl)
  then show ?case using Cons.IH g1(2) Cons.prems(3) by auto
qed simp

section \<open>Ending\<close>

text \<open>Every interrupt function has been called.\<close>

definition halted :: "nat \<Rightarrow> ('t, 'u, 'h) actorGroup \<Rightarrow> bool" where
  "halted r g \<longleftrightarrow> group_inv r g \<and> toInterrupt g = Some []"

lemma halted_facts:
  assumes "halted r g"
  shows "r < length (rnHeap (gnode g))" "doneClosed (rn r (gnode g))" "chanClosed (inboundMsgQueue (rn r (gnode g)))"
    "chanClosed (outboundMsgQueue (rn r (gnode g)))" "rstate (rn r (gnode g)) = nodeStateDisconnected" "pingDone g" "pongDone g"
    "wg g = int (running g)"
  using assms by (simp_all add: halted_def group_inv_def interrupted_def flags_def)

text \<open>What tearing down depends on, and that a step brings an actor to a state and changes nothing else of it.\<close>

definition moves :: "nat \<Rightarrow> actor \<Rightarrow> actorState \<Rightarrow> ('t, 'u, 'h) actorGroup \<Rightarrow> ('t, 'u, 'h) actorGroup \<Rightarrow> bool" where
  "moves r a st g g' \<longleftrightarrow> halted r g' \<and> gstate g' = (gstate g)(a := st) \<and> joinQueue (gnode g') = joinQueue (gnode g) \<and>
     rconfig (rn r (gnode g')) = rconfig (rn r (gnode g))"

lemma halted_step: "halted r g \<Longrightarrow> groupStep r e g = Ret g' \<Longrightarrow> toInterrupt g' = Some [] \<Longrightarrow>
    (\<And>order. e \<noteq> Notice order) \<Longrightarrow> halted r g'"
  unfolding halted_def using groupStep_inv by blast

lemma enter_halted:
  assumes "halted r g" "gstate g a = Spawned"
  shows "\<exists>g'. groupStep r (Enter a 0) g = Ret g' \<and> moves r a Running g g'"
proof -
  note h = halted_facts [OF assms(1)]
  have "\<exists>g'. groupStep r (Enter a 0) g = Ret g' \<and> toInterrupt g' = Some [] \<and> gstate g' = (gstate g)(a := Running) \<and>
      joinQueue (gnode g') = joinQueue (gnode g) \<and> rconfig (rn r (gnode g')) = rconfig (rn r (gnode g))"
    using assms h(1,5)
    by (cases a) (auto simp: enter_def entered_def onRn_def startPingTimer_def sendMessage_def startPingTimeout_def rn_rn_update halted_def)
  then show ?thesis using halted_step [OF assms(1), of "Enter a 0"] by (auto simp: moves_def)
qed

lemma leave_halted:
  assumes "halted r g" "gstate g a = Running" "a = ADone \<or> a = APing \<or> a = APong"
  shows "\<exists>g'. groupStep r (Leave a) g = Ret g' \<and> moves r a Returned g g'"
proof -
  note h = halted_facts [OF assms(1)]
  have "groupStep r (Leave a) g = Ret (returned a g)" using assms(2,3) h by (auto simp: leave_def)
  then show ?thesis using halted_step [OF assms(1), of "Leave a"] assms(1) by (auto simp: moves_def returned_def halted_def)
qed

lemma consume_halted:
  assumes "halted r g" "gstate g AConsumer = Running"
  shows "\<exists>g'. groupStep r Consume g = Ret g' \<and> moves r AConsumer Returned g g'"
proof -
  note h = halted_facts [OF assms(1)]
  have "groupStep r Consume g = Ret (returned AConsumer (g\<lparr> gnode := rn_update r (rn r (gnode g)) (gnode g) \<rparr>))"
    using assms(2) h(5) by (simp add: networkConsumer_def looped_def)
  moreover have "rn_update r (rn r (gnode g)) (gnode g) = gnode g" by (simp add: rn_update_def rn_def)
  ultimately show ?thesis using halted_step [OF assms(1), of Consume] assms(1) by (auto simp: moves_def returned_def halted_def)
qed

lemma groupRun_append: "groupRun r (es @ fs) g = obind (groupRun r es g) (groupRun r fs)"
proof (induction es arbitrary: g)
  case (Cons e es)
  then show ?case by (cases "groupStep r e g") simp_all
qed simp

lemma moves_trans: "moves r a Running g g1 \<Longrightarrow> moves r a Returned g1 g2 \<Longrightarrow> moves r a Returned g g2"
  by (simp add: moves_def)

lemma drain_handler:
  assumes "halted r g" "gstate g AHandler = Running" "length (chanItems (inboundMsgQueue (rn r (gnode g)))) = k"
  shows "\<exists>g'. groupRun r (replicate (Suc k) (Handle ord obs clk)) g = Ret g' \<and> moves r AHandler Returned g g'"
  using assms
proof (induction k arbitrary: g)
  case 0
  note h = halted_facts [OF 0(1)]
  let ?e = "Handle ord obs clk"
  have u: "rn_update r (rn r (gnode g)) (gnode g) = gnode g" by (simp add: rn_update_def rn_def)
  have s: "groupStep r ?e g = Ret (returned AHandler g)"
    using 0(2,3) h(3,5) u by (simp add: handleMessage_def chanRecv_def looped_def)
  then have "halted r (returned AHandler g)" using halted_step [OF 0(1) s] 0(1) by (simp add: halted_def)
  then show ?case by (auto simp: s moves_def returned_def simp del: groupStep.simps)
next
  case (Suc k)
  note h = halted_facts [OF Suc(2)]
  let ?e = "Handle ord obs clk" and ?x = "rn r (gnode g)"
  obtain w ws where w: "chanItems (inboundMsgQueue ?x) = w # ws" "length ws = k" using Suc.prems(3) by (auto simp: length_Suc_conv)
  let ?g = "g\<lparr> gnode := rn_update r (?x\<lparr> inboundMsgQueue := (inboundMsgQueue ?x)\<lparr> chanItems := ws \<rparr> \<rparr>) (gnode g) \<rparr>"
  have s: "groupStep r ?e g = Ret ?g"
    using Suc.prems(2) w(1) h(1,5) by (simp add: handleMessage_def chanRecv_def looped_def rn_rn_update Let_def)
  have g: "halted r ?g" using halted_step [OF Suc.prems(1) s] Suc.prems(1) by (simp add: halted_def)
  obtain g' where "groupRun r (replicate (Suc k) ?e) ?g = Ret g'" "moves r AHandler Returned ?g g'"
    using Suc.IH [OF g] Suc.prems(2) w(2) h(1) by (auto simp: rn_rn_update)
  then show ?case using s h(1) by (auto simp: moves_def rn_rn_update)
qed

lemma drain_sender:
  assumes "halted r g" "gstate g ASender = Running" "length (chanItems (outboundMsgQueue (rn r (gnode g)))) = k"
  shows "\<exists>g'. groupRun r (replicate (Suc k) (SendOut [])) g = Ret g' \<and> moves r ASender Returned g g'"
  using assms
proof (induction k arbitrary: g)
  case 0
  note h = halted_facts [OF 0(1)]
  have u: "rn_update r (rn r (gnode g)) (gnode g) = gnode g" by (simp add: rn_update_def rn_def)
  have "groupStep r (SendOut []) g = Ret (returned ASender g)"
    using 0(2,3) h(4,5) u by (simp add: networkSender_def chanRecv_def looped_def)
  then show ?case using halted_step [OF 0(1), of "SendOut []"] 0(1) by (auto simp: moves_def returned_def halted_def)
next
  case (Suc k)
  note h = halted_facts [OF Suc(2)]
  let ?x = "rn r (gnode g)"
  obtain w ws where w: "chanItems (outboundMsgQueue ?x) = w # ws" "length ws = k" using Suc.prems(3) by (auto simp: length_Suc_conv)
  let ?g = "g\<lparr> gnode := rn_update r (?x\<lparr> outboundMsgQueue := (outboundMsgQueue ?x)\<lparr> chanItems := ws \<rparr> \<rparr>) (gnode g) \<rparr>"
  have s: "groupStep r (SendOut []) g = Ret ?g"
    using Suc.prems(2) w(1) h(1,5) by (simp add: networkSender_def chanRecv_def looped_def Let_def)
  have g: "halted r ?g" using halted_step [OF Suc.prems(1) s] Suc.prems(1) by (simp add: halted_def)
  obtain g' where "groupRun r (replicate (Suc k) (SendOut [])) ?g = Ret g'" "moves r ASender Returned ?g g'"
    using Suc.IH [OF g] Suc.prems(2) w(2) h(1) by (auto simp: rn_rn_update)
  then show ?case using s h(1) by (auto simp: moves_def rn_rn_update)
qed

lemma actor_ends:
  assumes "halted r g" "a \<noteq> ATear"
  shows "\<exists>es g'. groupRun r es g = Ret g' \<and> moves r a Returned g g'"
proof -
  have run: "\<exists>es g'. groupRun r es h = Ret g' \<and> moves r a Returned h g'" if "halted r h" "gstate h a = Running" for h :: "('a, 'b, 'c) actorGroup"
  proof (cases "a = ADone \<or> a = APing \<or> a = APong")
    case True
    from leave_halted [OF that True] obtain g' where "groupStep r (Leave a) h = Ret g'" "moves r a Returned h g'" by blast
    then show ?thesis by (intro exI [of _ "[Leave a]"]) simp
  next
    case False
    then consider "a = AConsumer" | "a = AHandler" | "a = ASender" using assms(2) by (cases a) auto
    then show ?thesis
    proof cases
      case 1
      from consume_halted [OF that(1)] that(2) 1 obtain g' where "groupStep r Consume h = Ret g'" "moves r a Returned h g'" by blast
      then show ?thesis by (intro exI [of _ "[Consume]"]) simp
    next
      case 2
      with drain_handler [OF that(1) _ refl] that(2) show ?thesis by blast
    next
      case 3
      with drain_sender [OF that(1) _ refl] that(2) show ?thesis by blast
    qed
  qed
  show ?thesis
  proof (cases "gstate g a")
    case Spawned
    from enter_halted [OF assms(1) this] obtain g1 where g1: "groupStep r (Enter a 0) g = Ret g1" "moves r a Running g g1" by blast
    then have "halted r g1" "gstate g1 a = Running" by (simp_all add: moves_def)
    from run [OF this] obtain es g' where "groupRun r es g1 = Ret g'" "moves r a Returned g1 g'" by blast
    then show ?thesis using g1 moves_trans by (intro exI [of _ "Enter a 0 # es"]) auto
  next
    case Running
    then show ?thesis using run assms(1) by blast
  next
    case Returned
    then show ?thesis using assms(1) by (intro exI [of _ "[]"]) (auto simp: moves_def)
  qed
qed

lemma actors_end:
  assumes "halted r g" "ATear \<notin> set as"
  shows "\<exists>es g'. groupRun r es g = Ret g' \<and> halted r g' \<and> (\<forall>a. gstate g' a = (if a \<in> set as then Returned else gstate g a)) \<and>
    joinQueue (gnode g') = joinQueue (gnode g) \<and> rconfig (rn r (gnode g')) = rconfig (rn r (gnode g))"
  using assms
proof (induction as arbitrary: g)
  case Nil
  then show ?case by (intro exI [of _ "[]"]) simp
next
  case (Cons a as)
  from actor_ends [OF Cons.prems(1), of a] Cons.prems(2) obtain es g1 where g1: "groupRun r es g = Ret g1" "moves r a Returned g g1" by auto
  then have "halted r g1" by (simp add: moves_def)
  from Cons.IH [OF this] Cons.prems(2) obtain fs g' where g': "groupRun r fs g1 = Ret g'" "halted r g'"
    "\<forall>b. gstate g' b = (if b \<in> set as then Returned else gstate g1 b)" "joinQueue (gnode g') = joinQueue (gnode g1)"
    "rconfig (rn r (gnode g')) = rconfig (rn r (gnode g1))" by auto
  then show ?case using g1 by (intro exI [of _ "es @ fs"] exI [of _ g']) (auto simp: groupRun_append moves_def)
qed

lemma interrupts_called:
  assumes "group_inv r g" "toInterrupt g = Some as"
  shows "\<exists>g'. groupRun r (replicate (length as) Interrupt) g = Ret g' \<and> halted r g' \<and> gstate g' = gstate g \<and>
    joinQueue (gnode g') = joinQueue (gnode g) \<and> rconfig (rn r (gnode g')) = rconfig (rn r (gnode g))"
  using assms
proof (induction as arbitrary: g)
  case Nil
  then show ?case by (simp add: halted_def)
next
  case (Cons a as)
  from interruptActor_inv [OF Cons.prems] obtain g1 where g1: "interruptActor r a g = Ret g1" "group_inv r (g1\<lparr> toInterrupt := Some as \<rparr>)"
    "gstate g1 = gstate g" "joinQueue (gnode g1) = joinQueue (gnode g)" "rconfig (rn r (gnode g1)) = rconfig (rn r (gnode g))" by blast
  from Cons.IH [OF g1(2)] show ?case using g1 Cons.prems(2) by auto
qed

lemma interrupts_start:
  assumes "group_inv r g" "gstate g a = Returned"
  shows "\<exists>es g'. groupRun r es g = Ret g' \<and> halted r g' \<and> gstate g' = gstate g \<and>
    joinQueue (gnode g') = joinQueue (gnode g) \<and> rconfig (rn r (gnode g')) = rconfig (rn r (gnode g))"
proof (cases "toInterrupt g")
  case None
  have o: "calls_each_once actors" by (simp add: calls_each_once_def) (simp add: actors_def)
  have "list_ex (\<lambda>a. gstate g a = Returned) actors" using assms(2) by (auto simp: list_ex_iff)
  then have s: "groupStep r (Notice actors) g = Ret (g\<lparr> toInterrupt := Some actors \<rparr>)" using None by simp
  then have "group_inv r (g\<lparr> toInterrupt := Some actors \<rparr>)" using groupStep_inv [OF assms(1) s] o by blast
  from interrupts_called [OF this, of actors] obtain g' where
    "groupRun r (replicate (length actors) Interrupt) (g\<lparr> toInterrupt := Some actors \<rparr>) = Ret g'" "halted r g'" "gstate g' = gstate g"
    "joinQueue (gnode g') = joinQueue (gnode g)" "rconfig (rn r (gnode g')) = rconfig (rn r (gnode g))" by auto
  then show ?thesis using s by (intro exI [of _ "Notice actors # replicate (length actors) Interrupt"] exI [of _ g']) simp
next
  case (Some as)
  then show ?thesis using interrupts_called [OF assms(1) Some] by blast
qed

lemma tearDown_removes:
  assumes "\<not> rcReconnectOnDisconnect (rconfig (rn r n)) \<or> room 1 (joinQueue n)"
  shows "\<exists>n'. tearDown r n = Ret n' \<and> list_Get (rcId (rconfig (rn r n))) (remoteNodes n') = None"
  using assms
  by (auto simp: tearDown_def eventRemoteNodeDisconneced_def Let_def rn_def list_Get_abs list_abs_Remove room_def chanSend_def)

section \<open>Properties\<close>


text \<open>
  C14.  Whatever the actors of a remote node have done so far and whichever of them has returned,
  in whichever order the interrupt functions are called: the node can always be brought to its
  end.  No interrupt function panics, every actor can return, and the tear-down then removes the
  node from the register - provided the queue it is put into for reconnecting has room.
\<close>

theorem group_can_always_end:
  assumes "group_reach r g" and "gstate g a = Returned" and "gstate g ATear \<noteq> Returned"
    and "\<not> rcReconnectOnDisconnect (rconfig (rn r (gnode g))) \<or> room 1 (joinQueue (gnode g))"
  shows "\<exists>es g'. groupRun r es g = Ret g' \<and> (\<forall>b. gstate g' b = Returned) \<and>
    list_Get (rcId (rconfig (rn r (gnode g)))) (remoteNodes (gnode g')) = None"
proof -
  let ?as = "[ADone, APing, APong, AConsumer, AHandler, ASender]"
  obtain es1 g1 where g1: "groupRun r es1 g = Ret g1" "halted r g1" "gstate g1 = gstate g"
    "joinQueue (gnode g1) = joinQueue (gnode g)" "rconfig (rn r (gnode g1)) = rconfig (rn r (gnode g))"
    using interrupts_start [OF group_reach_inv [OF assms(1)] assms(2)] by blast
  obtain es2 g2 where g2: "groupRun r es2 g1 = Ret g2" "halted r g2" "\<forall>b. gstate g2 b = (if b \<in> set ?as then Returned else gstate g1 b)"
    "joinQueue (gnode g2) = joinQueue (gnode g1)" "rconfig (rn r (gnode g2)) = rconfig (rn r (gnode g1))"
    using actors_end [OF g1(2), of ?as] by auto
  obtain es3 g3 where g3: "groupRun r es3 g2 = Ret g3" "moves r ATear Running g2 g3"
  proof (cases "gstate g2 ATear")
    case Spawned
    from enter_halted [OF g2(2) this] obtain g3 where "groupStep r (Enter ATear 0) g2 = Ret g3" "moves r ATear Running g2 g3" by blast
    then show ?thesis using that [of "[Enter ATear 0]" g3] by simp
  next
    case Running
    then have "moves r ATear Running g2 g2" using g2(2) by (auto simp: moves_def)
    then show ?thesis using that [of "[]"] by simp
  next
    case Returned
    then show ?thesis using g2(3) g1(3) assms(3) by simp
  qed
  have st: "gstate g3 b = (if b = ATear then Running else Returned)" for b using g3(2) g2(3) by (cases b) (auto simp: moves_def)
  then have "running g3 = 0" by (simp add: running_def actors_def counted_def)
  then have wg: "wg g3 = 0" using halted_facts(8) [of r g3] g3(2) by (simp add: moves_def)
  have "\<not> rcReconnectOnDisconnect (rconfig (rn r (gnode g3))) \<or> room 1 (joinQueue (gnode g3))"
    using assms(4) g1(4,5) g2(4,5) g3(2) by (simp add: moves_def)
  from tearDown_removes [OF this] obtain n where n: "tearDown r (gnode g3) = Ret n"
    "list_Get (rcId (rconfig (rn r (gnode g)))) (remoteNodes n) = None" using g1(5) g2(5) g3(2) by (auto simp: moves_def)
  have "groupRun r (es1 @ es2 @ es3 @ [Leave ATear]) g = Ret (returned ATear (g3\<lparr> gnode := n \<rparr>))"
    using g1(1) g2(1) g3(1) n(1) st wg by (simp add: groupRun_append leave_def)
  then show ?thesis using n(2) st by (intro exI conjI) (auto simp: returned_def)
qed

definition sampleStopping :: "(unit, unit, unit) ClusteredBigCache" where
  "sampleStopping = sampleClient\<lparr> rnHeap := [rn_shutDown samplePeer], remoteNodes := \<lparr> items = [([98], 0)], listSize = 1 \<rparr> \<rparr>"

lemma sampleStopping_returns:
  obtains g g1 g2 where "startGroup 0 sampleStopping = Ret g" "groupStep 0 (Enter ADone 0) g = Ret g1" "groupStep 0 (Leave ADone) g1 = Ret g2"
    "group_reach 0 g2" "gstate g2 ADone = Returned" "gstate g2 ATear = Spawned" "rcId (rconfig (rn 0 (gnode g2))) = [98]"
    "\<not> rcReconnectOnDisconnect (rconfig (rn 0 (gnode g2)))" "list_Get [98] (remoteNodes (gnode g2)) = Some 0"
    "toInterrupt g2 = None" "running g2 = 0"
proof -
  let ?x = "rn 0 sampleStopping"
  let ?m = "VerifyM \<lparr> verifyId = [97], verifyVersion = [], verifyServicePort = decimalInt (sint (9000 :: goint)), verifyMode = clusterModePASSIVE \<rparr>"
  let ?n = "rn_update 0 (?x\<lparr> outboundMsgQueue := queued [?m] (outboundMsgQueue ?x) \<rparr>) sampleStopping"
  let ?g = "\<lparr> gnode = ?n, gstate = (\<lambda>_. Spawned), wg = 1, pingDone = False, pongDone = False, toInterrupt = None \<rparr>"
  let ?g1 = "entered ADone ?g" and ?g2 = "returned ADone (entered ADone ?g)"
  have x: "rstate ?x = nodeStateConnected" "\<not> doneClosed ?x" "stopping ?x" "room 1 (outboundMsgQueue ?x)" "flags ?x = (False, False, False, False)"
    "rcId (rconfig ?x) = [98]" "\<not> rcReconnectOnDisconnect (rconfig ?x)"
    by (simp_all add: sampleStopping_def rn_def rn_shutDown_def samplePeer_def setState_def setConnection_def newRemoteNode_def
        flags_def makeChan_def room_def CHAN_SIZE_def checkConfig_def Let_def)
  have s: "startGroup 0 sampleStopping = Ret ?g"
    using x sendMessage_room [of ?x 0 ?m]
    by (simp add: startGroup_def rn_start_def sendVerify_def onRn_def) (simp add: sampleStopping_def sampleClient_def NewPassiveClient_def emptyNode_def rn_def)
  have 1: "groupStep 0 (Enter ADone 0) ?g = Ret ?g1" by (simp add: enter_def)
  have l: "0 < length (rnHeap sampleStopping)" by (simp add: sampleStopping_def)
  have 2: "groupStep 0 (Leave ADone) ?g1 = Ret ?g2" using x(3) l by (simp add: leave_def entered_def rn_rn_update)
  have "group_reach 0 ?g" unfolding group_reach_def using s l x(5) by blast
  then have "group_reach 0 ?g2"
    by (rule group_reach_run [where es = "[Enter ADone 0, Leave ADone]"]) (use 1 2 in simp_all)
  then show ?thesis using that [OF s 1 2] x(6,7) l
    by (simp add: entered_def returned_def rn_rn_update counted_def running_def actors_def) (simp add: sampleStopping_def list_Get_def)
qed


theorem group_can_always_end_witness:
  "\<exists>g g1 g2 es g'. startGroup 0 sampleStopping = Ret g \<and> groupStep 0 (Enter ADone 0) g = Ret g1 \<and> groupStep 0 (Leave ADone) g1 = Ret g2 \<and>
     list_Get [98] (remoteNodes (gnode g2)) = Some 0 \<and> groupRun 0 es g2 = Ret g' \<and> list_Get [98] (remoteNodes (gnode g')) = None"
proof -
  obtain g g1 g2 where g: "startGroup 0 sampleStopping = Ret g" "groupStep 0 (Enter ADone 0) g = Ret g1" "groupStep 0 (Leave ADone) g1 = Ret g2"
    "group_reach 0 g2" "gstate g2 ADone = Returned" "gstate g2 ATear = Spawned" "rcId (rconfig (rn 0 (gnode g2))) = [98]"
    "\<not> rcReconnectOnDisconnect (rconfig (rn 0 (gnode g2)))" "list_Get [98] (remoteNodes (gnode g2)) = Some 0" by (rule sampleStopping_returns)
  from group_can_always_end [OF g(4,5)] g(6-8) obtain es g' where
    "groupRun 0 es g2 = Ret g'" "list_Get [98] (remoteNodes (gnode g')) = None" by auto
  then show ?thesis using g(1-3,9) by blast
qed

end
