(* ===== verification/Handshake.thy ===== *)
theory Handshake
  imports Membership
begin

text \<open>
  Two nodes that meet.  One dials (\<^verbatim>\<open>join\<close> of \<^verbatim>\<open>remoteNode.go\<close>), the other accepts (\<^verbatim>\<open>listen\<close> of
  \<^verbatim>\<open>clusteredBigCache.go\<close>); both send \<^verbatim>\<open>VERIFY\<close>, register the other and answer with
  \<^verbatim>\<open>VERIFYOK\<close>.  At the end each has the other in its register as a connected peer, in the state
  from which messages are replicated.
\<close>

section \<open>A peer during the handshake\<close>

definition at_peer :: "remoteNodeState \<Rightarrow> NodeMessage list \<Rightarrow> nat \<Rightarrow> ('t, 'u, 'h) ClusteredBigCache \<Rightarrow> bool" where
  "at_peer st out r n \<longleftrightarrow> r < length (rnHeap n) \<and> rstate (rn r n) = st \<and> \<not> doneClosed (rn r n) \<and>
     inboundMsgQueue (rn r n) = makeChan CHAN_SIZE \<and> outboundMsgQueue (rn r n) = queued out (makeChan CHAN_SIZE) \<and>
     (\<exists>c. rconnection (rn r n) = Some c \<and> conn_ok c \<and> \<not> conn_broken c \<and> pending c = [])"

text \<open>What the handshake does not change.\<close>

definition same_node :: "nat \<Rightarrow> ('t, 'u, 'h) ClusteredBigCache \<Rightarrow> ('t, 'u, 'h) ClusteredBigCache \<Rightarrow> bool" where
  "same_node r n n' \<longleftrightarrow> nodeConfig n' = nodeConfig n \<and> clusterMode n' = clusterMode n \<and>
     rcSync (rconfig (rn r n')) = rcSync (rconfig (rn r n))"

definition verifyOf :: "('t, 'u, 'h) ClusteredBigCache \<Rightarrow> VerifyMessage" where
  "verifyOf n = \<lparr> verifyId = ccId (nodeConfig n), verifyVersion = [],
     verifyServicePort = decimalInt (sint (ccLocalPort (nodeConfig n))), verifyMode = clusterMode n \<rparr>"

definition registered :: "nat \<Rightarrow> VerifyMessage \<Rightarrow> ('t, 'u, 'h) ClusteredBigCache \<Rightarrow> bool" where
  "registered r v n \<longleftrightarrow> list_Get (verifyId v) (remoteNodes n) = Some r \<and> rcId (rconfig (rn r n)) = verifyId v \<and>
     rcServicePort (rconfig (rn r n)) = verifyServicePort v \<and> rmode (rn r n) = verifyMode v"

lemma at_peer_idle: "at_peer nodeStateConnected [] r n \<Longrightarrow> idle_peer (rn r n)"
  by (auto simp: at_peer_def idle_peer_def room_def makeChan_def CHAN_SIZE_def)

lemma room_makeChan: "room n (makeChan CHAN_SIZE) \<longleftrightarrow> n \<le> 65536"
  by (simp add: room_def makeChan_def CHAN_SIZE_def)

section \<open>The verify message\<close>

lemma decimal_ascii: "list_all (\<lambda>b. b < 0x80) (decimal n)"
proof (induction n rule: decimal.induct)
  case (1 n)
  have "(of_nat (48 + k) :: byte) < 0x80" if "k < 10" for k
    using that by (simp add: word_less_nat_alt unat_of_nat_small del: of_nat_add)
  then show ?case using 1 by (subst decimal.simps) (simp del: of_nat_add)
qed

lemma length_decimal: "n < 10 ^ k \<Longrightarrow> 0 < k \<Longrightarrow> length (decimal n) \<le> k"
proof (induction n arbitrary: k rule: decimal.induct)
  case (1 n)
  show ?case
  proof (cases "n < 10")
    case False
    then obtain j where j: "k = Suc j" "0 < j" using 1(2,3) by (cases k; cases "k - 1") auto
    then have "n div 10 < 10 ^ j" using 1(2) by (simp add: less_mult_imp_div_less mult.commute)
    then show ?thesis using 1(1) [OF False _ j(2)] False j(1) by (subst decimal.simps) simp
  qed (use 1(3) in \<open>simp add: decimal.simps\<close>)
qed

lemma port_text:
  "validString (decimalInt (sint (p :: goint)))" "length (decimalInt (sint p)) \<le> 20"
proof -
  show "validString (decimalInt (sint p))"
    unfolding coerce_id_iff [symmetric] by (rule coerce_ascii) (simp add: decimalInt_def decimal_ascii)
  have b: "nat \<bar>sint p\<bar> < 10 ^ 19" using sint_greater_eq [of p] sint_less [of p] by (auto simp: nat_less_iff)
  show "length (decimalInt (sint p)) \<le> 20"
    using length_decimal [OF b] by (auto simp: decimalInt_def abs_if split: if_splits)
qed

lemma verify_wire:
  assumes "validString (ccId (nodeConfig n))" and "length (ccId (nodeConfig n)) < 2 ^ 24"
  obtains w where "Serialize (VerifyM (verifyOf n)) = Ret w" "framable w" "wireCode w = MsgVERIFY"
    "length (wireData w) \<le> 6 * length (ccId (nodeConfig n)) + 500" "\<forall>m0. verify_DeSerialize w m0 = Ret (verifyOf n)"
proof -
  let ?v = "verifyOf n" and ?w = "\<lparr> wireCode = MsgVERIFY, wireData = render (verifyJson (verifyOf n)) \<rparr>"
  have s: "verify_Serialize ?v = Ret (?w, ?v)" by (simp add: verify_Serialize_def)
  have "verify_DeSerialize ?w m0 = Ret ?v" for m0
    using verifyM.round_law [OF _ s, of m0] assms(1) port_text(1) [of "ccLocalPort (nodeConfig n)"]
    by (simp add: verifyOf_def flip: coerce_id_iff)
  moreover have "unat (clusterMode n) < 2 ^ LENGTH(8)" by (rule unsigned_less)
  then have "length (decimal (unat (clusterMode n))) \<le> 3" by (intro length_decimal) simp_all
  then have "length (render (verifyJson ?v)) \<le> 6 * length (ccId (nodeConfig n)) + 500"
    using length_quote [of "ccId (nodeConfig n)"] length_quote [of "decimalInt (sint (ccLocalPort (nodeConfig n)))"]
      port_text(2) [of "ccLocalPort (nodeConfig n)"] length_quote [of "lit ''id''"] length_quote [of "lit ''version''"]
      length_quote [of "lit ''service_port''"] length_quote [of "lit ''mode''"] length_quote [of "[]"]
    by (simp add: verifyJson_def verifyOf_def jsonUint_def lit_def del: quote_def quoteBody.simps)
  ultimately show ?thesis using that [of ?w] s assms(2) by (simp add: framable_def)
qed

section \<open>Steps of the handshake\<close>

lemma queueInbound_at_peer:
  assumes "rstate y = nodeStateConnected \<or> rstate y = nodeStateHandshake \<and> verifying w" "\<not> doneClosed y"
    "room (Suc n) (inboundMsgQueue y)"
  shows "queueInboundMessage w y = Ret (y\<lparr> inboundMsgQueue := queued [w] (inboundMsgQueue y) \<rparr>)"
  using assms by (auto simp: queueInboundMessage_def selectSend_room verifying_def)

text \<open>The first message of the sender's queue crosses the network and is handled.\<close>

lemma carry_next:
  assumes a: "at_peer st (m # out) r a" "st \<noteq> nodeStateDisconnected" and b: "at_peer st' out' s b"
    and st': "st' = nodeStateConnected \<or> st' = nodeStateHandshake \<and> verifying w"
    and w: "Serialize m = Ret w" "framable w" and net: "accepts ws (length (wireData w) + 6)" "\<And>bs. concat (pieces bs) = bs"
  obtains a' y where "at_peer st out r a'" "same_node r a a'" "\<forall>v. registered r v a' = registered r v a"
    "remoteNodes a' = remoteNodes a" "at_peer st' out' s (rn_update s y b)" "same_node s b (rn_update s y b)"
    "\<forall>v. registered s v (rn_update s y b) = registered s v b"
    "carry pieces ws order obs clk r a s b = obind (dispatch order obs clk w s (rn_update s y b)) (\<lambda>(_, b). Ret (a', b))"
proof -
  let ?x = "rn r a" and ?z = "rn s b"
  obtain c where c: "rconnection ?x = Some c" "conn_ok c" "\<not> conn_broken c" "pending c = []" using a(1) by (auto simp: at_peer_def)
  obtain d where d: "rconnection ?z = Some d" "conn_ok d" "\<not> conn_broken d" "pending d = []" using b by (auto simp: at_peer_def)
  let ?x' = "?x\<lparr> outboundMsgQueue := queued out (makeChan CHAN_SIZE), rconnection := Some (c\<lparr> outgoing := outgoing c @ frameOf w \<rparr>) \<rparr>"
  have acc: "accepts ws (length (frameOf w))" using net(1) by (simp add: frameOf_def add.commute)
  have 1: "networkSender ws ?x = Ret (True, ?x')"
    using networkSender_frame [OF _ _ w(1) c(1) _ acc, of out] a c(2) by (simp add: at_peer_def queued_def makeChan_def conn_ok_def)
  let ?d = "delivered pieces (frameOf w) d"
  note dp = delivered_pending [of d pieces "frameOf w", OF d(3) net(2)]
  obtain d' where d': "conn_ok d'" "pending d' = []" "conn_broken d' = conn_broken ?d"
    "networkConsumer (?z\<lparr> rconnection := Some ?d \<rparr>) =
      obind (queueInboundMessage w (?z\<lparr> rconnection := Some d' \<rparr>)) (\<lambda>r. Ret (True, r))"
    by (rule networkConsumer_frame [of "?z\<lparr> rconnection := Some ?d \<rparr>" ?d w "[]", OF _ _ _ _ w(2)])
      (use b st' d dp in \<open>auto simp: at_peer_def\<close>)
  let ?y = "?z\<lparr> rconnection := Some d' \<rparr>"
  have 2: "networkConsumer (?z\<lparr> rconnection := Some ?d \<rparr>) =
      Ret (True, ?y\<lparr> inboundMsgQueue := queued [w] (inboundMsgQueue ?y) \<rparr>)"
    using d'(4) queueInbound_at_peer [of ?y w 0] b st' by (simp add: at_peer_def room_makeChan)
  have 3: "handleMessage order obs clk s (rn_update s (?y\<lparr> inboundMsgQueue := queued [w] (inboundMsgQueue ?y) \<rparr>) b) =
      dispatch order obs clk w s (rn_update s ?y b)"
    by (rule handleMessage_one) (use b st' in \<open>auto simp: at_peer_def makeChan_def\<close>)
  have "carry pieces ws order obs clk r a s b =
      obind (dispatch order obs clk w s (rn_update s ?y b)) (\<lambda>(_, b). Ret (rn_update r ?x' a, b))"
    using 1 2 3 c(1) d(1) by (simp add: carry_def written_def)
  then show ?thesis using a(1) b c d' dp
    by (intro that [of "rn_update r ?x' a" ?y])
      (auto simp: at_peer_def same_node_def registered_def rn_rn_update conn_ok_def conn_broken_def pending_def)
qed

lemma dispatch_VERIFY:
  assumes w: "wireCode w = MsgVERIFY" "\<forall>m0. verify_DeSerialize w m0 = Ret v" and n: "at_peer nodeStateHandshake out s n"
    and new: "\<not> list_Contains (verifyId v) (remoteNodes n)" and len: "length out < 65536"
    and act: "\<not> (verifyMode v = clusterModePASSIVE \<and> clusterMode n = clusterModePASSIVE)"
  shows "\<exists>n'. dispatch order obs clk w s n = Ret (True, n') \<and> at_peer nodeStateConnected (out @ [VerifyOKM VerifyOKMessage]) s n' \<and>
    registered s v n' \<and> same_node s n n'"
proof -
  define x where "x = (rn s n)\<lparr> rconfig := (rconfig (rn s n))\<lparr> rcId := verifyId v, rcServicePort := verifyServicePort v \<rparr>, rmode := verifyMode v \<rparr>"
  define n1 where "n1 = (rn_update s x n)\<lparr> remoteNodes := list_Add (verifyId v) (Some s) (remoteNodes n),
    pendingConn := AList.delete (verifyId v) (pendingConn n) \<rparr>"
  define y where "y = setState nodeStateConnected (if verifyMode v = clusterModePASSIVE
    then x\<lparr> rconfig := (rconfig x)\<lparr> rcReconnectOnDisconnect := False \<rparr> \<rparr> else x)"
  let ?y = "y\<lparr> outboundMsgQueue := queued [VerifyOKM VerifyOKMessage] (outboundMsgQueue y) \<rparr>"
  have s: "s < length (rnHeap n)" "length (rnHeap n1) = length (rnHeap n)" using n by (simp_all add: at_peer_def n1_def)
  have 1: "eventVerifyRemoteNode s (rn_update s x n) = (True, n1)"
    using new s by (simp add: eventVerifyRemoteNode_def rn_rn_update Let_def n1_def x_def)
  have 2: "sendMessage (VerifyOKM VerifyOKMessage) y = Ret ?y"
    by (rule sendMessage_room [of _ 0]) (use n len in \<open>auto simp: at_peer_def setState_def room_makeChan y_def x_def\<close>)
  have 3: "rn s n1 = x" using s by (simp add: rn_def rn_update_def n1_def)
  have "handleVerify w s n = Ret (True, rn_update s ?y n1)"
    using w(2) act 2 unfolding handleVerify_def Let_def
    by (simp add: 1 3 flip: x_def) (auto simp: y_def)
  then have "dispatch order obs clk w s n = Ret (True, rn_update s ?y n1)" using w(1) by (simp add: dispatch_def)
  moreover have "rn s (rn_update s ?y n1) = ?y" using s by (simp add: rn_rn_update)
  ultimately show ?thesis using n s
    by (intro exI [of _ "rn_update s ?y n1"])
      (auto simp: at_peer_def registered_def same_node_def setState_def list_Get_abs list_abs_Add y_def x_def n1_def)
qed

lemma dispatch_VERIFYOK:
  assumes "wireCode w = MsgVERIFYOK" and n: "at_peer nodeStateConnected out s n" and "obs 0 = nodeStateConnected" and "length out < 65536"
  shows "\<exists>n'. dispatch order obs clk w s n = Ret (True, n') \<and> same_node s n n' \<and> (\<forall>v. registered s v n' = registered s v n) \<and>
    at_peer nodeStateConnected (out @ (if rcSync (rconfig (rn s n))
      then [SyncReqM \<lparr> syncReqCode = 0, syncReqMode = clusterMode n \<rparr>] else [])) s n'"
proof -
  let ?m = "SyncReqM \<lparr> syncReqCode = 0, syncReqMode = clusterMode n \<rparr>"
  let ?y = "(rn s n)\<lparr> outboundMsgQueue := queued [?m] (outboundMsgQueue (rn s n)) \<rparr>"
  have "waitHandshake obs 0 5 = 0" using assms(3) by (simp add: numeral_eq_Suc)
  moreover have "sendMessage ?m (rn s n) = Ret ?y"
    by (rule sendMessage_room [of _ 0]) (use n assms(4) in \<open>auto simp: at_peer_def room_makeChan\<close>)
  ultimately have "dispatch order obs clk w s n = Ret (True, if rcSync (rconfig (rn s n)) then rn_update s ?y n else n)"
    using assms(1) by (simp add: dispatch_def msg_codes handleVerifyOK_def onRn_def onwards_def)
  then show ?thesis using n
    by (auto simp: at_peer_def same_node_def registered_def rn_rn_update)
qed

text \<open>Both ends before the first message.\<close>

lemma start_at_peer:
  assumes "r < length (rnHeap n)" and "rn r n = x\<lparr> rstate := nodeStateHandshake, rconnection := Some (WrapConnection l p []) \<rparr>"
    and "x = newRemoteNode cfg"
  shows "\<exists>n'. rn_start r n = Ret n' \<and> at_peer nodeStateHandshake [VerifyM (verifyOf n)] r n' \<and> same_node r n n' \<and>
    remoteNodes n' = remoteNodes n"
proof -
  let ?x = "rn r n"
  have "sendMessage (VerifyM (verifyOf n)) ?x = Ret (?x\<lparr> outboundMsgQueue := queued [VerifyM (verifyOf n)] (outboundMsgQueue ?x) \<rparr>)"
    by (rule sendMessage_room [of _ 0]) (simp_all add: assms(2,3) newRemoteNode_def room_makeChan)
  then show ?thesis using assms
    by (auto simp: rn_start_def sendVerify_def onRn_def at_peer_def same_node_def rn_rn_update newRemoteNode_def
        WrapConnection_def conn_ok_def conn_broken_def pending_def simp flip: verifyOf_def)
qed

lemma join_at_peer:
  assumes "r < length (rnHeap a)" and "rn r a = newRemoteNode cfg"
  shows "\<exists>a'. rn_join [(Inr l, [])] r a = Ret a' \<and> at_peer nodeStateHandshake [VerifyM (verifyOf a)] r a' \<and> same_node r a a' \<and>
    remoteNodes a' = remoteNodes a"
proof -
  let ?x = "(newRemoteNode cfg)\<lparr> rstate := nodeStateHandshake, rconnection := Some (WrapConnection l (rcIpAddress (rconfig (rn r a))) []) \<rparr>"
  let ?n = "rn_update r ?x a"
  have "rn_join [(Inr l, [])] r a = rn_start r ?n"
    using assms by (simp add: rn_join_def rn_connect_def NewConnection_def setState_def rn_rn_update newRemoteNode_def)
  moreover have x: "rn r ?n = ?x" "verifyOf ?n = verifyOf a" "r < length (rnHeap ?n)"
    using assms(1) by (simp_all add: rn_rn_update verifyOf_def)
  moreover obtain n' where "rn_start r ?n = Ret n'" "at_peer nodeStateHandshake [VerifyM (verifyOf ?n)] r n'" "same_node r ?n n'"
    "remoteNodes n' = remoteNodes ?n" using start_at_peer [OF x(3,1) refl] by blast
  ultimately show ?thesis using assms(2) by (auto simp: same_node_def)
qed

lemma listen_at_peer:
  "\<exists>b'. listen (Inr (l, p, [])) k b = Ret ((True, 0), b') \<and> at_peer nodeStateHandshake [VerifyM (verifyOf b)] (length (rnHeap b)) b' \<and>
    nodeConfig b' = nodeConfig b \<and> clusterMode b' = clusterMode b \<and> \<not> rcSync (rconfig (rn (length (rnHeap b)) b')) \<and>
    remoteNodes b' = remoteNodes b"
proof -
  let ?c = "peerConfig (nodeConfig b) p False False" and ?s = "length (rnHeap b)"
  let ?x = "(newRemoteNode ?c)\<lparr> rstate := nodeStateHandshake, rconnection := Some (WrapConnection l p []) \<rparr>"
  let ?n = "b\<lparr> rnHeap := rnHeap b @ [?x] \<rparr>"
  have x: "rn ?s ?n = ?x" "verifyOf ?n = verifyOf b" by (simp_all add: rn_def verifyOf_def)
  have "listen (Inr (l, p, [])) k b = obind (rn_start ?s ?n) (\<lambda>n. Ret ((True, 0), n))"
    by (simp add: listen_def addRn_def setState_def setConnection_def)
  moreover have "\<not> rcSync (rconfig ?x)" by (simp add: newRemoteNode_def checkConfig_def peerConfig_def Let_def)
  moreover obtain n' where "rn_start ?s ?n = Ret n'" "at_peer nodeStateHandshake [VerifyM (verifyOf ?n)] ?s n'" "same_node ?s ?n n'"
    "remoteNodes n' = remoteNodes ?n"
    using start_at_peer [OF _ x(1) refl] by auto
  ultimately show ?thesis using x by (auto simp: same_node_def)
qed

section \<open>The exchange\<close>

text \<open>
  The four messages of a handshake between the dialling node \<open>a\<close> and the accepting node \<open>b\<close>; the
  \<open>i\<close>-th message meets the \<open>i\<close>-th behaviour of the network, the clock and the visiting order.
\<close>

definition exchange ::
    "(nat \<Rightarrow> byte list \<Rightarrow> byte list list) \<Rightarrow> (nat \<Rightarrow> (nat \<times> netError option) list) \<Rightarrow> (nat \<Rightarrow> visit_order) \<Rightarrow>
     (nat \<Rightarrow> nat \<Rightarrow> remoteNodeState) \<Rightarrow> (nat \<Rightarrow> clock) \<Rightarrow>
     nat \<Rightarrow> ('t, 'u, 'h) ClusteredBigCache \<Rightarrow> nat \<Rightarrow> ('v, 'w, 'k) ClusteredBigCache
     \<Rightarrow> (('t, 'u, 'h) ClusteredBigCache \<times> ('v, 'w, 'k) ClusteredBigCache) outcome" where
  "exchange pieces ws order obs clk r a s b =
     obind (carry (pieces 0) (ws 0) (order 0) (obs 0) (clk 0) r a s b) (\<lambda>(a, b).
     obind (carry (pieces 1) (ws 1) (order 1) (obs 1) (clk 1) s b r a) (\<lambda>(b, a).
     obind (carry (pieces 2) (ws 2) (order 2) (obs 2) (clk 2) r a s b) (\<lambda>(a, b).
     obind (carry (pieces 3) (ws 3) (order 3) (obs 3) (clk 3) s b r a) (\<lambda>(b, a). Ret (a, b)))))"

lemma carry_VERIFY:
  assumes "at_peer st (VerifyM (verifyOf a0) # out) r a" "st \<noteq> nodeStateDisconnected"
    and b: "at_peer nodeStateHandshake out' s b" "length out' < 65536"
    and id0: "validString (ccId (nodeConfig a0))" "length (ccId (nodeConfig a0)) < 2 ^ 24"
    and new: "\<not> list_Contains (ccId (nodeConfig a0)) (remoteNodes b)"
    and act: "\<not> (clusterMode a0 = clusterModePASSIVE \<and> clusterMode b = clusterModePASSIVE)"
    and net: "accepts ws (6 * length (ccId (nodeConfig a0)) + 506)" "\<And>bs. concat (pieces bs) = bs"
  obtains a' b' where "carry pieces ws order obs clk r a s b = Ret (a', b')"
    "at_peer st out r a'" "same_node r a a'" "\<forall>v. registered r v a' = registered r v a" "remoteNodes a' = remoteNodes a"
    "at_peer nodeStateConnected (out' @ [VerifyOKM VerifyOKMessage]) s b'" "same_node s b b'" "registered s (verifyOf a0) b'"
proof -
  obtain w where w: "Serialize (VerifyM (verifyOf a0)) = Ret w" "framable w" "wireCode w = MsgVERIFY"
    "length (wireData w) \<le> 6 * length (ccId (nodeConfig a0)) + 500" "\<forall>m0. verify_DeSerialize w m0 = Ret (verifyOf a0)"
    by (rule verify_wire [OF id0])
  have acc: "accepts ws (length (wireData w) + 6)" using net(1) w(4) by (auto intro: accepts_mono)
  obtain a' y where c: "at_peer st out r a'" "same_node r a a'" "\<forall>v. registered r v a' = registered r v a" "remoteNodes a' = remoteNodes a"
    "at_peer nodeStateHandshake out' s (rn_update s y b)" "same_node s b (rn_update s y b)"
    "carry pieces ws order obs clk r a s b = obind (dispatch order obs clk w s (rn_update s y b)) (\<lambda>(_, b). Ret (a', b))"
    by (rule carry_next [OF assms(1,2) b(1) _ w(1,2) acc net(2)]) (use w(3) in \<open>auto simp: verifying_def\<close>)
  have "\<not> list_Contains (verifyId (verifyOf a0)) (remoteNodes (rn_update s y b))"
    "\<not> (verifyMode (verifyOf a0) = clusterModePASSIVE \<and> clusterMode (rn_update s y b) = clusterModePASSIVE)"
    using new act by (simp_all add: verifyOf_def)
  then obtain b' where "dispatch order obs clk w s (rn_update s y b) = Ret (True, b')"
    "at_peer nodeStateConnected (out' @ [VerifyOKM VerifyOKMessage]) s b'" "registered s (verifyOf a0) b'" "same_node s (rn_update s y b) b'"
    using dispatch_VERIFY [OF w(3,5) c(5) _ b(2)] by blast
  then show ?thesis using that c by (auto simp: same_node_def)
qed

lemma carry_VERIFYOK:
  assumes "at_peer st (VerifyOKM VerifyOKMessage # out) r a" "st \<noteq> nodeStateDisconnected"
    and b: "at_peer nodeStateConnected out' s b" "length out' < 65536" "obs 0 = nodeStateConnected"
    and net: "accepts ws 6" "\<And>bs. concat (pieces bs) = bs"
  obtains a' b' where "carry pieces ws order obs clk r a s b = Ret (a', b')"
    "at_peer st out r a'" "same_node r a a'" "\<forall>v. registered r v a' = registered r v a"
    "at_peer nodeStateConnected (out' @ (if rcSync (rconfig (rn s b))
      then [SyncReqM \<lparr> syncReqCode = 0, syncReqMode = clusterMode b \<rparr>] else [])) s b'"
    "same_node s b b'" "\<forall>v. registered s v b' = registered s v b"
proof -
  let ?w = "\<lparr> wireCode = MsgVERIFYOK, wireData = [] \<rparr>"
  have w: "Serialize (VerifyOKM VerifyOKMessage) = Ret ?w" "framable ?w" "accepts ws (length (wireData ?w) + 6)"
    using net(1) by (simp_all add: verifyOK_Serialize_def framable_def)
  obtain a' y where c: "at_peer st out r a'" "same_node r a a'" "\<forall>v. registered r v a' = registered r v a"
    "at_peer nodeStateConnected out' s (rn_update s y b)" "same_node s b (rn_update s y b)"
    "\<forall>v. registered s v (rn_update s y b) = registered s v b"
    "carry pieces ws order obs clk r a s b = obind (dispatch order obs clk ?w s (rn_update s y b)) (\<lambda>(_, b). Ret (a', b))"
    by (rule carry_next [OF assms(1,2) b(1) _ w net(2)]) auto
  show ?thesis using dispatch_VERIFYOK [OF _ c(4), of ?w obs order clk] that c b(2,3) by (auto simp: same_node_def)
qed

text \<open>The two verify messages, and the two answers.\<close>

lemma exchange_VERIFY:
  assumes a: "at_peer nodeStateHandshake [VerifyM (verifyOf a0)] r a" and b: "at_peer nodeStateHandshake [VerifyM (verifyOf b0)] s b"
    and ids: "validString (ccId (nodeConfig a0))" "length (ccId (nodeConfig a0)) < 2 ^ 24"
      "validString (ccId (nodeConfig b0))" "length (ccId (nodeConfig b0)) < 2 ^ 24"
    and new: "\<not> list_Contains (ccId (nodeConfig a0)) (remoteNodes b)" "\<not> list_Contains (ccId (nodeConfig b0)) (remoteNodes a)"
    and act: "\<not> (clusterMode a0 = clusterModePASSIVE \<and> clusterMode b0 = clusterModePASSIVE)"
      "clusterMode a = clusterMode a0" "clusterMode b = clusterMode b0"
    and net: "accepts ws (6 * length (ccId (nodeConfig a0)) + 506)" "accepts ws' (6 * length (ccId (nodeConfig b0)) + 506)"
      "\<And>bs. concat (pieces bs) = bs" "\<And>bs. concat (pieces' bs) = bs"
  obtains a1 b1 a' b' where "carry pieces ws order obs clk r a s b = Ret (a1, b1)" "carry pieces' ws' order' obs' clk' s b1 r a1 = Ret (b', a')"
    "at_peer nodeStateConnected [VerifyOKM VerifyOKMessage] r a'" "same_node r a a'" "registered r (verifyOf b0) a'"
    "at_peer nodeStateConnected [VerifyOKM VerifyOKMessage] s b'" "same_node s b b'" "registered s (verifyOf a0) b'"
proof -
  obtain a1 b1 where 1: "carry pieces ws order obs clk r a s b = Ret (a1, b1)"
    "at_peer nodeStateHandshake [] r a1" "same_node r a a1" "remoteNodes a1 = remoteNodes a"
    "at_peer nodeStateConnected [VerifyM (verifyOf b0), VerifyOKM VerifyOKMessage] s b1" "same_node s b b1" "registered s (verifyOf a0) b1"
    by (rule carry_VERIFY [where order = order and obs = obs and clk = clk, OF a _ b _ ids(1,2) new(1) _ net(1,3)]) (use act in auto)
  have n: "\<not> list_Contains (ccId (nodeConfig b0)) (remoteNodes a1)"
    "\<not> (clusterMode b0 = clusterModePASSIVE \<and> clusterMode a1 = clusterModePASSIVE)"
    using new(2) act 1(3,4) by (auto simp: same_node_def)
  obtain b' a' where 2: "carry pieces' ws' order' obs' clk' s b1 r a1 = Ret (b', a')"
    "at_peer nodeStateConnected [VerifyOKM VerifyOKMessage] s b'" "same_node s b1 b'" "\<forall>v. registered s v b' = registered s v b1"
    "at_peer nodeStateConnected ([] @ [VerifyOKM VerifyOKMessage]) r a'" "same_node r a1 a'" "registered r (verifyOf b0) a'"
    by (rule carry_VERIFY [where order = order' and obs = obs' and clk = clk', OF 1(5) _ 1(2) _ ids(3,4) n net(2,4)]) simp_all
  show ?thesis by (rule that [OF 1(1) 2(1)]) (use 1 2 in \<open>auto simp: same_node_def\<close>)
qed

lemma exchange_VERIFYOK:
  assumes a: "at_peer nodeStateConnected [VerifyOKM VerifyOKMessage] r a" and b: "at_peer nodeStateConnected [VerifyOKM VerifyOKMessage] s b"
    and "\<not> rcSync (rconfig (rn s b))" and obs: "obs 0 = nodeStateConnected" "obs' 0 = nodeStateConnected"
    and net: "accepts ws 6" "accepts ws' 6" "\<And>bs. concat (pieces bs) = bs" "\<And>bs. concat (pieces' bs) = bs"
  obtains a1 b1 a' b' where "carry pieces ws order obs clk r a s b = Ret (a1, b1)" "carry pieces' ws' order' obs' clk' s b1 r a1 = Ret (b', a')"
    "at_peer nodeStateConnected (if rcSync (rconfig (rn r a)) then [SyncReqM \<lparr> syncReqCode = 0, syncReqMode = clusterMode a \<rparr>] else []) r a'"
    "at_peer nodeStateConnected [] s b'" "\<forall>v. registered r v a' = registered r v a" "\<forall>v. registered s v b' = registered s v b"
proof -
  obtain a1 b1 where 1: "carry pieces ws order obs clk r a s b = Ret (a1, b1)"
    "at_peer nodeStateConnected [] r a1" "same_node r a a1" "\<forall>v. registered r v a1 = registered r v a"
    "at_peer nodeStateConnected ([VerifyOKM VerifyOKMessage] @ (if rcSync (rconfig (rn s b))
      then [SyncReqM \<lparr> syncReqCode = 0, syncReqMode = clusterMode b \<rparr>] else [])) s b1"
    "\<forall>v. registered s v b1 = registered s v b"
    by (rule carry_VERIFYOK [where order = order and obs = obs and clk = clk, OF a _ b _ obs(1) net(1,3)]) simp_all
  have s1: "at_peer nodeStateConnected [VerifyOKM VerifyOKMessage] s b1" using 1(5) assms(3) by simp
  obtain b' a' where 2: "carry pieces' ws' order' obs' clk' s b1 r a1 = Ret (b', a')"
    "at_peer nodeStateConnected [] s b'" "\<forall>v. registered s v b' = registered s v b1"
    "at_peer nodeStateConnected ([] @ (if rcSync (rconfig (rn r a1))
      then [SyncReqM \<lparr> syncReqCode = 0, syncReqMode = clusterMode a1 \<rparr>] else [])) r a'" "\<forall>v. registered r v a' = registered r v a1"
    by (rule carry_VERIFYOK [where order = order' and obs = obs' and clk = clk', OF s1 _ 1(2) _ obs(2) net(2,4)]) simp_all
  show ?thesis by (rule that [OF 1(1) 2(1)]) (use 1 2 in \<open>auto simp: same_node_def\<close>)
qed

text \<open>
  C9.  Two nodes that do not know each other meet: one dials, the other accepts.  However the
  network cuts and delays the bytes, after the four messages of the handshake each has
  registered the other under its identity, with its service port and its mode, as a connected
  peer; the accepting node's peer is idle, and so is the dialling node's unless it is to
  synchronise, in which case exactly the request for that is under way.  (Pings between these
  messages are left out of the exchange; a node still in the handshake drops them.)
\<close>

theorem handshake_registers_both:
  assumes "r < length (rnHeap a)" and "rn r a = newRemoteNode cfg"
    and "validString (ccId (nodeConfig a))" and "length (ccId (nodeConfig a)) < 2 ^ 24"
    and "validString (ccId (nodeConfig b))" and "length (ccId (nodeConfig b)) < 2 ^ 24"
    and "\<not> list_Contains (ccId (nodeConfig a)) (remoteNodes b)" and "\<not> list_Contains (ccId (nodeConfig b)) (remoteNodes a)"
    and "\<not> (clusterMode a = clusterModePASSIVE \<and> clusterMode b = clusterModePASSIVE)"
    and "\<And>i. accepts (ws i) (6 * max (length (ccId (nodeConfig a))) (length (ccId (nodeConfig b))) + 506)"
    and "\<And>i bs. concat (pieces i bs) = bs" and "\<And>i. obs i 0 = nodeStateConnected" and "s = length (rnHeap b)"
  shows "\<exists>a1 b1 a' b'. rn_join [(Inr la, [])] r a = Ret a1 \<and> listen (Inr (lb, pb, [])) k b = Ret ((True, 0), b1) \<and>
    exchange pieces ws order obs clk r a1 s b1 = Ret (a', b') \<and>
    registered r (verifyOf b) a' \<and> registered s (verifyOf a) b' \<and> idle_peer (rn s b') \<and>
    rstate (rn r a') = nodeStateConnected \<and>
    (if rcSync cfg then chanItems (outboundMsgQueue (rn r a')) = [SyncReqM \<lparr> syncReqCode = 0, syncReqMode = clusterMode a \<rparr>]
     else idle_peer (rn r a'))"
proof -
  obtain a1 where a1: "rn_join [(Inr la, [])] r a = Ret a1" "at_peer nodeStateHandshake [VerifyM (verifyOf a)] r a1" "same_node r a a1"
    "remoteNodes a1 = remoteNodes a" using join_at_peer [OF assms(1,2)] by blast
  obtain b1 where b1: "listen (Inr (lb, pb, [])) k b = Ret ((True, 0), b1)" "at_peer nodeStateHandshake [VerifyM (verifyOf b)] s b1"
    "nodeConfig b1 = nodeConfig b" "clusterMode b1 = clusterMode b" "\<not> rcSync (rconfig (rn s b1))" "remoteNodes b1 = remoteNodes b"
    using listen_at_peer [of lb pb k b] assms(13) by blast
  have m: "clusterMode a1 = clusterMode a" "rcSync (rconfig (rn r a1)) = rcSync cfg"
    using a1(3) assms(2) by (simp_all add: same_node_def newRemoteNode_def checkConfig_def Let_def)
  have acc: "accepts (ws i) (6 * length (ccId (nodeConfig a)) + 506)" "accepts (ws i) (6 * length (ccId (nodeConfig b)) + 506)"
    "accepts (ws i) 6" for i using assms(10) [of i] by (auto intro: accepts_mono)
  obtain a2 b2 a3 b3 where 1: "carry (pieces 0) (ws 0) (order 0) (obs 0) (clk 0) r a1 s b1 = Ret (a2, b2)"
    "carry (pieces 1) (ws 1) (order 1) (obs 1) (clk 1) s b2 r a2 = Ret (b3, a3)"
    "at_peer nodeStateConnected [VerifyOKM VerifyOKMessage] r a3" "same_node r a1 a3" "registered r (verifyOf b) a3"
    "at_peer nodeStateConnected [VerifyOKM VerifyOKMessage] s b3" "same_node s b1 b3" "registered s (verifyOf a) b3"
    by (rule exchange_VERIFY [where order = "order 0" and order' = "order 1" and obs = "obs 0" and obs' = "obs 1" and clk = "clk 0" and clk' = "clk 1",
      OF a1(2) b1(2) assms(3-6) _ _ assms(9) m(1) b1(4) acc(1) [of 0] acc(2) [of 1] assms(11) [of 0] assms(11) [of 1]])
      (use assms(7,8) a1(4) b1(6) in simp_all)
  have "\<not> rcSync (rconfig (rn s b3))" using b1(5) 1(7) by (simp add: same_node_def)
  then obtain a4 b4 a5 b5 where 2: "carry (pieces 2) (ws 2) (order 2) (obs 2) (clk 2) r a3 s b3 = Ret (a4, b4)"
    "carry (pieces 3) (ws 3) (order 3) (obs 3) (clk 3) s b4 r a4 = Ret (b5, a5)"
    "at_peer nodeStateConnected (if rcSync (rconfig (rn r a3)) then [SyncReqM \<lparr> syncReqCode = 0, syncReqMode = clusterMode a3 \<rparr>] else []) r a5"
    "at_peer nodeStateConnected [] s b5" "\<forall>v. registered r v a5 = registered r v a3" "\<forall>v. registered s v b5 = registered s v b3"
    by (rule exchange_VERIFYOK [where order = "order 2" and order' = "order 3" and obs = "obs 2" and obs' = "obs 3" and clk = "clk 2" and clk' = "clk 3",
      OF 1(3,6) _ assms(12) [of 2] assms(12) [of 3] acc(3) [of 2] acc(3) [of 3] assms(11) [of 2] assms(11) [of 3]])
  have r5: "at_peer nodeStateConnected (if rcSync cfg then [SyncReqM \<lparr> syncReqCode = 0, syncReqMode = clusterMode a \<rparr>] else []) r a5"
    using 2(3) m 1(4) by (simp add: same_node_def split: if_splits)
  have "exchange pieces ws order obs clk r a1 s b1 = Ret (a5, b5)" using 1(1,2) 2(1,2) by (simp add: exchange_def)
  moreover have "rstate (rn r a5) = nodeStateConnected" using r5 by (simp add: at_peer_def)
  moreover have "if rcSync cfg then chanItems (outboundMsgQueue (rn r a5)) = [SyncReqM \<lparr> syncReqCode = 0, syncReqMode = clusterMode a \<rparr>]
     else idle_peer (rn r a5)"
    using r5 at_peer_idle [of r a5] by (auto simp: at_peer_def queued_def makeChan_def)
  ultimately show ?thesis using a1(1) b1(1) 1(5,8) 2(5,6) at_peer_idle [OF 2(4)] by blast
qed

definition sampleDialler :: "(unit, unit, unit) ClusteredBigCache" where
  "sampleDialler = snd (joinCluster sampleClient)"

definition sampleAcceptor :: "(unit, unit, unit) ClusteredBigCache" where
  "sampleAcceptor = emptyNode (DefaultClusterConfig\<lparr> ccId := [98] \<rparr>) None clusterModeACTIVE"

theorem handshake_registers_both_witness:
  "\<exists>a1 b1 a' b'. rn_join [(Inr [], [])] 0 sampleDialler = Ret a1 \<and> listen (Inr ([], [], [])) 0 sampleAcceptor = Ret ((True, 0), b1) \<and>
     exchange (\<lambda>_. map (\<lambda>b. [b])) (\<lambda>_. [(7, None), (999, None)]) (\<lambda>_ x. x) (\<lambda>_ _. nodeStateConnected) (\<lambda>_. sampleClock) 0 a1 0 b1 =
       Ret (a', b') \<and>
     registered 0 (verifyOf sampleAcceptor) a' \<and> registered 0 (verifyOf sampleDialler) b' \<and>
     chanItems (outboundMsgQueue (rn 0 a')) = [SyncReqM \<lparr> syncReqCode = 0, syncReqMode = clusterModePASSIVE \<rparr>]"
proof -
  let ?c = "peerConfig (nodeConfig sampleClient) [104] True True"
  have d: "length (rnHeap sampleDialler) = 1" "rn 0 sampleDialler = newRemoteNode ?c" "ccId (nodeConfig sampleDialler) = [97]"
    "remoteNodes sampleDialler = NewSliceList" "clusterMode sampleDialler = clusterModePASSIVE"
    by (simp_all add: sampleDialler_def joinCluster_def sampleClient_def NewPassiveClient_def emptyNode_def addRn_def rn_def
        DefaultClusterConfig_def Let_def)
  have e: "ccId (nodeConfig sampleAcceptor) = [98]" "remoteNodes sampleAcceptor = NewSliceList" "rnHeap sampleAcceptor = []"
    "clusterMode sampleAcceptor = clusterModeACTIVE" by (simp_all add: sampleAcceptor_def emptyNode_def)
  have "validString [97]" "validString [98]" by (simp_all add: coerce_ascii flip: coerce_id_iff del: coerce.simps)
  moreover have "rcSync ?c" by (simp add: peerConfig_def)
  ultimately show ?thesis
    using handshake_registers_both [of 0 sampleDialler ?c sampleAcceptor "\<lambda>_. [(7, None), (999, None)]" "\<lambda>_. map (\<lambda>b. [b])"
      "\<lambda>_ _. nodeStateConnected" 0 "[]" "[]" "[]" 0 "\<lambda>_ x. x" "\<lambda>_. sampleClock"]
    by (simp add: d e list_Contains_def NewSliceList_def accepts_def cluster_consts concat_map_singleton) blast
qed

end
