(* ===== verification/TestPeer.thy ===== *)
theory TestPeer
  imports RemoteNode
begin

text \<open>
  The peer the repository's own tests talk to, \<^verbatim>\<open>utils/testUtils.go\<close>: a server that accepts
  one connection, answers the messages of the handshake and sends a ping every second.  It
  works on the TCP connection directly, without the buffering of \<^verbatim>\<open>comms/connection.go\<close>: one
  \<^verbatim>\<open>Read\<close> for the header and one for the body, each of which may bring less than asked for.

  \<open>arrivals\<close> is what the network will deliver to the peer, \<open>sent\<close> what it has written.  The
  error of a write is ignored by every caller; \<open>taken\<close> is how many bytes the socket took
  before the write failed, \<open>None\<close> for a write that succeeded.
\<close>

section \<open>State\<close>

record tcpConn =
  arrivals :: "arrival list"
  sent :: "byte list"
  tcpClosed :: bool

definition errClosed :: netError where
  "errClosed = NetErr (lit ''use of closed network connection'')"

definition tcp_Read :: "nat \<Rightarrow> tcpConn \<Rightarrow> ((byte list \<times> netError option) \<times> tcpConn) outcome" where
  "tcp_Read n k =
     (if tcpClosed k then Ret (([], Some errClosed), k)
      else case arrivals k of
          [] \<Rightarrow> Blocked
        | Bytes bs # r \<Rightarrow>
            Ret ((take n bs, None), k\<lparr> arrivals := (if length bs \<le> n then r else Bytes (drop n bs) # r) \<rparr>)
        | Fault e # r \<Rightarrow> Ret (([], Some e), k\<lparr> arrivals := (if e = EOF then Fault e # r else r) \<rparr>))"

definition tcp_Write :: "nat option \<Rightarrow> byte list \<Rightarrow> tcpConn \<Rightarrow> tcpConn" where
  "tcp_Write taken data k =
     (if tcpClosed k then k
      else k\<lparr> sent := sent k @ (case taken of None \<Rightarrow> data | Some n \<Rightarrow> take n data) \<rparr>)"

record TestClient =
  tcConn :: "tcpConn option"
  respondToPings :: bool

record TestServer = TestClient +
  tsPort :: int
  tsStarted :: "unit chan"

definition NewTestClient :: TestClient where
  "NewTestClient = \<lparr> tcConn = None, respondToPings = False \<rparr>"

definition NewTestServer :: "int \<Rightarrow> bool \<Rightarrow> TestServer" where
  "NewTestServer port respond =
     \<lparr> tcConn = None, respondToPings = respond, tsPort = port, tsStarted = makeChan 0 \<rparr>"

section \<open>Operations\<close>

text \<open>
  \<^verbatim>\<open>Start\<close> returns the error of \<^verbatim>\<open>net.Listen\<close>, or starts the goroutine that accepts one
  connection.  That goroutine drops the error of \<^verbatim>\<open>Accept\<close> and asserts the type of the
  connection, which is nil then.
\<close>

definition ts_Start :: "netError option \<Rightarrow> netError option \<times> bool" where
  "ts_Start listen = (case listen of Some err \<Rightarrow> (Some err, False) | None \<Rightarrow> (None, True))"

definition ts_accept :: "netError + arrival list \<Rightarrow> TestServer \<Rightarrow> TestServer outcome" where
  "ts_accept accepted s =
     (case accepted of
        Inl _ \<Rightarrow> Panic
      | Inr arrs \<Rightarrow>
          obind (chanClose (tsStarted s)) (\<lambda>ch.
            Ret (s\<lparr> tcConn := Some \<lparr> arrivals = arrs, sent = [], tcpClosed = False \<rparr>, tsStarted := ch \<rparr>)))"

definition tc_Close :: "'a TestClient_scheme \<Rightarrow> 'a TestClient_scheme" where
  "tc_Close c =
     (case tcConn c of None \<Rightarrow> c | Some k \<Rightarrow> c\<lparr> tcConn := Some (k\<lparr> tcpClosed := True \<rparr>) \<rparr>)"

text \<open>A message as \<^verbatim>\<open>networkSender\<close> would frame it, in one write.\<close>

definition tc_send :: "nat option \<Rightarrow> NodeMessage \<Rightarrow> 'a TestClient_scheme \<Rightarrow> 'a TestClient_scheme outcome" where
  "tc_send taken m c =
     obind (Serialize m) (\<lambda>msg.
     obind (frameBytes msg) (\<lambda>data.
       case tcConn c of
         None \<Rightarrow> Panic
       | Some k \<Rightarrow> Ret (c\<lparr> tcConn := Some (tcp_Write taken data k) \<rparr>)))"

definition SendVerifyMessage :: "nat option \<Rightarrow> gostring \<Rightarrow> TestServer \<Rightarrow> TestServer outcome" where
  "SendVerifyMessage taken id' s =
     obind (chanRecv (tsStarted s)) (\<lambda>_.
       tc_send taken (VerifyM \<lparr> verifyId = id', verifyVersion = [], verifyServicePort = lit ''1111'', verifyMode = 0 \<rparr>) s)"

text \<open>The goroutine of \<^verbatim>\<open>readNetwork\<close> that sends a ping at each tick.\<close>

definition tc_tick :: "nat option \<Rightarrow> 'a TestClient_scheme \<Rightarrow> 'a TestClient_scheme outcome" where
  "tc_tick taken c = tc_send taken (PingM \<lparr> pingCode = 0 \<rparr>) c"

definition remotePeers :: "ProposedPeer list" where
  "remotePeers =
     [\<lparr> peerId = lit ''remote_1'', peerIpAddress = lit ''192.168.56.21:9990'' \<rparr>,
      \<lparr> peerId = lit ''remote_2'', peerIpAddress = lit ''172.16.111.89:9991'' \<rparr>,
      \<lparr> peerId = lit ''remote_3'', peerIpAddress = lit ''10.10.0.1:9090'' \<rparr>]"

definition tc_reply :: "bool \<Rightarrow> u16 \<Rightarrow> NodeMessage option" where
  "tc_reply respond code =
     (if code = MsgVERIFY then Some (VerifyOKM VerifyOKMessage)
      else if code = MsgPING then (if respond then Some (PongM \<lparr> pongCode = 0 \<rparr>) else None)
      else if code = MsgVERIFYOK then Some (SyncReqM \<lparr> syncReqCode = 0, syncReqMode = 0 \<rparr>)
      else if code = MsgPONG then None
      else if code = MsgSyncReq then
        Some (SyncRspM \<lparr> syncRspCode = 0, syncRspReplicationFactor = 0, syncRspList = Some remotePeers \<rparr>)
      else None)"

text \<open>
  One round of the loop of \<^verbatim>\<open>readNetwork\<close>.  The header buffer is kept between the rounds, so
  a short read leaves old bytes in it.  The body is read and not looked at.
\<close>

definition tc_round ::
    "nat option \<Rightarrow> byte list \<Rightarrow> 'a TestClient_scheme \<Rightarrow> (bool \<times> byte list \<times> 'a TestClient_scheme) outcome" where
  "tc_round taken header c =
     (case tcConn c of
        None \<Rightarrow> Panic
      | Some k \<Rightarrow>
          obind (tcp_Read 6 k) (\<lambda>((bs, err), k).
            let header = overwrite 0 bs header; c = c\<lparr> tcConn := Some k \<rparr> in
            if err \<noteq> None then Ret (False, header, c)
            else obind (of_opt (Uint32 header)) (\<lambda>len.
                 obind (of_opt (Uint16 (drop 4 header))) (\<lambda>code.
                 obind (if len - 2 > 0 then obind (tcp_Read (unat (len - 2)) k) (\<lambda>((_, err), k). Ret (err, c\<lparr> tcConn := Some k \<rparr>))
                        else Ret (None, c)) (\<lambda>(err, c).
                   if err \<noteq> None then Ret (False, header, c)
                   else case tc_reply (respondToPings c) code of
                       None \<Rightarrow> Ret (True, header, c)
                     | Some m \<Rightarrow> obind (tc_send taken m c) (\<lambda>c. Ret (True, header, c)))))))"

text \<open>
  The loop and the ticker write to the same connection, each frame in one write.  A run of
  the two is a sequence of rounds and ticks; the ticks go on when the loop has ended.
\<close>

datatype peerEvent = Tick | Round

type_synonym 'a peerState = "bool \<times> byte list \<times> 'a TestClient_scheme"

fun tc_step :: "peerEvent \<Rightarrow> 'a peerState \<Rightarrow> 'a peerState outcome" where
  "tc_step Tick (goOn, header, c) = obind (tc_tick None c) (\<lambda>c. Ret (goOn, header, c))"
| "tc_step Round (goOn, header, c) = (if goOn then tc_round None header c else Ret (goOn, header, c))"

fun tc_run :: "peerEvent list \<Rightarrow> 'a peerState \<Rightarrow> 'a peerState outcome" where
  "tc_run [] s = Ret s"
| "tc_run (e # es) s = obind (tc_step e s) (tc_run es)"

section \<open>What the peer says\<close>

definition wireOf :: "NodeMessage \<Rightarrow> NodeWireMessage" where
  "wireOf m = (case Serialize m of Ret w \<Rightarrow> w | _ \<Rightarrow> undefined)"

definition framesOf :: "NodeMessage list \<Rightarrow> byte list" where
  "framesOf ms = concat (map (\<lambda>m. frameOf (wireOf m)) ms)"

lemma framesOf_simps [simp]: "framesOf [] = []" "framesOf (m # ms) = frameOf (wireOf m) @ framesOf ms"
    "framesOf (ms @ ms') = framesOf ms @ framesOf ms'"
  by (simp_all add: framesOf_def)

definition answers :: "bool \<Rightarrow> NodeWireMessage \<Rightarrow> NodeMessage list" where
  "answers respond w = (case tc_reply respond (wireCode w) of None \<Rightarrow> [] | Some m \<Rightarrow> [m])"

text \<open>The messages the peer sends in a run in which it receives \<open>ws\<close>.\<close>

fun conversation :: "bool \<Rightarrow> peerEvent list \<Rightarrow> NodeWireMessage list \<Rightarrow> NodeMessage list" where
  "conversation respond [] ws = []"
| "conversation respond (Tick # es) ws = PingM \<lparr> pingCode = 0 \<rparr> # conversation respond es ws"
| "conversation respond (Round # es) [] = []"
| "conversation respond (Round # es) (w # ws) = answers respond w @ conversation respond es ws"

text \<open>Pieces of the stream that cut no frame.\<close>

definition wholeFrames :: "NodeWireMessage list list \<Rightarrow> arrival list" where
  "wholeFrames wss = map (\<lambda>ws. Bytes (concat (map frameOf ws))) wss"

definition speaks :: "NodeMessage \<Rightarrow> bool" where
  "speaks m \<longleftrightarrow> Serialize m = Ret (wireOf m) \<and> framable (wireOf m)"

lemma length_renderPeers:
  "length (render (syncRspJson \<lparr> syncRspCode = 19, syncRspReplicationFactor = 0, syncRspList = Some remotePeers \<rparr>)) < 2000"
  using length_quote [of "lit ''code''"] length_quote [of "lit ''replication_factor''"] length_quote [of "lit ''list''"]
    length_quote [of "lit ''Id''"] length_quote [of "lit ''IpAddress''"]
    length_quote [of "lit ''remote_1''"] length_quote [of "lit ''remote_2''"] length_quote [of "lit ''remote_3''"]
    length_quote [of "lit ''192.168.56.21:9990''"] length_quote [of "lit ''172.16.111.89:9991''"] length_quote [of "lit ''10.10.0.1:9090''"]
  by (simp add: syncRspJson_def remotePeers_def peerJson_def jsonUint_def lit_def decimal.simps decimalInt_def del: quote_def quoteBody.simps)

lemma ping_spoken: "speaks (PingM m)"
  by (simp add: speaks_def wireOf_def ping_Serialize_def framable_def)

lemma length_renderSyncReq: "length (render (syncReqJson \<lparr> syncReqCode = 0, syncReqMode = 0 \<rparr>)) < 2000"
  using length_quote [of "lit ''code''"] length_quote [of "lit ''mode''"]
  by (simp add: syncReqJson_def jsonUint_def lit_def decimal.simps del: quote_def quoteBody.simps)

lemma reply_spoken: "tc_reply respond code = Some m \<Longrightarrow> speaks m"
  using length_renderPeers length_renderSyncReq
  by (auto simp: tc_reply_def speaks_def wireOf_def verifyOK_Serialize_def pong_Serialize_def syncReq_Serialize_def
    syncRsp_Serialize_def framable_def Let_def MsgSyncReq_def simp del: render.simps split: if_splits)

lemma answer_spoken: "m \<in> set (answers respond w) \<Longrightarrow> speaks m"
  by (auto simp: answers_def reply_spoken split: option.splits)

lemma conversation_spoken: "list_all speaks (conversation respond es ws)"
  by (induction respond es ws rule: conversation.induct) (auto simp: ping_spoken list_all_iff answer_spoken)

lemma tc_send_frame:
  assumes "speaks m" and "tcConn c = Some k" and "\<not> tcpClosed k"
  shows "tc_send None m c = Ret (c\<lparr> tcConn := Some (k\<lparr> sent := sent k @ frameOf (wireOf m) \<rparr>) \<rparr>)"
  using assms by (simp add: tc_send_def speaks_def frameBytes_frameOf tcp_Write_def)

lemma frameOf_header: "length (frameOf w) = 6 + length (wireData w)"
  by (simp add: frameOf_def)

lemma tc_round_frame:
  assumes k: "tcConn c = Some k" "\<not> tcpClosed k" "arrivals k = Bytes (frameOf w @ bs) # r"
    and "framable w" "length header = 6"
  shows "\<exists>header'. length header' = 6 \<and> tc_round None header c = Ret (True, header',
    c\<lparr> tcConn := Some (k\<lparr> arrivals := (if bs = [] then r else Bytes bs # r),
      sent := sent k @ framesOf (answers (respondToPings c) w) \<rparr>) \<rparr>)"
proof -
  define d n h where "d = wireData w" and "n = (of_nat (length d + 2) :: u32)" and "h = le_put 4 n @ le_put 2 (wireCode w)"
  define as where "as = (if bs = [] then r else Bytes bs # r)"
  let ?k = "k\<lparr> arrivals := as \<rparr>"
  have h: "overwrite 0 h header = h" "length h = 6" using assms(5) by (simp_all add: overwrite_0 h_def)
  have u: "Uint32 h = Some n" "Uint16 (drop 4 h) = Some (wireCode w)"
    using Uint32_put [of n] Uint16_put [of "wireCode w" "[]"] by (simp_all add: h_def)
  have n: "n - 2 = of_nat (length d)" "unat (of_nat (length d) :: u32) = length d"
    using assms(4) by (simp_all add: n_def d_def framable_def unat_of_nat_small)
  have f: "frameOf w @ bs = h @ d @ bs" by (simp add: frameOf_def h_def n_def d_def)
  have reply: "(case tc_reply (respondToPings c) (wireCode w) of
      None \<Rightarrow> Ret (True, h, c\<lparr> tcConn := Some ?k \<rparr>)
    | Some m \<Rightarrow> obind (tc_send None m (c\<lparr> tcConn := Some ?k \<rparr>)) (\<lambda>c. Ret (True, h, c))) =
    Ret (True, h, c\<lparr> tcConn := Some (?k\<lparr> sent := sent k @ framesOf (answers (respondToPings c) w) \<rparr>) \<rparr>)"
    using answer_spoken [of _ "respondToPings c" w] k(2)
    by (cases "tc_reply (respondToPings c) (wireCode w)") (auto simp: answers_def tc_send_frame)
  have "tc_round None header c = Ret (True, h,
    c\<lparr> tcConn := Some (?k\<lparr> sent := sent k @ framesOf (answers (respondToPings c) w) \<rparr>) \<rparr>)"
  proof (cases "d = []")
    case True
    have "tcp_Read 6 k = Ret ((h, None), ?k)" using k True h(2) by (simp add: tcp_Read_def f as_def)
    then show ?thesis using reply k(1) h u n True by (simp add: tc_round_def Let_def cong: option.case_cong)
  next
    case False
    have pos: "of_nat (length d) \<noteq> (0::u32)" "n \<noteq> 2"
      using False n by (metis length_0_conv unat_0, metis diff_self length_0_conv unat_0)
    let ?k1 = "k\<lparr> arrivals := Bytes (d @ bs) # r \<rparr>"
    have "tcp_Read 6 k = Ret ((h, None), ?k1)" "tcp_Read (length d) ?k1 = Ret ((d, None), ?k)"
      using k False h(2) by (simp_all add: tcp_Read_def f as_def)
    then show ?thesis using reply k(1) h u n pos by (simp add: tc_round_def Let_def word_greater_zero_iff cong: option.case_cong)
  qed
  then show ?thesis using h(2) by (auto simp: as_def)
qed

fun popFrame :: "'a list list \<Rightarrow> 'a list list" where
  "popFrame ((w # ws) # wss) = (if ws = [] then wss else ws # wss)"
| "popFrame wss = wss"

lemma popFrame_concat: "[] \<notin> set wss \<Longrightarrow> wss \<noteq> [] \<Longrightarrow>
    concat wss = hd (hd wss) # concat (popFrame wss) \<and> [] \<notin> set (popFrame wss)"
  by (cases wss rule: popFrame.cases) auto

lemma frames_Nil: "concat (map frameOf ws) = [] \<longleftrightarrow> ws = []"
  using frameOf_header by (cases ws) (auto simp flip: length_0_conv)

text \<open>A run over pieces that cut no frame.\<close>

lemma tc_run_whole:
  assumes "tcConn c = Some k" "\<not> tcpClosed k" "arrivals k = wholeFrames wss @ r" "[] \<notin> set wss"
    "list_all framable (concat wss)" "length header = 6" "length (filter ((=) Round) es) \<le> length (concat wss)"
  shows "\<exists>header' c' k'. tc_run es (True, header, c) = Ret (True, header', c') \<and> tcConn c' = Some k' \<and>
    sent k' = sent k @ framesOf (conversation (respondToPings c) es (concat wss))"
  using assms
proof (induction es arbitrary: wss header c k)
  case (Cons e es)
  show ?case
  proof (cases e)
    case Tick
    let ?k = "k\<lparr> sent := sent k @ frameOf (wireOf (PingM \<lparr> pingCode = 0 \<rparr>)) \<rparr>"
    have "tc_tick None c = Ret (c\<lparr> tcConn := Some ?k \<rparr>)"
      using tc_send_frame [OF ping_spoken Cons.prems(1,2)] by (simp add: tc_tick_def)
    then show ?thesis using Cons.IH [of "c\<lparr> tcConn := Some ?k \<rparr>" ?k wss header] Cons.prems Tick by simp
  next
    case Round
    then obtain w ws wss' where w: "wss = (w # ws) # wss'"
      using Cons.prems(4,7) by (cases wss rule: popFrame.cases) auto
    let ?bs = "concat (map frameOf ws)" and ?r = "wholeFrames wss' @ r"
    have p: "(if ?bs = [] then ?r else Bytes ?bs # ?r) = wholeFrames (popFrame wss) @ r"
      by (simp add: w frames_Nil wholeFrames_def del: concat_eq_Nil_conv)
    let ?k = "k\<lparr> arrivals := wholeFrames (popFrame wss) @ r,
      sent := sent k @ framesOf (answers (respondToPings c) w) \<rparr>"
    have "arrivals k = Bytes (frameOf w @ ?bs) # ?r" using Cons.prems(3) by (simp add: w wholeFrames_def)
    from tc_round_frame [OF Cons.prems(1,2) this _ Cons.prems(6), unfolded p]
    obtain header' where h: "length header' = 6" "tc_round None header c = Ret (True, header', c\<lparr> tcConn := Some ?k \<rparr>)"
      using Cons.prems(5) by (auto simp: w)
    have c: "concat wss = w # concat (popFrame wss)" "[] \<notin> set (popFrame wss)"
      using popFrame_concat [OF Cons.prems(4)] by (simp_all add: w)
    have "\<exists>header'' c' k'. tc_run es (True, header', c\<lparr> tcConn := Some ?k \<rparr>) = Ret (True, header'', c') \<and> tcConn c' = Some k' \<and>
      sent k' = sent ?k @ framesOf (conversation (respondToPings (c\<lparr> tcConn := Some ?k \<rparr>)) es (concat (popFrame wss)))"
      by (rule Cons.IH) (use Cons.prems(2,5,7) Round h(1) c in simp_all)
    then show ?thesis using h(2) by (simp add: Round c(1))
  qed
qed simp

text \<open>A round that takes a whole piece for a header and, if there is a body, the next one for it, without an answer.\<close>

lemma tc_round_silent:
  assumes k: "tcConn c = Some k" "\<not> tcpClosed k" "arrivals k = Bytes a # r" "length a \<le> 6"
    and h: "overwrite 0 a header = h" "Uint32 h = Some len" "Uint16 (drop 4 h) = Some code" "tc_reply (respondToPings c) code = None"
  shows "len = 2 \<Longrightarrow> tc_round taken header c = Ret (True, h, c\<lparr> tcConn := Some (k\<lparr> arrivals := r \<rparr>) \<rparr>)"
    and "r = Bytes b # r' \<Longrightarrow> len \<noteq> 2 \<Longrightarrow> length b \<le> unat (len - 2) \<Longrightarrow>
      tc_round taken header c = Ret (True, h, c\<lparr> tcConn := Some (k\<lparr> arrivals := r' \<rparr>) \<rparr>)"
  using assms by (simp_all add: tc_round_def tcp_Read_def Let_def word_greater_zero_iff)

text \<open>
  A ping that arrives in two pieces is not answered, and the peer takes the ping after it for
  the body of a message: the rest of the header overwrites the beginning of the buffer, and the
  length read there is wrong.
\<close>

definition cutPing :: "nat \<Rightarrow> TestClient" where
  "cutPing n =
     (let ping = frameOf \<lparr> wireCode = MsgPING, wireData = [] \<rparr> in
      \<lparr> tcConn = Some \<lparr> arrivals = [Bytes (take n ping), Bytes (drop n ping), Bytes ping], sent = [], tcpClosed = False \<rparr>,
        respondToPings = True \<rparr>)"

lemma cut_ping_swallows_next:
  assumes "1 \<le> n" and "n \<le> 4"
  shows "\<exists>header c k. tc_run [Round, Round] (True, replicate 6 0, cutPing n) = Ret (True, header, c) \<and>
    tcConn c = Some k \<and> arrivals k = [] \<and> sent k = []"
proof -
  define ping where "ping = frameOf \<lparr> wireCode = MsgPING, wireData = [] \<rparr>"
  have ping: "ping = [2, 0, 0, 0, 12, 0]" unfolding ping_def by code_simp
  define h1 h2 where "h1 = overwrite 0 (take n ping) (replicate 6 0)" and "h2 = overwrite 0 (drop n ping) h1"
  have "list_all (\<lambda>n. let h1 = overwrite 0 (take n [2, 0, 0, 0, 12, 0]) (replicate 6 0); h2 = overwrite 0 (drop n [2, 0, 0, 0, 12, 0]) h1
      in Uint32 h1 = Some 2 \<and> Uint16 (drop 4 h1) = Some 0 \<and> Uint16 (drop 4 h2) = Some 0 \<and>
        (case Uint32 h2 of None \<Rightarrow> False | Some len \<Rightarrow> len \<noteq> 2 \<and> 6 \<le> len - 2)) [1, 2, 3, 4]" by code_simp
  moreover have "n \<in> set [1, 2, 3, 4]" using assms by (simp; presburger)
  ultimately obtain len where u: "Uint32 h1 = Some 2" "Uint16 (drop 4 h1) = Some 0" "Uint16 (drop 4 h2) = Some 0"
    "Uint32 h2 = Some len" "len \<noteq> 2" "6 \<le> len - 2"
    unfolding list_all_iff h1_def h2_def ping Let_def by (auto split: option.splits)
  have b: "length ping \<le> unat (len - 2)" using u(6) by (simp add: ping word_le_nat_alt)
  let ?c = "\<lambda>as. \<lparr> tcConn = Some \<lparr> arrivals = as, sent = [], tcpClosed = False \<rparr>, respondToPings = True \<rparr>"
  have n: "tc_reply True 0 = None" by (simp add: tc_reply_def msg_codes)
  let ?k = "\<lambda>as. \<lparr> arrivals = as, sent = [], tcpClosed = False \<rparr>"
  have l: "length (take n ping) \<le> 6" "length (drop n ping) \<le> 6" by (simp_all add: ping)
  have "tc_round None (replicate 6 0) (cutPing n) = Ret (True, h1, ?c [Bytes (drop n ping), Bytes ping])"
    using tc_round_silent(1) [where c = "cutPing n" and k = "?k [Bytes (take n ping), Bytes (drop n ping), Bytes ping]",
      OF _ _ _ l(1) h1_def [symmetric] u(1,2)] n by (simp add: cutPing_def Let_def flip: ping_def)
  moreover have "tc_round None h1 (?c [Bytes (drop n ping), Bytes ping]) = Ret (True, h2, ?c [])"
    using tc_round_silent(2) [where c = "?c [Bytes (drop n ping), Bytes ping]" and k = "?k [Bytes (drop n ping), Bytes ping]",
      OF _ _ _ l(2) h2_def [symmetric] u(4,3) _ _ u(5) b] n by simp
  ultimately show ?thesis by simp
qed

section \<open>Properties\<close>



end
