(* ===== verification/Loggers.thy ===== *)
theory Loggers
  imports Prelude
begin

text \<open>
  The loggers: the wrappers of \<^verbatim>\<open>utils/loggerWrapper.go\<close> around the application's logger
  (\<^verbatim>\<open>utils/defs.go\<close>), and the choice of the cache's logger (\<^verbatim>\<open>bigcache/logger.go\<close>).  The
  application brings its logger along; it is a value of \<open>AppLogger\<close> whose methods act on a state
  of their own, and a nil logger is \<open>None\<close>.  A log call thus cannot touch the state of a node
  or a cache, which is why the other theories leave the log lines out.
\<close>

section \<open>The application's logger\<close>

record 's AppLogger =
  logInfo :: "gostring \<Rightarrow> 's \<Rightarrow> 's"
  logWarn :: "gostring \<Rightarrow> 's \<Rightarrow> 's"
  logCritical :: "gostring \<Rightarrow> 's \<Rightarrow> 's"
  logError :: "gostring \<Rightarrow> 's \<Rightarrow> 's"

definition utils_Info :: "'s AppLogger option \<Rightarrow> gostring \<Rightarrow> 's \<Rightarrow> 's" where
  "utils_Info logger msg s = (case logger of None \<Rightarrow> s | Some l \<Rightarrow> logInfo l msg s)"

definition utils_Error :: "'s AppLogger option \<Rightarrow> gostring \<Rightarrow> 's \<Rightarrow> 's" where
  "utils_Error logger msg s = (case logger of None \<Rightarrow> s | Some l \<Rightarrow> logError l msg s)"

definition utils_Warn :: "'s AppLogger option \<Rightarrow> gostring \<Rightarrow> 's \<Rightarrow> 's" where
  "utils_Warn logger msg s = (case logger of None \<Rightarrow> s | Some l \<Rightarrow> logWarn l msg s)"

definition utils_Critical :: "'s AppLogger option \<Rightarrow> gostring \<Rightarrow> 's \<Rightarrow> 's" where
  "utils_Critical logger msg s = (case logger of None \<Rightarrow> s | Some l \<Rightarrow> logCritical l msg s)"

lemmas log_wrappers = utils_Info_def utils_Error_def utils_Warn_def utils_Critical_def

lemma nil_logger_silent:
  "f \<in> {utils_Info, utils_Error, utils_Warn, utils_Critical} \<Longrightarrow> f None msg s = s"
  by (auto simp: log_wrappers)

section \<open>The cache's logger\<close>

text \<open>The default writes to the standard output; what it prints there is not modelled.\<close>

datatype 'l cacheLogger = Custom 'l | DefaultLogger

definition newLogger :: "'l option \<Rightarrow> 'l cacheLogger" where
  "newLogger custom = (case custom of Some l \<Rightarrow> Custom l | None \<Rightarrow> DefaultLogger)"

end
