(* ===== verification/Spec2Isabelle.thy ===== *)
theory Spec2Isabelle
  imports CacheIterator Lifecycle Handshake TestPeer Loggers
begin

text \<open>
  A verification of clusteredBigCache, an in-memory cache written in Go whose nodes replicate
  their entries to each other.

  \<^bold>\<open>The program.\<close>  The directory \<^verbatim>\<open>bigcache\<close> holds the cache of one node: a cache is split into
  shards by the hash of the key; a shard keeps its entries, each with a header, in one byte
  queue, and finds them through a map from hashes to positions; freed regions of the queue are
  kept in a free list and used again; a table of expiry times with a timer and a goroutine
  evicts entries whose time has come.  The directory \<^verbatim>\<open>Cluster\<close> makes a node of it: for every
  peer there is a remote node with a connection (\<^verbatim>\<open>comms\<close>), two message queues and seven actors;
  peers exchange the messages of the directory \<^verbatim>\<open>message\<close>, some as bytes and some as JSON.
  \<^verbatim>\<open>Put\<close> and \<^verbatim>\<open>Delete\<close> change the own cache and are replicated to every active peer; \<^verbatim>\<open>Get\<close> asks
  the peers when the own cache has no answer.

  \<^bold>\<open>Conventions.\<close>  A call returns an \<open>outcome\<close> (Prelude): \<open>Ret\<close> a result, \<open>Panic\<close>, or \<open>Blocked\<close>,
  which is waiting for something that does not come from this call.  Go errors are values of sum
  types.  Integers that may wrap are words of their width; \<open>goint\<close> is the 64-bit \<^verbatim>\<open>int\<close>.  Shared
  pointers are positions in explicit stores: free regions in FreeList, remote nodes and
  pending requests in ClusterNode.  Clock readings, random numbers, what the network delivers or
  accepts, and the order in which Go visits a map are arguments.  The containers of the package
  gods are records of operations (Gods) with their documented laws as the hypotheses
  \<open>avltree_laws\<close> and \<open>hashset_laws\<close>; Gods has instances that satisfy them, and the witnesses use
  these.  Complete calls under a lock are one step; where the code gives a lock up in between, the
  model has one definition for each part.

  \<^bold>\<open>The cache of one node.\<close>
  \<^item> Prelude, LittleEndian: outcomes, lists, byte order; the locale \<open>fixed_width_codec\<close>, and
    \<open>kept_invariant\<close>, by which an invariant of the steps of a transition system holds in every
    state it reaches (used for shards, nodes and the actors of a remote node).
  \<^item> Allocator, FreeList (\<^verbatim>\<open>queue/freeList.go\<close>): regions and the contract \<open>region_allocator\<close>; the
    free list with its size buckets and its tree.  A region that is found was free and is large
    enough, every byte is accounted for, and two losses: a region between two others, and
    regions of exactly 4096 bytes.
  \<^item> BytesQueue (\<^verbatim>\<open>queue/bytes_queue.go\<close>): push, get, delete, growth and reset, as an
    \<open>entry_store\<close> of the entries that are alive.
  \<^item> EntryEncoding (\<^verbatim>\<open>encoding.go\<close>), Fnv (\<^verbatim>\<open>fnv.go\<close>), CacheConfig (\<^verbatim>\<open>config.go\<close>, \<^verbatim>\<open>utils.go\<close>),
    GoTime (durations as the runtime converts them, and timers).
  \<^item> TTL (\<^verbatim>\<open>ttl.go\<close>): the table refines a map from times to sets of keys (\<open>expiry_table\<close>), and its
    timer is set for the earliest.
  \<^item> Shard (\<^verbatim>\<open>shard.go\<close>): every operation against the abstract slots of the contract \<open>keyed_store\<close>
    (KeyedStore).  Eviction: the goroutine of \<^verbatim>\<open>ttl.go\<close>, and shards as a transition system whose
    history determines every answer.
  \<^item> BigCache (\<^verbatim>\<open>bigcache.go\<close>): the cache over its shards, again a \<open>keyed_store\<close>.  CacheIterator
    (\<^verbatim>\<open>iterator.go\<close>): every entry is visited once.

  \<^bold>\<open>The cluster.\<close>
  \<^item> Utf8, Json: the parts of \<^verbatim>\<open>unicode/utf8\<close> and \<^verbatim>\<open>encoding/json\<close> the messages use; printing and
    parsing gives the value back with its strings coerced to valid UTF-8.
  \<^item> Messages (\<^verbatim>\<open>message/*.go\<close>): the ten messages, each an instance of \<open>node_message\<close>, which says
    what arrives of what was sent.
  \<^item> SliceList, NodeId (\<^verbatim>\<open>utils\<close>): the register of peers, and identifiers.
  \<^item> Connection (\<^verbatim>\<open>comms/connection.go\<close>): reading and writing over a stream that comes in pieces
    and may fail; the locale \<open>byte_source\<close> says that the pieces do not matter.
  \<^item> Channels: buffered channels and the one form of \<^verbatim>\<open>select\<close> the code sends with.
  \<^item> RemoteNode (\<^verbatim>\<open>Cluster/remoteNode.go\<close>): frames, queues, pings, interrupts.  ClusterNode (the
    rest of that file and \<^verbatim>\<open>Cluster/clusteredBigCache.go\<close>): the node, the handler of every message,
    and one definition for each call of the interface and each round of a goroutine.
  \<^item> ClusterInvariant: the node as a transition system over all of these; its references stay valid.
  \<^item> Replication: two nodes and the stream between them (\<open>carry\<close>); \<^verbatim>\<open>Put\<close>, \<^verbatim>\<open>Delete\<close> and \<^verbatim>\<open>Get\<close> end to
    end, and the expiry times of replicas.  These rest on the contracts \<open>keyed_store\<close>,
    \<open>node_message\<close> and \<open>byte_source\<close> only.
  \<^item> Membership: joining and giving up, discovery, duplicate connections, shutting down, and the
    messages that end the process.
  \<^item> Handshake: two nodes that meet, from the dialled connection to the state the properties of
    Replication start from; each has registered the other.
  \<^item> Lifecycle: the seven actors of a remote node with their wait group; tearing down waits for
    them, and the end can always be reached.
  \<^item> TestPeer (\<^verbatim>\<open>utils/testUtils.go\<close>): the peer the tests of the repository talk to; it converses
    with a node as the protocol prescribes as long as no frame arrives in pieces.
  \<^item> Loggers (\<^verbatim>\<open>utils/loggerWrapper.go\<close>, \<^verbatim>\<open>bigcache/logger.go\<close>): the wrappers around the application's
    logger, and which logger a cache uses.

  \<^bold>\<open>Bounds and fuel.\<close>  The loops of the free list, the queue and the table are functions with
  termination proofs.  The eviction goroutine has fuel, more than there are times in the table, which
  is shown to suffice.  Drawing an identifier is a partial function; it returns if the source keeps offering
  usable bits.  The goroutines' loops are one definition per round.  Entries have keys of at most
  65517 bytes and fit into four gigabytes (\<open>storable\<close>), the range in which the sixteen-bit
  lengths of the encodings do not wrap; what happens beyond is stated separately.

  \<^bold>\<open>Not modelled.\<close>  What is printed: the log lines, the texts of the default logger, and the text that
  \<^verbatim>\<open>Statistics\<close> and \<^verbatim>\<open>EntryNotFoundError\<close> make with the verb for quoted strings, which depends on
  the Unicode tables of printable characters; the tests; deadlines and keep-alive of
  sockets, which are settings passed to the operating system; data races inside one step, such as
  a connection closed between the two reads of one frame.  A duplicate member of a JSON object
  that holds a list reuses the memory of the first one in Go; here it starts afresh.  The package \<^verbatim>\<open>oklog/run\<close> is represented by
  its documented contract in Lifecycle.
\<close>

end
